(* ===== verification/Haka_Prelude.thy ===== *)
theory Haka_Prelude
  imports Main "HOL-Library.Monad_Syntax" "HOL-Library.Word"
begin

text \<open>
  Shared vocabulary of the development.

  C pointers are natural numbers, \<open>0\<close> is the null pointer.  A C object is stored in a map
  from its address; looking up an address that is not allocated is a fault.  Every operation that
  follows pointers returns an \<open>option\<close>: \<open>None\<close> means that the C code does not complete
  (it dereferences a null, dangling or out of range pointer, an \<open>assert\<close> fails, or a loop
  never ends), \<open>Some\<close> is a normal return.  The operations are written in the option monad, so
  each line of a definition is a statement of the C function.

  Sizes and offsets are natural numbers.  Where the C code stores a \<open>size_t\<close> in a 32-bit
  field the truncation is written out (\<open>to_u32\<close>), and so is the wrap-around of a 64-bit sum or
  difference (\<open>to_u64\<close>, \<open>sub_u64\<close>).
\<close>

type_synonym addr = nat
type_synonym u8 = "8 word"
type_synonym u16 = "16 word"
type_synonym u32 = "32 word"
type_synonym u64 = "64 word"

declare neq0_conv [iff del]

abbreviation NULL :: addr where
  "NULL \<equiv> 0"

text \<open>Simplification rules for the monadic definitions, and for list abstractions.\<close>

named_theorems heap_defs \<open>definitions of heap accessors\<close>
named_theorems frame \<open>what an operation leaves unchanged\<close>

definition assert_that :: "bool \<Rightarrow> unit option" where
  "assert_that b = (if b then Some () else None)"

lemma assert_that_simps [simp]:
  "assert_that True = Some ()"
  "assert_that False = None"
  "(assert_that b = Some u) \<longleftrightarrow> b"
  by (simp_all add: assert_that_def)

definition to_u32 :: "nat \<Rightarrow> nat" where
  "to_u32 n = n mod 2 ^ 32"

definition to_u64 :: "nat \<Rightarrow> nat" where
  "to_u64 n = n mod 2 ^ 64"

definition sub_u64 :: "nat \<Rightarrow> nat \<Rightarrow> nat" where
  "sub_u64 a b = (if b \<le> a then a - b else a + 2 ^ 64 - b)"

definition SIZE_ALL :: nat where
  "SIZE_ALL = 2 ^ 64 - 1"

lemma to_u32_id [simp]: "n < 2 ^ 32 \<Longrightarrow> to_u32 n = n"
  by (simp add: to_u32_def)

lemma to_u32_0 [simp]: "to_u32 0 = 0"
  by (simp add: to_u32_def)

lemma to_u32_less: "to_u32 n < 2 ^ 32"
  by (simp add: to_u32_def)

lemma to_u32_le: "to_u32 n \<le> n"
  by (simp add: to_u32_def)

lemma to_u64_id [simp]: "n < 2 ^ 64 \<Longrightarrow> to_u64 n = n"
  by (simp add: to_u64_def)

lemma to_u64_0 [simp]: "to_u64 0 = 0"
  by (simp add: to_u64_def)

lemma sub_u64_id [simp]: "b \<le> a \<Longrightarrow> sub_u64 a b = a - b"
  by (simp add: sub_u64_def)

text \<open>Two maps agree outside a set of addresses.\<close>

definition same_off :: "'a set \<Rightarrow> ('a \<rightharpoonup> 'b) \<Rightarrow> ('a \<rightharpoonup> 'b) \<Rightarrow> bool" where
  "same_off A m m' \<longleftrightarrow> (\<forall>a. a \<notin> A \<longrightarrow> m' a = m a)"

lemma same_offI: "(\<And>a. a \<notin> A \<Longrightarrow> m' a = m a) \<Longrightarrow> same_off A m m'"
  by (simp add: same_off_def)

lemma same_offD: "same_off A m m' \<Longrightarrow> a \<notin> A \<Longrightarrow> m' a = m a"
  by (simp add: same_off_def)

lemma same_off_refl [simp, intro]: "same_off A m m"
  by (simp add: same_off_def)

lemma same_off_trans: "same_off A m m' \<Longrightarrow> same_off B m' m'' \<Longrightarrow> same_off (A \<union> B) m m''"
  by (simp add: same_off_def)

lemma same_off_mono: "same_off A m m' \<Longrightarrow> A \<subseteq> B \<Longrightarrow> same_off B m m'"
  by (auto simp: same_off_def)

lemma bind_Some_iff: "(Option.bind m f = Some r) \<longleftrightarrow> (\<exists>x. m = Some x \<and> f x = Some r)"
  by (cases m) auto

lemma hd_append_end: "hd (xs @ [e]) = (if xs = [] then e else hd xs)"
  by (cases xs) auto

lemma hd_snoc_in: "hd (xs @ [e]) \<in> insert e (set xs)"
  by (cases xs) auto

lemma last_Cons_in: "last (e # xs) \<in> insert e (set xs)"
  by (cases xs rule: rev_cases) auto

lemma last_in_set_Cons: "last (x # xs) \<in> set (x # xs)"
  by (rule last_in_set) simp

lemma butlast_not_last:
  "distinct xs \<Longrightarrow> a \<in> set (butlast xs) \<Longrightarrow> a \<noteq> last xs \<and> a \<in> set xs"
  by (cases xs rule: rev_cases) auto

lemma distinct_append_Cons_unique:
  assumes "distinct (xs @ c # ys)" "xs @ c # ys = us @ c # vs"
  shows "xs = us \<and> ys = vs"
proof -
  have "takeWhile (\<lambda>a. a \<noteq> c) (xs @ c # ys) = xs" using assms(1) by (subst takeWhile_append2) auto
  moreover have "takeWhile (\<lambda>a. a \<noteq> c) (us @ c # vs) = us"
    using assms by (subst takeWhile_append2) (auto simp: assms(2))
  ultimately show ?thesis using assms(2) by simp
qed

lemma take_drop_slice:
  "take n (drop m (take k xs)) = take (min n (k - m)) (drop m xs)"
  by (simp add: drop_take min.commute)

lemma sum_list_take_drop: "sum_list (take n xs) + sum_list (drop n xs) = sum_list (xs :: nat list)"
  by (metis append_take_drop_id sum_list_append)

text \<open>The unsigned value of bytes in the order of a little-endian host, and the \<open>n\<close> bytes of a value.\<close>

fun le_nat :: "u8 list \<Rightarrow> nat" where
  "le_nat [] = 0"
| "le_nat (b # bs) = unat b + 256 * le_nat bs"

fun le_bytes :: "nat \<Rightarrow> nat \<Rightarrow> u8 list" where
  "le_bytes 0 x = []"
| "le_bytes (Suc n) x = of_nat (x mod 256) # le_bytes n (x div 256)"

lemma length_le_bytes [simp]: "length (le_bytes n x) = n"
  by (induction n arbitrary: x) auto

lemma unat_byte: "unat (of_nat (x mod 256) :: u8) = x mod 256"
  by (simp add: unat_of_nat)

lemma le_nat_le_bytes: "le_nat (le_bytes n x) = x mod 256 ^ n"
proof (induction n arbitrary: x)
  case (Suc n)
  have "le_nat (le_bytes (Suc n) x) = x mod 256 + 256 * (x div 256 mod 256 ^ n)"
    using Suc by (simp only: le_bytes.simps le_nat.simps unat_byte)
  then show ?case by (simp add: mod_mult2_eq)
qed simp

lemma le_bytes_le_nat: "le_bytes (length bs) (le_nat bs) = bs"
proof (induction bs)
  case (Cons b bs)
  have b: "unat b < 256" using unsigned_less [of b, where ?'a = nat] by simp
  then have "(unat b + 256 * le_nat bs) mod 256 = unat b" "(unat b + 256 * le_nat bs) div 256 = le_nat bs"
    by simp_all
  then show ?case using Cons by simp
qed simp

lemma le_nat_less: "le_nat bs < 256 ^ length bs"
  using le_nat_le_bytes [of "length bs" "le_nat bs"] le_bytes_le_nat [of bs]
  by (metis mod_less_divisor zero_less_numeral zero_less_power)

end
