(* ===== verification/List2.thy ===== *)
theory List2
  imports Haka_Prelude
begin

text \<open>
  The intrusive circular doubly-linked list of \<open>include/haka/container/list2.h\<close> and
  \<open>lib/haka/container/list2.c\<close>, over a heap of list elements.  A list is a cycle through its
  head; an element that is in no list has two null links.  The consistency checks of the debug build
  (\<open>CHECK_LIST\<close>) are not part of the model.

  The theory shows that each pointer operation implements the operation on sequences its name
  promises, and that it changes no link outside the lists it works on.  The locale \<open>link_list\<close>
  states this as the contract the other components use.
\<close>

section \<open>Elements and operations\<close>

record list2_elem =
  lprev :: addr
  lnext :: addr

type_synonym links = "addr \<rightharpoonup> list2_elem"

definition set_next :: "links \<Rightarrow> addr \<Rightarrow> addr \<Rightarrow> links option" where
  "set_next lk a v = do { e \<leftarrow> lk a; Some (lk(a \<mapsto> e\<lparr>lnext := v\<rparr>)) }"

definition set_prev :: "links \<Rightarrow> addr \<Rightarrow> addr \<Rightarrow> links option" where
  "set_prev lk a v = do { e \<leftarrow> lk a; Some (lk(a \<mapsto> e\<lparr>lprev := v\<rparr>)) }"

definition list2_next :: "links \<Rightarrow> addr \<Rightarrow> addr option" where
  "list2_next lk iter = do { e \<leftarrow> lk iter; Some (lnext e) }"

definition list2_prev :: "links \<Rightarrow> addr \<Rightarrow> addr option" where
  "list2_prev lk iter = do { e \<leftarrow> lk iter; Some (lprev e) }"

definition list2_elem_init :: "links \<Rightarrow> addr \<Rightarrow> links" where
  "list2_elem_init lk elem = lk(elem \<mapsto> \<lparr>lprev = NULL, lnext = NULL\<rparr>)"

definition list2_elem_check :: "links \<Rightarrow> addr \<Rightarrow> bool option" where
  "list2_elem_check lk elem = do { e \<leftarrow> lk elem; Some (lnext e \<noteq> NULL \<and> lprev e \<noteq> NULL) }"

definition list2_init :: "links \<Rightarrow> addr \<Rightarrow> links" where
  "list2_init lk list = lk(list \<mapsto> \<lparr>lprev = list, lnext = list\<rparr>)"

definition list2_begin :: "links \<Rightarrow> addr \<Rightarrow> addr option" where
  "list2_begin lk list = list2_next lk list"

definition list2_end :: "addr \<Rightarrow> addr" where
  "list2_end list = list"

definition list2_empty :: "links \<Rightarrow> addr \<Rightarrow> bool option" where
  "list2_empty lk list = do { b \<leftarrow> list2_begin lk list; Some (b = list2_end list) }"

definition list2_first :: "links \<Rightarrow> addr \<Rightarrow> addr option" where
  "list2_first lk list =
     do { emp \<leftarrow> list2_empty lk list; if emp then Some NULL else list2_begin lk list }"

definition list2_last :: "links \<Rightarrow> addr \<Rightarrow> addr option" where
  "list2_last lk list =
     do { emp \<leftarrow> list2_empty lk list; if emp then Some NULL else list2_prev lk (list2_end list) }"

definition list2_insert :: "links \<Rightarrow> addr \<Rightarrow> addr \<Rightarrow> (addr \<times> links) option" where
  "list2_insert lk iter elem = do {
     assert_that (iter \<noteq> NULL);
     assert_that (elem \<noteq> NULL);
     e \<leftarrow> lk elem;
     assert_that (lnext e = NULL \<and> lprev e = NULL);
     lk \<leftarrow> set_next lk elem iter;
     p \<leftarrow> list2_prev lk iter;
     lk \<leftarrow> set_prev lk elem p;
     p \<leftarrow> list2_prev lk iter;
     lk \<leftarrow> set_next lk p elem;
     lk \<leftarrow> set_prev lk iter elem;
     Some (elem, lk)
   }"

definition list2_insert_list :: "links \<Rightarrow> addr \<Rightarrow> addr \<Rightarrow> addr \<Rightarrow> (addr \<times> links) option" where
  "list2_insert_list lk iter begin end =
     (if begin = end then Some (iter, lk)
      else do {
        last \<leftarrow> list2_prev lk end;
        p \<leftarrow> list2_prev lk begin;
        lk \<leftarrow> set_next lk p end;
        p \<leftarrow> list2_prev lk begin;
        lk \<leftarrow> set_prev lk end p;
        p \<leftarrow> list2_prev lk iter;
        lk \<leftarrow> set_next lk p begin;
        p \<leftarrow> list2_prev lk iter;
        lk \<leftarrow> set_prev lk begin p;
        lk \<leftarrow> set_next lk last iter;
        lk \<leftarrow> set_prev lk iter last;
        Some (iter, lk)
      })"

definition list2_erase :: "links \<Rightarrow> addr \<Rightarrow> (addr \<times> links) option" where
  "list2_erase lk list = do {
     assert_that (list \<noteq> NULL);
     n \<leftarrow> list2_next lk list;
     p \<leftarrow> list2_prev lk list;
     lk \<leftarrow> set_prev lk n p;
     p \<leftarrow> list2_prev lk list;
     n' \<leftarrow> list2_next lk list;
     lk \<leftarrow> set_next lk p n';
     lk \<leftarrow> set_prev lk list NULL;
     lk \<leftarrow> set_next lk list NULL;
     Some (n, lk)
   }"

definition list2_swap :: "links \<Rightarrow> addr \<Rightarrow> addr \<Rightarrow> links option" where
  "list2_swap lk a b = do {
     a_empty \<leftarrow> list2_empty lk a;
     b_empty \<leftarrow> list2_empty lk b;
     lk \<leftarrow> (if \<not> a_empty then do {
              n \<leftarrow> list2_next lk a;
              lk \<leftarrow> set_prev lk n b;
              p \<leftarrow> list2_prev lk a;
              set_next lk p b
            } else Some lk);
     lk \<leftarrow> (if \<not> b_empty then do {
              n \<leftarrow> list2_next lk b;
              lk \<leftarrow> set_prev lk n a;
              p \<leftarrow> list2_prev lk b;
              set_next lk p a
            } else Some lk);
     tmp \<leftarrow> lk b;
     ea \<leftarrow> lk a;
     lk \<leftarrow> Some (if \<not> a_empty then lk(b \<mapsto> ea) else list2_init lk b);
     Some (if \<not> b_empty then lk(a \<mapsto> tmp) else list2_init lk a)
   }"

section \<open>The cycle a list occupies\<close>

definition nxt :: "links \<Rightarrow> addr \<Rightarrow> addr" where
  "nxt lk a = (case lk a of None \<Rightarrow> NULL | Some e \<Rightarrow> lnext e)"

definition prv :: "links \<Rightarrow> addr \<Rightarrow> addr" where
  "prv lk a = (case lk a of None \<Rightarrow> NULL | Some e \<Rightarrow> lprev e)"

text \<open>Consecutive elements of the path are linked in both directions.\<close>

fun linked :: "links \<Rightarrow> addr list \<Rightarrow> bool" where
  "linked lk (x # y # zs) \<longleftrightarrow> nxt lk x = y \<and> prv lk y = x \<and> linked lk (y # zs)"
| "linked lk _ \<longleftrightarrow> True"

text \<open>\<open>circ lk xs\<close>: the elements \<open>xs\<close> form one cycle, in this order.\<close>

definition circ :: "links \<Rightarrow> addr list \<Rightarrow> bool" where
  "circ lk xs \<longleftrightarrow> xs \<noteq> [] \<and> distinct xs \<and> NULL \<notin> set xs \<and> set xs \<subseteq> dom lk \<and>
     linked lk (xs @ [hd xs])"

text \<open>An element in no list.\<close>

definition detached :: "links \<Rightarrow> addr \<Rightarrow> bool" where
  "detached lk a \<longleftrightarrow> a \<noteq> NULL \<and> lk a = Some \<lparr>lprev = NULL, lnext = NULL\<rparr>"

lemma linked_append_join:
  "linked lk (xs @ y # ys) \<longleftrightarrow> linked lk (xs @ [y]) \<and> linked lk (y # ys)"
  by (induction lk xs rule: linked.induct) (auto; cases ys; auto)+

lemma linked_snoc:
  "xs \<noteq> [] \<Longrightarrow>
   linked lk (xs @ [y]) \<longleftrightarrow> linked lk xs \<and> nxt lk (last xs) = y \<and> prv lk y = last xs"
  by (induction lk xs rule: linked.induct) auto

lemma linked_cong:
  assumes "\<And>x. x \<in> set (butlast xs) \<Longrightarrow> nxt lk' x = nxt lk x"
    and "\<And>x. x \<in> set (tl xs) \<Longrightarrow> prv lk' x = prv lk x"
  shows "linked lk' xs = linked lk xs"
  using assms
proof (induction lk xs rule: linked.induct)
  case (1 lk x y zs)
  have "linked lk' (y # zs) = linked lk (y # zs)"
    by (rule "1.IH") (use "1.prems" in \<open>auto dest: list.set_sel(2)\<close>)
  with "1.prems" show ?case by simp
qed auto

section \<open>What single link updates do\<close>

definition upd_next :: "links \<Rightarrow> addr \<Rightarrow> addr \<Rightarrow> links" where
  "upd_next lk a v = lk(a \<mapsto> (the (lk a))\<lparr>lnext := v\<rparr>)"

definition upd_prev :: "links \<Rightarrow> addr \<Rightarrow> addr \<Rightarrow> links" where
  "upd_prev lk a v = lk(a \<mapsto> (the (lk a))\<lparr>lprev := v\<rparr>)"

lemma link_reads [simp]:
  "a \<in> dom lk \<Longrightarrow> list2_next lk a = Some (nxt lk a)"
  "a \<in> dom lk \<Longrightarrow> list2_prev lk a = Some (prv lk a)"
  by (auto simp: list2_next_def nxt_def list2_prev_def prv_def)

lemma link_writes [simp]:
  "a \<in> dom lk \<Longrightarrow> set_next lk a v = Some (upd_next lk a v)"
  "a \<in> dom lk \<Longrightarrow> set_prev lk a v = Some (upd_prev lk a v)"
  by (auto simp: set_next_def set_prev_def upd_next_def upd_prev_def)

lemma upd_links [simp]:
  "nxt (upd_next lk a v) = (nxt lk)(a := v)"
  "a \<in> dom lk \<Longrightarrow> prv (upd_next lk a v) = prv lk"
  "prv (upd_prev lk a v) = (prv lk)(a := v)"
  "a \<in> dom lk \<Longrightarrow> nxt (upd_prev lk a v) = nxt lk"
  "a \<in> dom lk \<Longrightarrow> dom (upd_next lk a v) = dom lk"
  "a \<in> dom lk \<Longrightarrow> dom (upd_prev lk a v) = dom lk"
  "b \<noteq> a \<Longrightarrow> upd_next lk a v b = lk b"
  "b \<noteq> a \<Longrightarrow> upd_prev lk a v b = lk b"
  by (auto simp: upd_next_def upd_prev_def nxt_def prv_def fun_eq_iff split: option.splits)

lemma detached_links:
  "detached lk a \<longleftrightarrow> a \<noteq> NULL \<and> a \<in> dom lk \<and> nxt lk a = NULL \<and> prv lk a = NULL"
  by (auto simp: detached_def nxt_def prv_def)

lemma detached_elem: "detached lk a \<Longrightarrow> \<exists>e. lk a = Some e \<and> lnext e = NULL \<and> lprev e = NULL"
  by (auto simp: detached_def)

definition insert_effect :: "links \<Rightarrow> addr \<Rightarrow> addr \<Rightarrow> links" where
  "insert_effect lk iter elem =
     upd_prev (upd_next (upd_prev (upd_next lk elem iter) elem (prv lk iter)) (prv lk iter) elem)
       iter elem"

lemma list2_insert_effect:
  assumes "iter \<in> dom lk" "prv lk iter \<in> dom lk" "detached lk elem" "iter \<noteq> NULL"
    "elem \<noteq> iter"
  shows "list2_insert lk iter elem = Some (elem, insert_effect lk iter elem)"
  using assms detached_elem [OF assms(3)]
  by (auto simp: list2_insert_def insert_effect_def detached_links simp del: domIff)

lemma insert_effect_links:
  assumes "iter \<in> dom lk" "prv lk iter \<in> dom lk" "elem \<in> dom lk"
  shows "nxt (insert_effect lk iter elem) = (nxt lk)(elem := iter, prv lk iter := elem)"
    "prv (insert_effect lk iter elem) = (prv lk)(elem := prv lk iter, iter := elem)"
    "dom (insert_effect lk iter elem) = dom lk"
    "a \<notin> {elem, iter, prv lk iter} \<Longrightarrow> insert_effect lk iter elem a = lk a"
  using assms by (auto simp: insert_effect_def simp del: domIff)

definition erase_effect :: "links \<Rightarrow> addr \<Rightarrow> links" where
  "erase_effect lk x =
     (let l1 = upd_prev lk (nxt lk x) (prv lk x);
          l2 = upd_next l1 (prv l1 x) (nxt lk x)
      in upd_next (upd_prev l2 x NULL) x NULL)"

lemma list2_erase_effect:
  assumes "x \<in> dom lk" "nxt lk x \<in> dom lk" "prv lk x \<in> dom lk" "x \<noteq> NULL"
  shows "list2_erase lk x = Some (nxt lk x, erase_effect lk x)"
  using assms by (auto simp: list2_erase_def erase_effect_def Let_def simp del: domIff)

lemma erase_effect_links:
  assumes "x \<in> dom lk" "nxt lk x \<in> dom lk" "prv lk x \<in> dom lk"
  shows "nxt (erase_effect lk x) = (nxt lk)(prv lk x := nxt lk x, x := NULL)"
    "prv (erase_effect lk x) = (prv lk)(nxt lk x := prv lk x, x := NULL)"
    "dom (erase_effect lk x) = dom lk"
    "a \<notin> {x, nxt lk x, prv lk x} \<Longrightarrow> erase_effect lk x a = lk a"
  using assms by (auto simp: erase_effect_def Let_def fun_eq_iff simp del: domIff)

definition splice_effect :: "links \<Rightarrow> addr \<Rightarrow> addr \<Rightarrow> addr \<Rightarrow> links" where
  "splice_effect lk iter begin end =
     (let l1 = upd_next lk (prv lk begin) end;
          l2 = upd_prev l1 end (prv lk begin);
          l3 = upd_next l2 (prv l2 iter) begin;
          l4 = upd_prev l3 begin (prv l2 iter);
          l5 = upd_next l4 (prv lk end) iter
      in upd_prev l5 iter (prv lk end))"

lemma list2_insert_list_effect:
  assumes "iter \<in> dom lk" "begin \<in> dom lk" "end \<in> dom lk" "prv lk iter \<in> dom lk"
    "prv lk begin \<in> dom lk" "prv lk end \<in> dom lk" "begin \<noteq> end"
  shows "list2_insert_list lk iter begin end = Some (iter, splice_effect lk iter begin end)"
  using assms by (auto simp: list2_insert_list_def splice_effect_def Let_def simp del: domIff)

lemma splice_effect_links:
  assumes "iter \<in> dom lk" "begin \<in> dom lk" "end \<in> dom lk" "prv lk iter \<in> dom lk"
    "prv lk begin \<in> dom lk" "prv lk end \<in> dom lk" "iter \<noteq> begin" "iter \<noteq> end" "begin \<noteq> end"
  shows "nxt (splice_effect lk iter begin end) =
           (nxt lk)(prv lk begin := end, prv lk iter := begin, prv lk end := iter)"
    "prv (splice_effect lk iter begin end) =
           (prv lk)(end := prv lk begin, begin := prv lk iter, iter := prv lk end)"
    "dom (splice_effect lk iter begin end) = dom lk"
    "a \<notin> {iter, begin, end, prv lk iter, prv lk begin, prv lk end} \<Longrightarrow>
       splice_effect lk iter begin end a = lk a"
  using assms by (auto simp: splice_effect_def Let_def fun_eq_iff simp del: domIff)

section \<open>Operations on cycles\<close>

lemma circ_Cons:
  "circ lk (x # xs) \<longleftrightarrow> distinct (x # xs) \<and> NULL \<notin> set (x # xs) \<and> set (x # xs) \<subseteq> dom lk \<and>
     linked lk (x # xs) \<and> nxt lk (last (x # xs)) = x \<and> prv lk x = last (x # xs)"
  unfolding circ_def using linked_snoc [of "x # xs" lk x] by auto

lemma circ_rotate: "circ lk (xs @ ys) \<longleftrightarrow> circ lk (ys @ xs)"
proof (cases "xs = [] \<or> ys = []")
  case False
  then obtain x xs' y ys' where xy: "xs = x # xs'" "ys = y # ys'" by (meson neq_Nil_conv)
  have "linked lk ((xs @ ys) @ [hd (xs @ ys)]) \<longleftrightarrow> linked lk (xs @ [hd ys]) \<and> linked lk (ys @ [hd xs])"
    using linked_append_join [of lk xs y "ys' @ [x]"] xy by simp
  moreover
  have "linked lk ((ys @ xs) @ [hd (ys @ xs)]) \<longleftrightarrow> linked lk (ys @ [hd xs]) \<and> linked lk (xs @ [hd ys])"
    using linked_append_join [of lk ys x "xs' @ [y]"] xy by simp
  ultimately show ?thesis by (auto simp: circ_def)
qed auto

lemma circ_frame: "(\<And>a. a \<in> set xs \<Longrightarrow> lk' a = lk a) \<Longrightarrow> circ lk' xs = circ lk xs"
proof (cases xs)
  case (Cons x ys)
  assume eq: "\<And>a. a \<in> set xs \<Longrightarrow> lk' a = lk a"
  have "linked lk' (xs @ [hd xs]) = linked lk (xs @ [hd xs])"
    by (rule linked_cong) (use eq Cons in \<open>auto simp: nxt_def prv_def\<close>)
  moreover have "(set xs \<subseteq> dom lk') = (set xs \<subseteq> dom lk)" using eq by (auto simp: dom_def)
  ultimately show ?thesis by (simp add: circ_def)
qed (simp add: circ_def)

lemma circ_prv_in: "circ lk (x # xs) \<Longrightarrow> prv lk x \<in> set (x # xs)"
  unfolding circ_Cons by (metis last_in_set_Cons)

lemma circ_dom: "circ lk xs \<Longrightarrow> a \<in> set xs \<Longrightarrow> a \<in> dom lk"
  by (auto simp: circ_def)

lemma circ_split_links:
  assumes "circ lk (xs @ y # z # zs)"
  shows "nxt lk y = z" "prv lk z = y"
proof -
  have "linked lk (xs @ y # z # zs @ [hd (xs @ y # z # zs)])" using assms by (simp add: circ_def)
  then have "linked lk (y # z # zs @ [hd (xs @ y # z # zs)])"
    using linked_append_join [of lk xs y] by blast
  then show "nxt lk y = z" "prv lk z = y" by simp_all
qed

lemma circ_init: "list \<noteq> NULL \<Longrightarrow> circ (list2_init lk list) [list]"
  by (simp add: circ_Cons list2_init_def nxt_def prv_def)

lemma circ_insert:
  assumes "circ lk (iter # xs)" "detached lk elem" "elem \<notin> set (iter # xs)"
  obtains lk' where "list2_insert lk iter elem = Some (elem, lk')" "circ lk' (iter # xs @ [elem])"
    "\<And>a. a \<notin> insert elem (set (iter # xs)) \<Longrightarrow> lk' a = lk a" "dom lk' = dom lk"
proof -
  let ?l = "insert_effect lk iter elem" and ?p = "prv lk iter"
  note c = assms(1) [unfolded circ_Cons]
  have p: "?p = last (iter # xs)" and pin: "?p \<in> set (iter # xs)"
    using c circ_prv_in [OF assms(1)] by auto
  have d: "iter \<in> dom lk" "?p \<in> dom lk" "elem \<in> dom lk" "iter \<noteq> NULL" "elem \<noteq> iter"
    using c pin assms(2,3) by (auto simp: detached_links simp del: domIff)
  have "linked ?l (iter # xs) = linked lk (iter # xs)"
  proof (rule linked_cong)
    fix a assume "a \<in> set (butlast (iter # xs))"
    then have "a \<noteq> last (iter # xs) \<and> a \<in> set (iter # xs)"
      by (rule butlast_not_last [rotated]) (use c in simp)
    then show "nxt ?l a = nxt lk a"
      using assms(3) p by (auto simp: insert_effect_links [OF d(1-3)])
  next
    fix a assume "a \<in> set (tl (iter # xs))"
    with c assms(3) show "prv ?l a = prv lk a" by (auto simp: insert_effect_links [OF d(1-3)])
  qed
  moreover have "nxt ?l (last (iter # xs)) = elem" "prv ?l elem = last (iter # xs)"
    "nxt ?l elem = iter" "prv ?l iter = elem"
    using assms(3) p pin d(5) by (auto simp: insert_effect_links [OF d(1-3)])
  ultimately have ci: "circ ?l (iter # xs @ [elem])"
    using c assms(2,3) linked_snoc [of "iter # xs" ?l elem]
    by (simp add: circ_Cons [of ?l] insert_effect_links(3) [OF d(1-3)] detached_links del: domIff)
  have "list2_insert lk iter elem = Some (elem, ?l)"
    by (rule list2_insert_effect) (use d assms(2) in \<open>auto simp del: domIff\<close>)
  then show ?thesis
  proof (rule that [OF _ ci])
    fix a assume "a \<notin> insert elem (set (iter # xs))"
    then have "a \<notin> {elem, iter, ?p}" using pin by auto
    then show "?l a = lk a" by (rule insert_effect_links(4) [OF d(1-3)])
  qed (rule insert_effect_links(3) [OF d(1-3)])
qed

lemma circ_erase:
  assumes "circ lk (x # xs)" "xs \<noteq> []"
  obtains lk' where "list2_erase lk x = Some (hd xs, lk')" "circ lk' xs" "detached lk' x"
    "\<And>a. a \<notin> set (x # xs) \<Longrightarrow> lk' a = lk a" "dom lk' = dom lk"
proof -
  obtain y ys where xs: "xs = y # ys" using assms(2) by (cases xs) auto
  note c = assms(1) [unfolded circ_Cons]
  have n: "nxt lk x = y" and p: "prv lk x = last xs" using c xs by auto
  have l: "last xs \<in> set xs" using xs by simp
  have d: "x \<in> dom lk" "nxt lk x \<in> dom lk" "prv lk x \<in> dom lk" "x \<noteq> NULL"
    using c n p l xs by (auto simp del: domIff)
  have ne: "x \<notin> set xs" "last xs \<noteq> x" using c l xs by auto
  let ?l = "erase_effect lk x"
  note el = erase_effect_links [OF d(1-3), unfolded n p]
  have "linked ?l xs = linked lk xs"
  proof (rule linked_cong)
    fix a assume "a \<in> set (butlast xs)"
    then have "a \<noteq> last xs \<and> a \<in> set xs"
      by (rule butlast_not_last [rotated]) (use c xs in simp)
    then show "nxt ?l a = nxt lk a" using ne(1) by (auto simp: el)
  next
    fix a assume "a \<in> set (tl xs)"
    with c xs show "prv ?l a = prv lk a" by (auto simp: el)
  qed
  moreover have "linked lk xs" using c xs by simp
  moreover have "nxt ?l (last xs) = y" "prv ?l y = last xs" using ne xs by (auto simp: el)
  ultimately have ci: "circ ?l xs" using c xs by (simp add: circ_Cons el)
  have er: "list2_erase lk x = Some (hd xs, ?l)"
    using list2_erase_effect [OF d] n xs by simp
  have "detached ?l x" using d by (auto simp: detached_links el simp del: domIff)
  then show ?thesis
  proof (rule that [OF er ci])
    fix a assume "a \<notin> set (x # xs)"
    then have "a \<notin> {x, y, last xs}" using l xs by auto
    then show "?l a = lk a" by (rule el(4))
  qed (rule el(3))
qed

lemma circ_erase_last:
  assumes "circ lk [x]"
  obtains lk' where "list2_erase lk x = Some (x, lk')" "detached lk' x"
    "\<And>a. a \<noteq> x \<Longrightarrow> lk' a = lk a" "dom lk' = dom lk"
proof -
  note c = assms [unfolded circ_Cons, simplified]
  have d: "x \<in> dom lk" "nxt lk x \<in> dom lk" "prv lk x \<in> dom lk" "x \<noteq> NULL" using c by (auto simp del: domIff)
  have "list2_erase lk x = Some (x, erase_effect lk x)" using list2_erase_effect [OF d] c by simp
  then show ?thesis
    by (rule that) (use c d in \<open>auto simp: detached_links erase_effect_links [OF d(1-3)] simp del: domIff\<close>)
qed

lemma circ_splice:
  assumes a: "circ lk (iter # as)" and b: "circ lk (begin # mid @ end # rest)"
    and disj: "set (iter # as) \<inter> set (begin # mid @ end # rest) = {}"
  obtains lk' where "list2_insert_list lk iter begin end = Some (iter, lk')"
    "circ lk' (iter # as @ begin # mid)" "circ lk' (end # rest)"
    "\<And>a. a \<notin> set (iter # as) \<union> set (begin # mid @ end # rest) \<Longrightarrow> lk' a = lk a"
    "dom lk' = dom lk"
proof -
  let ?l = "splice_effect lk iter begin end"
  let ?A = "iter # as" and ?B = "begin # mid" and ?C = "end # rest"
  note ca = a [unfolded circ_Cons] and cb = b [unfolded circ_Cons]
  have p: "prv lk iter = last ?A" "prv lk begin = last ?C" using ca cb by auto
  have q: "prv lk end = last ?B"
  proof -
    have "?B = butlast ?B @ [last ?B]" by simp
    then have "begin # mid @ end # rest = butlast ?B @ last ?B # end # rest"
      by (metis append_Cons append_Nil append_assoc)
    with b have "circ lk (butlast ?B @ last ?B # end # rest)" by metis
    then show ?thesis by (rule circ_split_links)
  qed
  have lst: "last ?A \<in> set ?A" "last ?B \<in> set ?B" "last ?C \<in> set ?C" by (rule last_in_set_Cons)+
  have dj: "set ?A \<inter> set ?B = {}" "set ?A \<inter> set ?C = {}" "set ?B \<inter> set ?C = {}"
    using disj cb by auto
  have dm: "set ?A \<subseteq> dom lk" "set ?B \<subseteq> dom lk" "set ?C \<subseteq> dom lk" using ca cb by auto
  have ne: "iter \<noteq> begin" "iter \<noteq> end" "begin \<noteq> end" using disj cb by auto
  have d: "iter \<in> dom lk" "begin \<in> dom lk" "end \<in> dom lk" "prv lk iter \<in> dom lk"
    "prv lk begin \<in> dom lk" "prv lk end \<in> dom lk"
    using dm lst unfolding p q by (auto simp del: domIff)
  note sl = splice_effect_links [OF d ne, unfolded p q]
  have keep: "linked ?l xs"
    if xs: "xs \<in> {?A, ?B, ?C}" and lx: "linked lk xs" and dx: "distinct xs" for xs
  proof -
    have "linked ?l xs = linked lk xs"
    proof (rule linked_cong)
      fix z assume "z \<in> set (butlast xs)"
      then have z: "z \<noteq> last xs \<and> z \<in> set xs" using dx by (rule butlast_not_last [rotated])
      have "z \<noteq> last ?A" "z \<noteq> last ?B" "z \<noteq> last ?C"
        using xs z lst dj by (metis disjoint_iff insertE singletonD)+
      then show "nxt ?l z = nxt lk z" by (simp add: sl)
    next
      fix z assume "z \<in> set (tl xs)"
      then have "z \<notin> {iter, begin, end}" using xs dx dj by auto
      then show "prv ?l z = prv lk z" by (simp add: sl)
    qed
    with lx show ?thesis by simp
  qed
  have lk: "linked lk ?A" "linked lk ?B" "linked lk ?C"
    using ca cb linked_append_join [of lk ?B "end" rest] linked_snoc [of ?B lk "end"] by auto
  have dis: "distinct ?A" "distinct ?B" "distinct ?C" using ca cb by auto
  have L: "linked ?l ?A" "linked ?l ?B" "linked ?l ?C"
    using keep lk dis by blast+
  have lne: "last ?A \<noteq> last ?B" "last ?A \<noteq> last ?C" "last ?B \<noteq> last ?C"
    using lst dj by (metis disjoint_iff)+
  have last_AB: "last (?A @ ?B) = last ?B" by (simp add: last_append)
  have "linked ?l (?A @ ?B)"
    using L lne ne linked_append_join [of ?l ?A "begin" mid] linked_snoc [of ?A ?l "begin"]
    by (simp add: sl del: last.simps)
  moreover have "nxt ?l (last (?A @ ?B)) = iter" "prv ?l iter = last (?A @ ?B)"
    using lne ne last_AB by (simp_all add: sl del: last.simps)
  ultimately have c1: "circ ?l (iter # as @ ?B)"
    using ca cb disj by (simp add: circ_Cons [of ?l] sl(3)) blast
  have c2: "circ ?l ?C"
    using L(3) cb lne ne by (simp add: circ_Cons [of ?l] sl del: last.simps)
  have "list2_insert_list lk iter begin end = Some (iter, ?l)"
    by (rule list2_insert_list_effect) (use d ne in auto)
  then show ?thesis
  proof (rule that [OF _ c1 c2])
    fix z assume z: "z \<notin> set ?A \<union> set (begin # mid @ end # rest)"
    then have "z \<notin> {iter, begin, end, last ?A, last ?C, last ?B}"
      using lst by (auto simp del: last.simps)
    then show "?l z = lk z" by (rule sl(4))
  qed (rule sl(3))
qed

section \<open>Lists as sequences\<close>

text \<open>\<open>seq lk l xs\<close>: the list with head \<open>l\<close> holds exactly the elements \<open>xs\<close>.\<close>

definition seq :: "links \<Rightarrow> addr \<Rightarrow> addr list \<Rightarrow> bool" where
  "seq lk l xs \<longleftrightarrow> circ lk (l # xs)"

lemma seq_frame: "(\<And>a. a \<in> insert l (set xs) \<Longrightarrow> lk' a = lk a) \<Longrightarrow> seq lk' l xs = seq lk l xs"
  unfolding seq_def by (rule circ_frame) auto

lemma seq_distinct: "seq lk l xs \<Longrightarrow> distinct xs \<and> l \<notin> set xs"
  by (auto simp: seq_def circ_def)

lemma seq_dom: "seq lk l xs \<Longrightarrow> insert l (set xs) \<subseteq> dom lk"
  by (auto simp: seq_def circ_def)

lemma seq_not_null: "seq lk l xs \<Longrightarrow> NULL \<notin> insert l (set xs)"
  by (auto simp: seq_def circ_def)

lemma seq_begin: "seq lk l xs \<Longrightarrow> list2_begin lk l = Some (hd (xs @ [l]))"
  unfolding seq_def circ_def list2_begin_def by (cases xs) auto

lemma seq_prev_end: "seq lk l xs \<Longrightarrow> list2_prev lk l = Some (last (l # xs))"
  unfolding seq_def circ_Cons by auto

lemma seq_next:
  assumes "seq lk l (xs @ x # ys)"
  shows "list2_next lk x = Some (hd (ys @ [l]))"
proof -
  have "circ lk ((x # ys) @ l # xs)"
    using assms circ_rotate [of lk "l # xs" "x # ys"] by (simp add: seq_def)
  then have "nxt lk x = hd (ys @ [l])" "x \<in> dom lk" by (cases ys; auto simp: circ_Cons)+
  then show ?thesis by simp
qed

lemma seq_prev:
  assumes "seq lk l (xs @ x # ys)"
  shows "list2_prev lk x = Some (last (l # xs))"
proof -
  have "circ lk (x # ys @ l # xs)"
    using assms circ_rotate [of lk "l # xs" "x # ys"] by (simp add: seq_def)
  then have "prv lk x = last (l # xs)" "x \<in> dom lk" by (auto simp: circ_Cons)
  then show ?thesis by simp
qed

lemma seq_insert:
  assumes "seq lk l (xs @ ys)" "detached lk e" "e \<notin> insert l (set (xs @ ys))"
  obtains lk' where "list2_insert lk (hd (ys @ [l])) e = Some (e, lk')" "seq lk' l (xs @ e # ys)"
    "same_off (insert e (insert l (set (xs @ ys)))) lk lk'" "dom lk' = dom lk"
proof -
  have c: "circ lk (hd (ys @ [l]) # tl (ys @ [l]) @ xs)"
    using assms(1) circ_rotate [of lk "l # xs" ys]
    by (cases ys) (auto simp: seq_def)
  have st: "set (hd (ys @ [l]) # tl (ys @ [l]) @ xs) = insert l (set (xs @ ys))"
    by (cases ys) auto
  from circ_insert [OF c assms(2)] assms(3) st
  obtain lk' where lk': "list2_insert lk (hd (ys @ [l])) e = Some (e, lk')"
    "circ lk' (hd (ys @ [l]) # tl (ys @ [l]) @ xs @ [e])"
    "\<And>a. a \<notin> insert e (insert l (set (xs @ ys))) \<Longrightarrow> lk' a = lk a" "dom lk' = dom lk"
    by (metis append_assoc)
  have "circ lk' (ys @ l # xs @ [e])" using lk'(2) by (cases ys) auto
  then have "circ lk' (l # xs @ e # ys)"
    using circ_rotate [of lk' ys "l # xs @ [e]"] by simp
  with lk' show ?thesis by (intro that [of lk'] same_offI) (simp_all add: seq_def)
qed

lemma seq_erase:
  assumes "seq lk l (xs @ x # ys)"
  obtains lk' where "list2_erase lk x = Some (hd (ys @ [l]), lk')" "seq lk' l (xs @ ys)"
    "detached lk' x" "same_off (insert l (set (xs @ x # ys))) lk lk'" "dom lk' = dom lk"
proof -
  have c: "circ lk (x # ys @ l # xs)"
    using assms circ_rotate [of lk "l # xs" "x # ys"] by (simp add: seq_def)
  have st: "set (x # ys @ l # xs) = insert l (set (xs @ x # ys))" by auto
  have hd: "hd (ys @ l # xs) = hd (ys @ [l])" by (cases ys) auto
  from circ_erase [OF c] st hd
  obtain lk' where lk': "list2_erase lk x = Some (hd (ys @ [l]), lk')" "circ lk' (ys @ l # xs)"
    "detached lk' x" "\<And>a. a \<notin> insert l (set (xs @ x # ys)) \<Longrightarrow> lk' a = lk a" "dom lk' = dom lk"
    by (metis append_is_Nil_conv list.distinct(1))
  from lk'(2) have "seq lk' l (xs @ ys)"
    using circ_rotate [of lk' ys "l # xs"] by (simp add: seq_def)
  with lk' show ?thesis by (intro that [of lk'] same_offI) simp_all
qed

lemma seq_splice:
  assumes "seq lk l (xs @ ys)" "seq lk m (us @ vs @ ws)"
    and "insert l (set (xs @ ys)) \<inter> insert m (set (us @ vs @ ws)) = {}"
  obtains lk' where
    "list2_insert_list lk (hd (ys @ [l])) (hd (vs @ ws @ [m])) (hd (ws @ [m])) = Some (hd (ys @ [l]), lk')"
    "seq lk' l (xs @ vs @ ys)" "seq lk' m (us @ ws)"
    "same_off (insert l (set (xs @ ys)) \<union> insert m (set (us @ vs @ ws))) lk lk'"
    "dom lk' = dom lk"
proof (cases vs)
  case Nil
  with assms show ?thesis by (intro that [of lk]) (simp_all add: list2_insert_list_def)
next
  case (Cons v vs')
  let ?i = "hd (ys @ [l])" and ?e = "hd (ws @ [m])"
  have a: "circ lk (?i # tl (ys @ [l]) @ xs)"
    using assms(1) circ_rotate [of lk "l # xs" ys] by (cases ys) (auto simp: seq_def)
  have b: "circ lk (v # vs' @ ?e # tl (ws @ [m]) @ us)"
    using assms(2) Cons circ_rotate [of lk "m # us" "vs @ ws"] by (cases ws) (auto simp: seq_def)
  have sa: "set (?i # tl (ys @ [l]) @ xs) = insert l (set (xs @ ys))" by (cases ys) auto
  have sb: "set (v # vs' @ ?e # tl (ws @ [m]) @ us) = insert m (set (us @ vs @ ws))"
    using Cons by (cases ws) auto
  from circ_splice [OF a b] assms(3)
  obtain lk' where lk': "list2_insert_list lk ?i v ?e = Some (?i, lk')"
    "circ lk' (?i # (tl (ys @ [l]) @ xs) @ v # vs')" "circ lk' (?e # tl (ws @ [m]) @ us)"
    "\<And>a. a \<notin> insert l (set (xs @ ys)) \<union> insert m (set (us @ vs @ ws)) \<Longrightarrow> lk' a = lk a"
    "dom lk' = dom lk"
    unfolding sa sb by metis
  have "circ lk' (ys @ l # xs @ v # vs')" using lk'(2) by (cases ys) auto
  then have 1: "seq lk' l (xs @ vs @ ys)"
    using circ_rotate [of lk' ys "l # xs @ vs"] Cons by (simp add: seq_def)
  have "circ lk' (ws @ m # us)" using lk'(3) by (cases ws) auto
  then have 2: "seq lk' m (us @ ws)"
    using circ_rotate [of lk' ws "m # us"] by (simp add: seq_def)
  have "hd (vs @ ws @ [m]) = v" using Cons by simp
  with lk' 1 2 show ?thesis by (intro that [of lk'] same_offI) simp_all
qed

section \<open>Exchanging two lists\<close>

lemma circ_rehead:
  assumes "circ lk (a # xs)" "xs \<noteq> []" "b \<notin> set xs" "b \<noteq> NULL" "insert b (set xs) \<subseteq> dom lk'"
    and "nxt lk' b = hd xs" "prv lk' b = last xs" "prv lk' (hd xs) = b" "nxt lk' (last xs) = b"
    and "\<And>x. x \<in> set (butlast xs) \<Longrightarrow> nxt lk' x = nxt lk x"
    and "\<And>x. x \<in> set (tl xs) \<Longrightarrow> prv lk' x = prv lk x"
  shows "circ lk' (b # xs)"
proof -
  have "linked lk' xs = linked lk xs" by (rule linked_cong) (use assms in auto)
  moreover have "linked lk xs" using assms(1,2) by (cases xs) (auto simp: circ_Cons)
  ultimately have "linked lk' (b # xs)" using assms by (cases xs) auto
  then show ?thesis using assms by (auto simp: circ_Cons)
qed

text \<open>The neighbours of head \<open>a\<close> are redirected to \<open>b\<close>.\<close>

definition redirect :: "links \<Rightarrow> addr \<Rightarrow> addr \<Rightarrow> links" where
  "redirect lk a b =
     (if nxt lk a = a then lk
      else upd_next (upd_prev lk (nxt lk a) b) (prv lk a) b)"

definition swap_effect :: "links \<Rightarrow> addr \<Rightarrow> addr \<Rightarrow> links" where
  "swap_effect lk a b =
     (let l = redirect (redirect lk a b) b a;
          l' = (if nxt lk a = a then list2_init l b else l(b \<mapsto> the (l a)))
      in if nxt lk b = b then list2_init l' a else l'(a \<mapsto> the (l b)))"

lemma seq_ends:
  assumes "seq lk a xs"
  shows "a \<in> dom lk" "nxt lk a = hd (xs @ [a])" "prv lk a = last (a # xs)" "(nxt lk a = a) = (xs = [])"
proof -
  show "a \<in> dom lk" using seq_dom [OF assms] by blast
  then show n: "nxt lk a = hd (xs @ [a])" using seq_begin [OF assms] by (simp add: list2_begin_def del: domIff)
  show "prv lk a = last (a # xs)" using assms unfolding seq_def circ_Cons by blast
  show "(nxt lk a = a) = (xs = [])"
    using n seq_distinct [OF assms] by (cases xs) simp_all
qed

lemma redirect_effect:
  assumes "seq lk a xs"
  shows "redirect lk a b =
    (if xs = [] then lk else upd_next (upd_prev lk (hd xs) b) (last xs) b)"
  using seq_ends(2-4) [OF assms] by (auto simp: redirect_def)

lemma seq_ends_dom:
  assumes "seq lk a xs" "xs \<noteq> []"
  shows "hd xs \<in> dom lk" "last xs \<in> dom lk" "hd xs \<noteq> a"
  using assms unfolding seq_def circ_def by (auto dest: last_in_set hd_in_set)

lemma redirect_links:
  assumes "seq lk a xs"
  shows "nxt (redirect lk a b) = (if xs = [] then nxt lk else (nxt lk)(last xs := b))"
    "prv (redirect lk a b) = (if xs = [] then prv lk else (prv lk)(hd xs := b))"
    "dom (redirect lk a b) = dom lk"
  using seq_ends_dom [OF assms] by (simp_all add: redirect_effect [OF assms] del: domIff)

lemma redirect_frame:
  assumes "seq lk a xs" "c \<notin> set xs"
  shows "redirect lk a b c = lk c"
proof (cases "xs = []")
  case False
  then have "c \<noteq> hd xs" "c \<noteq> last xs" using assms(2) by auto
  with False show ?thesis by (simp add: redirect_effect [OF assms(1)])
qed (simp add: redirect_effect [OF assms(1)])

lemma redirect_step:
  assumes "seq lk a xs"
  shows "(if nxt lk a \<noteq> a then do { n \<leftarrow> list2_next lk a; lk \<leftarrow> set_prev lk n b;
            p \<leftarrow> list2_prev lk a; set_next lk p b } else Some lk) = Some (redirect lk a b)"
proof (cases "xs = []")
  case False
  have "nxt lk a = hd xs" "prv lk a = last xs" "a \<in> dom lk"
    using seq_ends(1-3) [OF assms] False by auto
  with seq_ends_dom [OF assms False] False show ?thesis
    by (simp add: redirect_effect [OF assms] del: domIff)
qed (use seq_ends(4) [OF assms] in \<open>simp add: redirect_effect [OF assms]\<close>)

lemma list2_swap_effect:
  assumes a: "seq lk a xs" and b: "seq lk b ys" and disj: "insert a (set xs) \<inter> insert b (set ys) = {}"
  shows "list2_swap lk a b = Some (swap_effect lk a b)"
proof -
  let ?r = "redirect lk a b"
  note ea = seq_ends [OF a] and eb = seq_ends [OF b]
  have "a \<notin> set xs" "b \<notin> set ys" using a b by (auto dest: seq_distinct)
  have rb: "seq ?r b ys"
    using b seq_frame [of b ys ?r lk] redirect_frame [OF a, of _ b] disj by blast
  have d: "a \<in> dom (redirect ?r b a)" "b \<in> dom (redirect ?r b a)"
    using ea eb by (auto simp: redirect_links(3) [OF rb] redirect_links(3) [OF a] simp del: domIff)
  have em: "list2_empty lk a = Some (nxt lk a = a)" "list2_empty lk b = Some (nxt lk b = b)"
    using ea(1) eb(1) by (simp_all add: list2_empty_def list2_begin_def list2_end_def del: domIff)
  have nb: "(nxt ?r b = b) = (nxt lk b = b)" using seq_ends(4) [OF rb] eb(4) by simp
  note s1 = redirect_step [OF a, of b] and s2 = redirect_step [OF rb, of a, unfolded nb]
  show ?thesis
    unfolding list2_swap_def em
    using d by (simp only: Option.bind.simps s1 s2) (auto simp: swap_effect_def Let_def)
qed

lemma seq_rehead:
  assumes "seq lk a xs" "b \<in> dom lk'" "b \<notin> set xs" "b \<noteq> NULL" "set xs \<subseteq> dom lk'"
    and "nxt lk' b = hd (xs @ [b])" "prv lk' b = last (b # xs)"
    and "\<And>x. x \<in> set xs \<Longrightarrow> nxt lk' x = (if x = last xs then b else nxt lk x)"
    and "\<And>x. x \<in> set xs \<Longrightarrow> prv lk' x = (if x = hd xs then b else prv lk x)"
  shows "seq lk' b xs"
proof (cases "xs = []")
  case True
  with assms show ?thesis by (simp add: seq_def circ_Cons)
next
  case False
  have d: "distinct xs" using assms(1) seq_distinct by blast
  have "circ lk' (b # xs)"
  proof (rule circ_rehead [of lk a])
    fix x assume "x \<in> set (butlast xs)"
    with d have "x \<noteq> last xs" "x \<in> set xs" using butlast_not_last by metis+
    then show "nxt lk' x = nxt lk x" using assms(8) by simp
  next
    fix x assume x: "x \<in> set (tl xs)"
    with d False have "x \<noteq> hd xs" by (cases xs) auto
    then show "prv lk' x = prv lk x" using assms(9) x list.set_sel(2) False by metis
  qed (use assms False in \<open>simp_all add: seq_def\<close>)
  then show ?thesis by (simp add: seq_def)
qed

lemma swap_effect_links:
  assumes a: "seq lk a xs" and b: "seq lk b ys" and disj: "insert a (set xs) \<inter> insert b (set ys) = {}"
  defines "lk' \<equiv> swap_effect lk a b"
  shows "nxt lk' b = hd (xs @ [b])" "prv lk' b = last (b # xs)"
    and "nxt lk' a = hd (ys @ [a])" "prv lk' a = last (a # ys)"
    and "x \<in> set xs \<Longrightarrow> nxt lk' x = (if x = last xs then b else nxt lk x)"
    and "x \<in> set xs \<Longrightarrow> prv lk' x = (if x = hd xs then b else prv lk x)"
    and "y \<in> set ys \<Longrightarrow> nxt lk' y = (if y = last ys then a else nxt lk y)"
    and "y \<in> set ys \<Longrightarrow> prv lk' y = (if y = hd ys then a else prv lk y)"
    and "dom lk' = dom lk"
    and "c \<notin> insert a (set xs) \<union> insert b (set ys) \<Longrightarrow> lk' c = lk c"
proof -
  let ?r = "redirect lk a b"
  define l where "l = redirect ?r b a"
  have rb: "seq ?r b ys"
    using b seq_frame [of b ys ?r lk] redirect_frame [OF a, of _ b] disj by blast
  have anb: "a \<noteq> b" "a \<notin> set ys" "b \<notin> set xs" "a \<notin> set xs" "b \<notin> set ys"
    using disj a b by (auto dest: seq_distinct)
  have la: "l a = lk a" "l b = lk b"
    using anb by (simp_all add: l_def redirect_frame [OF rb] redirect_frame [OF a])
  have nl: "nxt l = (if ys = [] then nxt ?r else (nxt ?r)(last ys := a))"
    "prv l = (if ys = [] then prv ?r else (prv ?r)(hd ys := a))" "dom l = dom lk"
    by (simp_all add: l_def redirect_links [OF rb] redirect_links [OF a])
  obtain ea eb where e: "lk a = Some ea" "lk b = Some eb"
    using seq_ends(1) [OF a] seq_ends(1) [OF b] by blast
  have lk': "lk' c = (if c = a then Some (if ys = [] then \<lparr>lprev = a, lnext = a\<rparr> else eb)
      else if c = b then Some (if xs = [] then \<lparr>lprev = b, lnext = b\<rparr> else ea) else l c)" for c
    unfolding lk'_def swap_effect_def l_def [symmetric] Let_def
    using seq_ends(4) [OF a] seq_ends(4) [OF b] anb la e by (simp add: list2_init_def)
  have other: "nxt lk' c = nxt l c" "prv lk' c = prv l c" if "c \<noteq> a" "c \<noteq> b" for c
    using that by (simp_all add: nxt_def prv_def lk')
  have ea: "nxt lk a = lnext ea" "prv lk a = lprev ea" "nxt lk b = lnext eb" "prv lk b = lprev eb"
    using e by (simp_all add: nxt_def prv_def)
  show "nxt lk' b = hd (xs @ [b])" "prv lk' b = last (b # xs)"
    using ea seq_ends(2,3) [OF a] anb by (auto simp: nxt_def [of lk'] prv_def [of lk'] lk')
  show "nxt lk' a = hd (ys @ [a])" "prv lk' a = last (a # ys)"
    using ea seq_ends(2,3) [OF b] anb by (auto simp: nxt_def [of lk'] prv_def [of lk'] lk')
  show "nxt lk' x = (if x = last xs then b else nxt lk x)"
    "prv lk' x = (if x = hd xs then b else prv lk x)" if "x \<in> set xs"
  proof -
    have "x \<noteq> a" "x \<noteq> b" "xs \<noteq> []" "ys \<noteq> [] \<Longrightarrow> x \<noteq> hd ys \<and> x \<noteq> last ys"
      using that anb disj by auto
    then show "nxt lk' x = (if x = last xs then b else nxt lk x)"
      "prv lk' x = (if x = hd xs then b else prv lk x)"
      by (auto simp: other nl redirect_links [OF a])
  qed
  show "nxt lk' y = (if y = last ys then a else nxt lk y)"
    "prv lk' y = (if y = hd ys then a else prv lk y)" if "y \<in> set ys"
  proof -
    have "y \<notin> set xs" "y \<noteq> a" "y \<noteq> b" "ys \<noteq> []" using that anb disj by auto
    moreover from this have "xs \<noteq> [] \<Longrightarrow> y \<noteq> hd xs \<and> y \<noteq> last xs"
      by (metis hd_in_set last_in_set)
    ultimately show "nxt lk' y = (if y = last ys then a else nxt lk y)"
      "prv lk' y = (if y = hd ys then a else prv lk y)"
      by (auto simp: other nl redirect_links [OF a])
  qed
  show "dom lk' = dom lk"
    using nl(3) e by (auto simp: dom_def lk' split: if_splits)
  show "lk' c = lk c" if "c \<notin> insert a (set xs) \<union> insert b (set ys)"
    using that by (simp add: lk' l_def redirect_frame [OF rb] redirect_frame [OF a])
qed

lemma seq_swap:
  assumes "seq lk a xs" "seq lk b ys" "insert a (set xs) \<inter> insert b (set ys) = {}"
  obtains lk' where "list2_swap lk a b = Some lk'" "seq lk' a ys" "seq lk' b xs"
    "same_off (insert a (set xs) \<union> insert b (set ys)) lk lk'" "dom lk' = dom lk"
proof (rule that)
  note sw = swap_effect_links [OF assms]
  have d: "insert a (set xs) \<subseteq> dom lk" "insert b (set ys) \<subseteq> dom lk" "a \<noteq> NULL" "b \<noteq> NULL"
    using seq_dom [OF assms(1)] seq_dom [OF assms(2)] seq_not_null [OF assms(1)] seq_not_null [OF assms(2)]
    by auto
  show "list2_swap lk a b = Some (swap_effect lk a b)" by (rule list2_swap_effect [OF assms])
  show "seq (swap_effect lk a b) a ys"
    by (rule seq_rehead [OF assms(2) _ _ d(3) _ sw(3,4,7,8)]) (use d assms(3) sw(9) in blast)+
  show "seq (swap_effect lk a b) b xs"
    by (rule seq_rehead [OF assms(1) _ _ d(4) _ sw(1,2,5,6)]) (use d assms(3) sw(9) in blast)+
  show "dom (swap_effect lk a b) = dom lk" by (rule sw(9))
  show "same_off (insert a (set xs) \<union> insert b (set ys)) lk (swap_effect lk a b)"
    by (rule same_offI) (rule sw(10))
qed

section \<open>The contract the clients use\<close>

text \<open>
  A list of elements with a sequence abstraction.  Clients keep queues: they append at the end, remove
  the first element, and remove an element they hold.
\<close>

locale link_list =
  fixes lseq :: "'s \<Rightarrow> addr \<Rightarrow> addr list \<Rightarrow> bool"
    and free_elem :: "'s \<Rightarrow> addr \<Rightarrow> bool"
    and first :: "'s \<Rightarrow> addr \<Rightarrow> addr option"
    and insert_before :: "'s \<Rightarrow> addr \<Rightarrow> addr \<Rightarrow> (addr \<times> 's) option"
    and erase :: "'s \<Rightarrow> addr \<Rightarrow> (addr \<times> 's) option"
    and splice :: "'s \<Rightarrow> addr \<Rightarrow> addr \<Rightarrow> addr \<Rightarrow> (addr \<times> 's) option"
  assumes lseq_distinct: "lseq s l xs \<Longrightarrow> distinct xs \<and> l \<notin> set xs"
    and first_law: "lseq s l xs \<Longrightarrow> first s l = Some (hd (xs @ [l]))"
    and insert_law: "lseq s l (xs @ ys) \<Longrightarrow> free_elem s e \<Longrightarrow> e \<notin> insert l (set (xs @ ys)) \<Longrightarrow>
      \<exists>s'. insert_before s (hd (ys @ [l])) e = Some (e, s') \<and> lseq s' l (xs @ e # ys) \<and>
        (\<forall>m zs. lseq s m zs \<longrightarrow> insert m (set zs) \<inter> insert e (insert l (set (xs @ ys))) = {} \<longrightarrow>
           lseq s' m zs) \<and>
        (\<forall>d. free_elem s d \<longrightarrow> d \<notin> insert e (insert l (set (xs @ ys))) \<longrightarrow> free_elem s' d)"
    and erase_law: "lseq s l (xs @ x # ys) \<Longrightarrow>
      \<exists>s'. erase s x = Some (hd (ys @ [l]), s') \<and> lseq s' l (xs @ ys) \<and> free_elem s' x"
    and splice_law: "lseq s l (xs @ ys) \<Longrightarrow> lseq s m (us @ vs @ ws) \<Longrightarrow>
      insert l (set (xs @ ys)) \<inter> insert m (set (us @ vs @ ws)) = {} \<Longrightarrow>
      \<exists>s'. splice s (hd (ys @ [l])) (hd (vs @ ws @ [m])) (hd (ws @ [m])) = Some (hd (ys @ [l]), s') \<and>
        lseq s' l (xs @ vs @ ys) \<and> lseq s' m (us @ ws)"
begin

fun push_all :: "'s \<Rightarrow> addr \<Rightarrow> addr list \<Rightarrow> 's option" where
  "push_all s l [] = Some s"
| "push_all s l (e # es) = do { (_, s) \<leftarrow> insert_before s l e; push_all s l es }"

fun pop_all :: "'s \<Rightarrow> addr \<Rightarrow> nat \<Rightarrow> (addr list \<times> 's) option" where
  "pop_all s l 0 = Some ([], s)"
| "pop_all s l (Suc n) = do {
     e \<leftarrow> first s l;
     (_, s) \<leftarrow> erase s e;
     (es, s) \<leftarrow> pop_all s l n;
     Some (e # es, s)
   }"

lemma push_back:
  assumes "lseq s l xs" "free_elem s e" "e \<notin> insert l (set xs)"
  shows "\<exists>s'. insert_before s l e = Some (e, s') \<and> lseq s' l (xs @ [e]) \<and>
    (\<forall>d. free_elem s d \<longrightarrow> d \<notin> insert e (insert l (set xs)) \<longrightarrow> free_elem s' d)"
  using insert_law [of s l xs "[]" e] assms by auto

lemma pop_front:
  assumes "lseq s l (x # xs)"
  shows "\<exists>s'. first s l = Some x \<and> erase s x = Some (hd (xs @ [l]), s') \<and> lseq s' l xs \<and> free_elem s' x"
  using first_law [OF assms] erase_law [of s l "[]" x xs] assms by auto

lemma push_all_seq:
  "lseq s l xs \<Longrightarrow> distinct es \<Longrightarrow> set es \<inter> insert l (set xs) = {} \<Longrightarrow> \<forall>e\<in>set es. free_elem s e \<Longrightarrow>
   \<exists>s'. push_all s l es = Some s' \<and> lseq s' l (xs @ es)"
proof (induction es arbitrary: s xs)
  case (Cons e es)
  then obtain s' where s': "insert_before s l e = Some (e, s')" "lseq s' l (xs @ [e])"
    "\<forall>d. free_elem s d \<longrightarrow> d \<notin> insert e (insert l (set xs)) \<longrightarrow> free_elem s' d"
    using push_back [of s l xs e] by auto
  have "\<exists>s''. push_all s' l es = Some s'' \<and> lseq s'' l ((xs @ [e]) @ es)"
    by (rule Cons.IH) (use Cons.prems s' in auto)
  with s' show ?case by auto
qed auto

lemma pop_all_seq:
  "lseq s l (xs @ ys) \<Longrightarrow> \<exists>s'. pop_all s l (length xs) = Some (xs, s') \<and> lseq s' l ys"
proof (induction xs arbitrary: s)
  case (Cons x xs)
  then obtain s' where s': "first s l = Some x" "erase s x = Some (hd ((xs @ ys) @ [l]), s')" "lseq s' l (xs @ ys)"
    using pop_front [of s l x "xs @ ys"] by auto
  from Cons.IH [OF this(3)] s' show ?case by auto
qed auto

lemma fifo:
  assumes "lseq s l []" "distinct es" "l \<notin> set es" "\<forall>e\<in>set es. free_elem s e"
  shows "\<exists>s' s''. push_all s l es = Some s' \<and> pop_all s' l (length es) = Some (es, s'') \<and> lseq s'' l []"
proof -
  from push_all_seq [of s l "[]" es] assms obtain s' where s': "push_all s l es = Some s'" "lseq s' l (es @ [])"
    by auto
  with pop_all_seq [OF this(2)] show ?thesis by auto
qed

lemma move_all:
  assumes "lseq s l xs" "lseq s m ys" "insert l (set xs) \<inter> insert m (set ys) = {}"
  shows "\<exists>s'. splice s l (hd (ys @ [m])) m = Some (l, s') \<and> lseq s' l (xs @ ys) \<and> lseq s' m []"
  using splice_law [of s l xs "[]" m "[]" ys "[]"] assms by auto

end

interpretation l2: link_list seq detached list2_begin list2_insert list2_erase list2_insert_list
proof
  show "distinct xs \<and> l \<notin> set xs" if "seq lk l xs" for lk l xs
    using that by (rule seq_distinct)
  show "list2_begin lk l = Some (hd (xs @ [l]))" if "seq lk l xs" for lk l xs
    using that by (rule seq_begin)
next
  fix lk l xs ys e
  assume "seq lk l (xs @ ys)" "detached lk e" "e \<notin> insert l (set (xs @ ys))"
  then obtain lk' where lk': "list2_insert lk (hd (ys @ [l])) e = Some (e, lk')"
    "seq lk' l (xs @ e # ys)" and fr: "same_off (insert e (insert l (set (xs @ ys)))) lk lk'"
    by (rule seq_insert)
  have "seq lk' m zs" if "seq lk m zs" "insert m (set zs) \<inter> insert e (insert l (set (xs @ ys))) = {}" for m zs
    using seq_frame [of m zs lk' lk] same_offD [OF fr] that by blast
  moreover have "detached lk' d" if "detached lk d" "d \<notin> insert e (insert l (set (xs @ ys)))" for d
    using same_offD [OF fr that(2)] that(1) by (simp add: detached_def)
  ultimately show "\<exists>s'. list2_insert lk (hd (ys @ [l])) e = Some (e, s') \<and> seq s' l (xs @ e # ys) \<and>
      (\<forall>m zs. seq lk m zs \<longrightarrow> insert m (set zs) \<inter> insert e (insert l (set (xs @ ys))) = {} \<longrightarrow> seq s' m zs) \<and>
      (\<forall>d. detached lk d \<longrightarrow> d \<notin> insert e (insert l (set (xs @ ys))) \<longrightarrow> detached s' d)"
    using lk' by blast
next
  fix lk l xs x ys
  assume "seq lk l (xs @ x # ys)"
  then obtain lk' where "list2_erase lk x = Some (hd (ys @ [l]), lk')"
    "seq lk' l (xs @ ys)" "detached lk' x"
    by (rule seq_erase)
  then show "\<exists>s'. list2_erase lk x = Some (hd (ys @ [l]), s') \<and> seq s' l (xs @ ys) \<and> detached s' x"
    by blast
next
  fix lk l xs ys m us vs ws
  assume "seq lk l (xs @ ys)" "seq lk m (us @ vs @ ws)"
    "insert l (set (xs @ ys)) \<inter> insert m (set (us @ vs @ ws)) = {}"
  then obtain lk' where
    "list2_insert_list lk (hd (ys @ [l])) (hd (vs @ ws @ [m])) (hd (ws @ [m])) = Some (hd (ys @ [l]), lk')"
    "seq lk' l (xs @ vs @ ys)" "seq lk' m (us @ ws)"
    by (rule seq_splice)
  then show "\<exists>s'. list2_insert_list lk (hd (ys @ [l])) (hd (vs @ ws @ [m])) (hd (ws @ [m])) =
      Some (hd (ys @ [l]), s') \<and> seq s' l (xs @ vs @ ys) \<and> seq s' m (us @ ws)"
    by blast
qed

section \<open>Properties\<close>

text \<open>A list of two elements and a free element, for the witnesses.\<close>

definition sample_links :: links where
  "sample_links = Map.empty(
     1 \<mapsto> \<lparr>lprev = 3, lnext = 2\<rparr>, 2 \<mapsto> \<lparr>lprev = 1, lnext = 3\<rparr>, 3 \<mapsto> \<lparr>lprev = 2, lnext = 1\<rparr>,
     4 \<mapsto> \<lparr>lprev = 0, lnext = 0\<rparr>,
     5 \<mapsto> \<lparr>lprev = 6, lnext = 6\<rparr>, 6 \<mapsto> \<lparr>lprev = 5, lnext = 5\<rparr>)"

lemma sample_links_seqs:
  "seq sample_links 1 ([2] @ [3])" "seq sample_links 5 [6]" "detached sample_links 4"
  by (simp_all add: seq_def circ_def nxt_def prv_def detached_def sample_links_def)

text \<open>C8.  Inserting a free element before a position of a list puts it there and nowhere else: the
  list is the old sequence with the element at that position, every link outside the list and the
  element is unchanged, and erasing the element gives the old sequence back and frees the element.\<close>

theorem list2_insert_erase:
  assumes "seq lk l (xs @ ys)" "detached lk e" "e \<notin> insert l (set (xs @ ys))"
  shows "\<exists>lk' lk''. list2_insert lk (hd (ys @ [l])) e = Some (e, lk') \<and> seq lk' l (xs @ e # ys) \<and>
    same_off (insert e (insert l (set (xs @ ys)))) lk lk' \<and>
    list2_erase lk' e = Some (hd (ys @ [l]), lk'') \<and> seq lk'' l (xs @ ys) \<and> detached lk'' e"
proof -
  obtain lk' where 1: "list2_insert lk (hd (ys @ [l])) e = Some (e, lk')" "seq lk' l (xs @ e # ys)"
    "same_off (insert e (insert l (set (xs @ ys)))) lk lk'"
    using assms by (rule seq_insert)
  obtain lk'' where "list2_erase lk' e = Some (hd (ys @ [l]), lk'')" "seq lk'' l (xs @ ys)" "detached lk'' e"
    using 1(2) by (rule seq_erase)
  with 1 show ?thesis by blast
qed

theorem list2_insert_erase_witness:
  "\<exists>lk' lk''. list2_insert sample_links 3 4 = Some (4, lk') \<and> seq lk' 1 [2, 4, 3] \<and>
     same_off {4, 1, 2, 3} sample_links lk' \<and>
     list2_erase lk' 4 = Some (3, lk'') \<and> seq lk'' 1 [2, 3] \<and> detached lk'' 4"
  using list2_insert_erase [OF sample_links_seqs(1,3)] by simp

text \<open>C12.  Moving a range \<open>vs\<close> of one list in front of a position of another list gives the two
  lists with the range removed from the first and inserted in the second, in the same order, and
  changes no link outside the two lists.\<close>

theorem list2_insert_list_moves:
  assumes "seq lk l (xs @ ys)" "seq lk m (us @ vs @ ws)"
    and "insert l (set (xs @ ys)) \<inter> insert m (set (us @ vs @ ws)) = {}"
  shows "\<exists>lk'. list2_insert_list lk (hd (ys @ [l])) (hd (vs @ ws @ [m])) (hd (ws @ [m])) =
      Some (hd (ys @ [l]), lk') \<and> seq lk' l (xs @ vs @ ys) \<and> seq lk' m (us @ ws) \<and>
    same_off (insert l (set (xs @ ys)) \<union> insert m (set (us @ vs @ ws))) lk lk'"
proof -
  obtain lk' where "list2_insert_list lk (hd (ys @ [l])) (hd (vs @ ws @ [m])) (hd (ws @ [m])) =
      Some (hd (ys @ [l]), lk')" "seq lk' l (xs @ vs @ ys)" "seq lk' m (us @ ws)"
    "same_off (insert l (set (xs @ ys)) \<union> insert m (set (us @ vs @ ws))) lk lk'"
    using assms by (rule seq_splice)
  then show ?thesis by blast
qed

theorem list2_insert_list_moves_witness:
  "\<exists>lk'. list2_insert_list sample_links 3 6 5 = Some (3, lk') \<and> seq lk' 1 [2, 6, 3] \<and> seq lk' 5 []"
  using list2_insert_list_moves [OF sample_links_seqs(1), of 5 "[]" "[6]" "[]"] sample_links_seqs(2)
  by auto

text \<open>C13.  Swapping two lists exchanges their sequences, whichever of them is empty, and changes no
  link outside the two lists.\<close>

theorem list2_swap_exchanges:
  assumes "seq lk a xs" "seq lk b ys" "insert a (set xs) \<inter> insert b (set ys) = {}"
  shows "\<exists>lk'. list2_swap lk a b = Some lk' \<and> seq lk' a ys \<and> seq lk' b xs \<and>
    same_off (insert a (set xs) \<union> insert b (set ys)) lk lk'"
proof -
  obtain lk' where "list2_swap lk a b = Some lk'" "seq lk' a ys" "seq lk' b xs"
    "same_off (insert a (set xs) \<union> insert b (set ys)) lk lk'"
    using assms by (rule seq_swap)
  then show ?thesis by blast
qed

theorem list2_swap_exchanges_witness:
  "\<exists>lk'. list2_swap sample_links 1 5 = Some lk' \<and> seq lk' 1 [6] \<and> seq lk' 5 [2, 3]"
  using list2_swap_exchanges [of sample_links 1 "[2, 3]" 5 "[6]"] sample_links_seqs by auto

end
