(* ===== verification/Error_Context.thy ===== *)
theory Error_Context
  imports Haka_Prelude
begin

text \<open>
  The error context of \<open>lib/haka/error.c\<close>: a thread-local record that keeps the first error
  raised until it is cleared.  The record is created by the first function that asks for it.
  \<open>errno_message\<close> is a scratch buffer of \<open>errno_error\<close> and is not part of the model.  The
  message is the formatted text; \<open>vsnprintf\<close> keeps at most \<open>HAKA_ERROR_SIZE - 1\<close>
  characters of it.
\<close>

record local_error =
  is_error :: bool
  error_message :: string

record error_state =
  local_error_slot :: "local_error option"
  error_is_valid :: bool

definition HAKA_ERROR_SIZE :: nat where
  "HAKA_ERROR_SIZE = 3072"

definition error_init :: error_state where
  "error_init = \<lparr>local_error_slot = None, error_is_valid = True\<rparr>"

definition error_fini :: "error_state \<Rightarrow> error_state" where
  "error_fini s = s\<lparr>local_error_slot := None, error_is_valid := False\<rparr>"

definition error_context :: "error_state \<Rightarrow> local_error \<times> error_state" where
  "error_context s =
     (case local_error_slot s of
        Some c \<Rightarrow> (c, s)
      | None \<Rightarrow> (let c = \<lparr>is_error = False, error_message = []\<rparr>
                 in (c, s\<lparr>local_error_slot := Some c\<rparr>)))"

definition error :: "string \<Rightarrow> error_state \<Rightarrow> error_state" where
  "error msg s =
     (if error_is_valid s then
        (let (c, s) = error_context s
         in if \<not> is_error c
            then s\<lparr>local_error_slot :=
                     Some \<lparr>is_error = True, error_message = take (HAKA_ERROR_SIZE - 1) msg\<rparr>\<rparr>
            else s)
      else s)"

definition check_error :: "error_state \<Rightarrow> bool \<times> error_state" where
  "check_error s =
     (if error_is_valid s then
        (let (c, s) = error_context s in (is_error c, s))
      else (False, s))"

definition clear_error :: "error_state \<Rightarrow> string option \<times> error_state" where
  "clear_error s =
     (if error_is_valid s then
        (let (c, s) = error_context s
         in if is_error c
            then (Some (error_message c), s\<lparr>local_error_slot := Some (c\<lparr>is_error := False\<rparr>)\<rparr>)
            else (None, s))
      else (None, s))"

text \<open>The pending error: the message \<open>clear_error\<close> would return.\<close>

definition pending :: "error_state \<Rightarrow> string option" where
  "pending s =
     (if error_is_valid s then
        (case local_error_slot s of
           Some c \<Rightarrow> if is_error c then Some (error_message c) else None
         | None \<Rightarrow> None)
      else None)"

lemmas error_defs =
  error_def error_context_def check_error_def clear_error_def pending_def

lemma error_is_valid_ops [simp]:
  "error_is_valid (error msg s) = error_is_valid s"
  "error_is_valid (snd (check_error s)) = error_is_valid s"
  "error_is_valid (snd (clear_error s)) = error_is_valid s"
  by (auto simp: error_defs Let_def split: option.splits)

lemma pending_error:
  "error_is_valid s \<Longrightarrow>
   pending (error msg s) =
     (case pending s of None \<Rightarrow> Some (take (HAKA_ERROR_SIZE - 1) msg) | Some m \<Rightarrow> Some m)"
  by (auto simp: error_defs Let_def split: option.splits)

lemma check_error_pending: "fst (check_error s) \<longleftrightarrow> pending s \<noteq> None"
  by (auto simp: error_defs Let_def split: option.splits)

lemma pending_check_error [simp]: "pending (snd (check_error s)) = pending s"
  by (auto simp: error_defs Let_def split: option.splits)

lemma clear_error_pending: "fst (clear_error s) = pending s"
  by (auto simp: error_defs Let_def split: option.splits)

lemma pending_clear_error [simp]: "pending (snd (clear_error s)) = None"
  by (auto simp: error_defs Let_def split: option.splits)

fun raise_errors :: "string list \<Rightarrow> error_state \<Rightarrow> error_state" where
  "raise_errors [] s = s"
| "raise_errors (m # ms) s = raise_errors ms (error m s)"

lemma raise_errors_valid [simp]: "error_is_valid (raise_errors ms s) = error_is_valid s"
  by (induction ms arbitrary: s) auto

lemma raise_errors_keep:
  "error_is_valid s \<Longrightarrow> pending s = Some m \<Longrightarrow> pending (raise_errors ms s) = Some m"
  by (induction ms arbitrary: s) (auto simp: pending_error)

text \<open>C14.  The first error wins: when no error is pending, the message of the first of any number of
  errors raised in a row (cut to the size of the message buffer) is what \<open>clear_error\<close> returns, the
  context reports an error until then and none afterwards.\<close>

theorem first_error_kept:
  assumes "error_is_valid s" "pending s = None"
  shows "let s' = raise_errors (m # ms) s in
    fst (check_error s') \<and> fst (clear_error s') = Some (take (HAKA_ERROR_SIZE - 1) m) \<and>
    \<not> fst (check_error (snd (clear_error s')))"
proof -
  have "pending (error m s) = Some (take (HAKA_ERROR_SIZE - 1) m)"
    using assms by (simp add: pending_error)
  then have "pending (raise_errors (m # ms) s) = Some (take (HAKA_ERROR_SIZE - 1) m)"
    using assms by (simp add: raise_errors_keep)
  then show ?thesis by (simp add: Let_def check_error_pending clear_error_pending del: raise_errors.simps)
qed

theorem first_error_kept_witness:
  "fst (clear_error (raise_errors [''a'', ''b''] error_init)) = Some ''a''"
  using first_error_kept [of error_init "''a''" "[''b'']"]
  by (simp add: error_init_def pending_def HAKA_ERROR_SIZE_def Let_def)

end
