(* ===== verification/VBuffer_Data.thy ===== *)
theory VBuffer_Data
  imports List2 Error_Context
begin

text \<open>
  The heap of the virtual buffers and the data blocks of \<open>lib/haka/vbuffer_data.c\<close>.

  A \<open>vheap\<close> holds the chunks (\<open>struct vbuffer_chunk\<close> of \<open>lib/haka/vbuffer.h\<close>), the list
  links embedded in them (kept apart, at the address of the chunk), the data blocks, and the error
  context of the thread.  \<open>malloc\<close> hands out fresh addresses and fails when the \<open>budget\<close> of
  successful allocations is used up, so that every branch on a failed allocation is covered; the bytes
  of a block that is not cleared are \<open>junk\<close>.  \<open>free\<close> removes the object, so that any later
  access to it is a fault.

  The function table \<open>struct vbuffer_data_ops\<close> of a block is the constructor of its
  \<open>data_kind\<close>; the tables implemented by the packet capture modules are not part of the model.
\<close>

section \<open>Objects\<close>

record chunk_flags =
  f_end :: bool
  f_eof :: bool
  f_modified :: bool
  f_writable :: bool
  f_ctl :: bool

record vbuffer_chunk =
  cref :: int
  cflags :: chunk_flags
  cdata :: addr
  coffset :: nat
  csize :: nat

datatype data_kind =
    Data_basic "u8 list"
  | Data_ctl_select
  | Data_ctl_push addr addr
  | Data_ctl_mark bool

record vbuffer_data =
  dref :: int
  dkind :: data_kind

record vheap =
  links :: links
  chunks :: "addr \<rightharpoonup> vbuffer_chunk"
  datas :: "addr \<rightharpoonup> vbuffer_data"
  errs :: error_state
  fresh :: addr
  budget :: nat
  junk :: "nat \<Rightarrow> u8"

text \<open>A pointer into a data block: the block and the byte offset; \<open>(NULL, 0)\<close> is null.\<close>

type_synonym bptr = "addr \<times> nat"

abbreviation NULL_ptr :: bptr where
  "NULL_ptr \<equiv> (0, 0)"

definition ptr_add :: "bptr \<Rightarrow> nat \<Rightarrow> bptr" where
  "ptr_add p n = (fst p, snd p + n)"

section \<open>Memory\<close>

definition malloc :: "vheap \<Rightarrow> addr \<times> vheap" where
  "malloc h =
     (if budget h = 0 then (NULL, h)
      else (fresh h, h\<lparr>fresh := Suc (fresh h), budget := budget h - 1\<rparr>))"

definition raise_error :: "vheap \<Rightarrow> string \<Rightarrow> vheap" where
  "raise_error h msg = h\<lparr>errs := error msg (errs h)\<rparr>"

definition has_error :: "vheap \<Rightarrow> bool \<times> vheap" where
  "has_error h = (let (r, e) = check_error (errs h) in (r, h\<lparr>errs := e\<rparr>))"

definition upd_chunk :: "vheap \<Rightarrow> addr \<Rightarrow> (vbuffer_chunk \<Rightarrow> vbuffer_chunk) \<Rightarrow> vheap option" where
  "upd_chunk h c f = do { x \<leftarrow> chunks h c; Some (h\<lparr>chunks := (chunks h)(c \<mapsto> f x)\<rparr>) }"

definition upd_data :: "vheap \<Rightarrow> addr \<Rightarrow> (vbuffer_data \<Rightarrow> vbuffer_data) \<Rightarrow> vheap option" where
  "upd_data h d f = do { x \<leftarrow> datas h d; Some (h\<lparr>datas := (datas h)(d \<mapsto> f x)\<rparr>) }"

definition free_chunk :: "vheap \<Rightarrow> addr \<Rightarrow> vheap" where
  "free_chunk h c = h\<lparr>chunks := (chunks h)(c := None), links := (links h)(c := None)\<rparr>"

definition free_data :: "vheap \<Rightarrow> addr \<Rightarrow> vheap" where
  "free_data h d = h\<lparr>datas := (datas h)(d := None)\<rparr>"

definition with_links :: "vheap \<Rightarrow> ('a \<times> links) option \<Rightarrow> ('a \<times> vheap) option" where
  "with_links h r = do { (a, lk) \<leftarrow> r; Some (a, h\<lparr>links := lk\<rparr>) }"

text \<open>Byte access through a pointer; anything outside a basic block is a fault.\<close>

definition block :: "vheap \<Rightarrow> addr \<Rightarrow> u8 list option" where
  "block h d = (case datas h d of
      Some x \<Rightarrow> (case dkind x of Data_basic bs \<Rightarrow> Some bs | _ \<Rightarrow> None)
    | None \<Rightarrow> None)"

definition load :: "vheap \<Rightarrow> bptr \<Rightarrow> nat \<Rightarrow> u8 list option" where
  "load h p n = do {
     bs \<leftarrow> block h (fst p);
     assert_that (snd p + n \<le> length bs);
     Some (take n (drop (snd p) bs))
   }"

definition store :: "vheap \<Rightarrow> bptr \<Rightarrow> u8 list \<Rightarrow> vheap option" where
  "store h p vs = do {
     bs \<leftarrow> block h (fst p);
     assert_that (snd p + length vs \<le> length bs);
     upd_data h (fst p)
       (\<lambda>x. x\<lparr>dkind := Data_basic (take (snd p) bs @ vs @ drop (snd p + length vs) bs)\<rparr>)
   }"

section \<open>Operations of the data blocks\<close>

definition data_ops_free :: "vheap \<Rightarrow> addr \<Rightarrow> vheap option" where
  "data_ops_free h d = do { _ \<leftarrow> datas h d; Some (free_data h d) }"

definition data_ops_addref :: "vheap \<Rightarrow> addr \<Rightarrow> vheap option" where
  "data_ops_addref h d = upd_data h d (\<lambda>x. x\<lparr>dref := dref x + 1\<rparr>)"

definition data_ops_release :: "vheap \<Rightarrow> addr \<Rightarrow> (bool \<times> vheap) option" where
  "data_ops_release h d = do {
     x \<leftarrow> datas h d;
     h \<leftarrow> upd_data h d (\<lambda>x. x\<lparr>dref := dref x - 1\<rparr>);
     Some (dref x - 1 = 0, h)
   }"

definition data_ops_get :: "vheap \<Rightarrow> addr \<Rightarrow> bool \<Rightarrow> bptr option" where
  "data_ops_get h d write = do {
     x \<leftarrow> datas h d;
     Some (case dkind x of Data_basic bs \<Rightarrow> (d, 0) | _ \<Rightarrow> NULL_ptr)
   }"

definition vbuffer_data_release :: "vheap \<Rightarrow> addr \<Rightarrow> vheap option" where
  "vbuffer_data_release h data =
     (if data = NULL then Some h
      else do {
        (freed, h) \<leftarrow> data_ops_release h data;
        if freed then data_ops_free h data else Some h
      })"

definition sizeof_vbuffer_data_basic :: nat where
  "sizeof_vbuffer_data_basic = 24"

definition vbuffer_data_basic :: "vheap \<Rightarrow> nat \<Rightarrow> bool \<Rightarrow> (addr \<times> vheap) option" where
  "vbuffer_data_basic h sz zero = do {
     assert_that (sizeof_vbuffer_data_basic + sz < 2 ^ 64);
     let (buf, h) = malloc h;
     if buf = NULL then Some (NULL, raise_error h ''memory error'')
     else Some (buf, h\<lparr>datas := (datas h)(buf \<mapsto>
            \<lparr>dref = 0,
             dkind = Data_basic (if zero then replicate sz 0 else map (junk h) [0..<sz])\<rparr>)\<rparr>)
   }"

definition new_ctl :: "vheap \<Rightarrow> data_kind \<Rightarrow> addr \<times> vheap" where
  "new_ctl h k =
     (let (buf, h) = malloc h
      in if buf = NULL then (NULL, raise_error h ''memory error'')
         else (buf, h\<lparr>datas := (datas h)(buf \<mapsto> \<lparr>dref = 0, dkind = k\<rparr>)\<rparr>))"

definition vbuffer_data_ctl_select :: "vheap \<Rightarrow> addr \<times> vheap" where
  "vbuffer_data_ctl_select h = new_ctl h Data_ctl_select"

definition vbuffer_data_ctl_push :: "vheap \<Rightarrow> addr \<Rightarrow> addr \<Rightarrow> addr \<times> vheap" where
  "vbuffer_data_ctl_push h stream chunk = new_ctl h (Data_ctl_push stream chunk)"

definition vbuffer_data_ctl_mark :: "vheap \<Rightarrow> bool \<Rightarrow> addr \<times> vheap" where
  "vbuffer_data_ctl_mark h readonly = new_ctl h (Data_ctl_mark readonly)"

definition is_ctl_select :: "vheap \<Rightarrow> addr \<Rightarrow> bool option" where
  "is_ctl_select h d =
     (if d = NULL then Some False else do { x \<leftarrow> datas h d; Some (dkind x = Data_ctl_select) })"

definition is_ctl_mark :: "vheap \<Rightarrow> addr \<Rightarrow> bool option" where
  "is_ctl_mark h d =
     (if d = NULL then Some False
      else do { x \<leftarrow> datas h d; Some (case dkind x of Data_ctl_mark _ \<Rightarrow> True | _ \<Rightarrow> False) })"

definition as_ctl_push :: "vheap \<Rightarrow> addr \<Rightarrow> (addr \<times> addr) option option" where
  "as_ctl_push h d =
     (if d = NULL then Some None
      else do { x \<leftarrow> datas h d; Some (case dkind x of Data_ctl_push s c \<Rightarrow> Some (s, c) | _ \<Rightarrow> None) })"

end
