(* ===== verification/VBuffer_Chunk.thy ===== *)
theory VBuffer_Chunk
  imports VBuffer_Data
begin

text \<open>
  Chunks and buffers: the first part of \<open>lib/haka/vbuffer.c\<close>.

  A buffer (\<open>struct vbuffer\<close>) is the address of its end chunk, null when it is not valid; the
  chunks of the buffer are the other elements of the list the end chunk closes.  A function that
  writes to a buffer the caller passes by address takes the old value and returns the new one.  The
  Lua object embedded in the structure is not part of the model, so \<open>vbuffer_release\<close> is
  \<open>vbuffer_clear\<close>.

  The second half of the theory gives the abstraction used by all later theories: \<open>vbuf h b cs\<close>
  says that buffer \<open>b\<close> is the sequence of chunks \<open>cs\<close>, and \<open>content h cs\<close> is the sequence
  of bytes it denotes.
\<close>

section \<open>Chunks\<close>

definition vbuffer_chunk_addref :: "vheap \<Rightarrow> addr \<Rightarrow> vheap option" where
  "vbuffer_chunk_addref h c = upd_chunk h c (\<lambda>x. x\<lparr>cref := cref x + 1\<rparr>)"

definition vbuffer_chunk_release :: "vheap \<Rightarrow> addr \<Rightarrow> vheap option" where
  "vbuffer_chunk_release h c = do {
     x \<leftarrow> chunks h c;
     h \<leftarrow> upd_chunk h c (\<lambda>x. x\<lparr>cref := cref x - 1\<rparr>);
     if cref x - 1 = 0 then do {
       assert_that (cdata x = NULL);
       inlist \<leftarrow> list2_elem_check (links h) c;
       assert_that (\<not> inlist);
       Some (free_chunk h c)
     } else Some h
   }"

definition vbuffer_chunk_clear :: "vheap \<Rightarrow> addr \<Rightarrow> vheap option" where
  "vbuffer_chunk_clear h c = do {
     e \<leftarrow> links h c;
     h \<leftarrow> (if lnext e \<noteq> NULL then do {
             assert_that (lprev e \<noteq> NULL);
             (_, h) \<leftarrow> with_links h (list2_erase (links h) c);
             Some h
           } else Some h);
     x \<leftarrow> chunks h c;
     h \<leftarrow> vbuffer_data_release h (cdata x);
     h \<leftarrow> upd_chunk h c (\<lambda>x. x\<lparr>cdata := NULL\<rparr>);
     vbuffer_chunk_release h c
   }"

definition new_chunk :: "vheap \<Rightarrow> addr \<Rightarrow> vbuffer_chunk \<Rightarrow> vheap" where
  "new_chunk h c x = h\<lparr>chunks := (chunks h)(c \<mapsto> x), links := list2_elem_init (links h) c\<rparr>"

definition vbuffer_chunk_create_end :: "vheap \<Rightarrow> bool \<Rightarrow> (addr \<times> vheap) option" where
  "vbuffer_chunk_create_end h writable =
     (let (c, h) = malloc h
      in if c = NULL then Some (NULL, raise_error h ''memory error'')
         else do {
           let h = new_chunk h c
             \<lparr>cref = 0,
              cflags = \<lparr>f_end = True, f_eof = True, f_modified = False, f_writable = writable, f_ctl = True\<rparr>,
              cdata = NULL, coffset = 0, csize = 0\<rparr>;
           h \<leftarrow> vbuffer_chunk_addref h c;
           Some (c, h\<lparr>links := list2_init (links h) c\<rparr>)
         })"

definition vbuffer_chunk_create :: "vheap \<Rightarrow> addr \<Rightarrow> nat \<Rightarrow> nat \<Rightarrow> (addr \<times> vheap) option" where
  "vbuffer_chunk_create h data offset len =
     (let (c, h) = malloc h
      in if c = NULL then do {
           h \<leftarrow> (if data \<noteq> NULL then data_ops_free h data else Some h);
           Some (NULL, raise_error h ''memory error'')
         } else do {
           let h = new_chunk h c
             \<lparr>cref = 0,
              cflags = \<lparr>f_end = False, f_eof = False, f_modified = False, f_writable = True, f_ctl = False\<rparr>,
              cdata = data, coffset = to_u32 offset, csize = to_u32 len\<rparr>;
           h \<leftarrow> (if data \<noteq> NULL then data_ops_addref h data else Some h);
           h \<leftarrow> vbuffer_chunk_addref h c;
           Some (c, h)
         })"

definition vbuffer_chunk_clone :: "vheap \<Rightarrow> addr \<Rightarrow> (addr \<times> vheap) option" where
  "vbuffer_chunk_clone h chunk = do {
     x \<leftarrow> chunks h chunk;
     (c, h) \<leftarrow> vbuffer_chunk_create h (cdata x) (coffset x) (csize x);
     if c = NULL then Some (NULL, h)
     else do {
       h \<leftarrow> upd_chunk h c (\<lambda>y. y\<lparr>cflags := cflags x\<rparr>);
       Some (c, h)
     }
   }"

definition vbuffer_chunk_insert_ctl :: "vheap \<Rightarrow> addr \<Rightarrow> addr \<Rightarrow> (addr \<times> vheap) option" where
  "vbuffer_chunk_insert_ctl h ins data = do {
     assert_that (data \<noteq> NULL);
     assert_that (ins \<noteq> NULL);
     let (c, h) = malloc h;
     if c = NULL then do {
       h \<leftarrow> data_ops_free h data;
       Some (NULL, raise_error h ''memory error'')
     } else do {
       x \<leftarrow> chunks h ins;
       let h = new_chunk h c
         \<lparr>cref = 0,
          cflags = \<lparr>f_end = False, f_eof = False, f_modified = False,
                    f_writable = f_writable (cflags x), f_ctl = True\<rparr>,
          cdata = data, coffset = 0, csize = 0\<rparr>;
       h \<leftarrow> data_ops_addref h data;
       h \<leftarrow> vbuffer_chunk_addref h c;
       (_, h) \<leftarrow> with_links h (list2_insert (links h) ins c);
       Some (c, h)
     }
   }"

definition vbuffer_chunk_check_writeable :: "vheap \<Rightarrow> addr \<Rightarrow> (bool \<times> vheap) option" where
  "vbuffer_chunk_check_writeable h chunk = do {
     x \<leftarrow> chunks h chunk;
     if \<not> f_writable (cflags x) then Some (False, raise_error h ''read only buffer'')
     else Some (True, h)
   }"

definition set_modified :: "bool \<Rightarrow> vbuffer_chunk \<Rightarrow> vbuffer_chunk" where
  "set_modified b x = x\<lparr>cflags := (cflags x)\<lparr>f_modified := b\<rparr>\<rparr>"

definition set_writable :: "bool \<Rightarrow> vbuffer_chunk \<Rightarrow> vbuffer_chunk" where
  "set_writable b x = x\<lparr>cflags := (cflags x)\<lparr>f_writable := b\<rparr>\<rparr>"

definition vbuffer_chunk_mark_modified :: "vheap \<Rightarrow> addr \<Rightarrow> vheap option" where
  "vbuffer_chunk_mark_modified h chunk = upd_chunk h chunk (set_modified True)"

definition vbuffer_chunk_get_data :: "vheap \<Rightarrow> addr \<Rightarrow> bool \<Rightarrow> (bptr \<times> vheap) option" where
  "vbuffer_chunk_get_data h chunk write = do {
     (ok, h) \<leftarrow> (if write then vbuffer_chunk_check_writeable h chunk else Some (True, h));
     if \<not> ok then Some (NULL_ptr, h)
     else do {
       x \<leftarrow> chunks h chunk;
       assert_that (\<not> f_ctl (cflags x));
       ptr \<leftarrow> data_ops_get h (cdata x) write;
       if ptr = NULL_ptr then do {
         assert_that write;
         let (e, h) = has_error h;
         assert_that e;
         Some (NULL_ptr, h)
       } else do {
         h \<leftarrow> (if write then vbuffer_chunk_mark_modified h chunk else Some h);
         Some (ptr_add ptr (coffset x), h)
       }
     }
   }"

definition vbuffer_chunk_next :: "vheap \<Rightarrow> addr \<Rightarrow> addr option" where
  "vbuffer_chunk_next h chunk = do {
     assert_that (chunk \<noteq> NULL);
     x \<leftarrow> chunks h chunk;
     if f_end (cflags x) then Some NULL else list2_next (links h) chunk
   }"

definition vbuffer_chunk_prev :: "vheap \<Rightarrow> addr \<Rightarrow> addr option" where
  "vbuffer_chunk_prev h chunk = do {
     assert_that (chunk \<noteq> NULL);
     prev \<leftarrow> list2_prev (links h) chunk;
     x \<leftarrow> chunks h prev;
     if f_end (cflags x) then Some NULL else Some prev
   }"

definition vbuffer_chunk_remove_ctl :: "vheap \<Rightarrow> addr \<Rightarrow> (addr \<times> vheap) option" where
  "vbuffer_chunk_remove_ctl h chunk = do {
     assert_that (chunk \<noteq> NULL);
     x \<leftarrow> chunks h chunk;
     assert_that (f_ctl (cflags x));
     nx \<leftarrow> vbuffer_chunk_next h chunk;
     h \<leftarrow> upd_chunk h nx (\<lambda>y. set_modified (f_modified (cflags y) \<or> f_modified (cflags x)) y);
     h \<leftarrow> vbuffer_chunk_clear h chunk;
     Some (nx, h)
   }"

section \<open>Buffers\<close>

definition vbuffer_init :: addr where
  "vbuffer_init = NULL"

definition vbuffer_init_end :: "vheap \<Rightarrow> bool \<Rightarrow> (bool \<times> addr \<times> vheap) option" where
  "vbuffer_init_end h writable = do {
     (c, h) \<leftarrow> vbuffer_chunk_create_end h writable;
     Some (c \<noteq> NULL, c, h)
   }"

definition vbuffer_isvalid :: "addr \<Rightarrow> bool" where
  "vbuffer_isvalid buf = (buf \<noteq> NULL)"

definition vbuffer_create_empty :: "vheap \<Rightarrow> (bool \<times> addr \<times> vheap) option" where
  "vbuffer_create_empty h = vbuffer_init_end h True"

definition vbuffer_chunk_list :: "addr \<Rightarrow> addr option" where
  "vbuffer_chunk_list buf = do { assert_that (buf \<noteq> NULL); Some buf }"

definition vbuffer_chunk_begin :: "vheap \<Rightarrow> addr \<Rightarrow> addr option" where
  "vbuffer_chunk_begin h buf = do { assert_that (buf \<noteq> NULL); list2_next (links h) buf }"

definition vbuffer_chunk_end :: "addr \<Rightarrow> addr option" where
  "vbuffer_chunk_end buf = do { assert_that (buf \<noteq> NULL); Some buf }"

definition vbuffer_create_from_data ::
    "vheap \<Rightarrow> addr \<Rightarrow> addr \<Rightarrow> nat \<Rightarrow> nat \<Rightarrow> (bool \<times> addr \<times> vheap) option" where
  "vbuffer_create_from_data h buffer data offset len = do {
     (chunk, h) \<leftarrow> vbuffer_chunk_create h data offset len;
     if chunk = NULL then Some (False, buffer, h)
     else do {
       (_, buffer, h) \<leftarrow> vbuffer_init_end h True;
       e \<leftarrow> vbuffer_chunk_end buffer;
       (_, h) \<leftarrow> with_links h (list2_insert (links h) e chunk);
       Some (True, buffer, h)
     }
   }"

definition vbuffer_create_new :: "vheap \<Rightarrow> addr \<Rightarrow> nat \<Rightarrow> bool \<Rightarrow> (bool \<times> addr \<times> vheap) option" where
  "vbuffer_create_new h buffer sz zero = do {
     (data, h) \<leftarrow> vbuffer_data_basic h sz zero;
     if data = NULL then Some (False, buffer, h)
     else vbuffer_create_from_data h buffer data 0 sz
   }"

definition vbuffer_create_from :: "vheap \<Rightarrow> addr \<Rightarrow> u8 list \<Rightarrow> (bool \<times> addr \<times> vheap) option" where
  "vbuffer_create_from h buffer str = do {
     (data, h) \<leftarrow> vbuffer_data_basic h (length str) False;
     if data = NULL then Some (False, buffer, h)
     else do {
       h \<leftarrow> store h (data, 0) str;
       vbuffer_create_from_data h buffer data 0 (length str)
     }
   }"

partial_function (option) clear_loop :: "vheap \<Rightarrow> addr \<Rightarrow> vheap option" where
  "clear_loop h iter = do {
     x \<leftarrow> chunks h iter;
     if f_end (cflags x) then Some h
     else do {
       nx \<leftarrow> vbuffer_chunk_next h iter;
       h \<leftarrow> vbuffer_chunk_clear h iter;
       clear_loop h nx
     }
   }"

definition vbuffer_clear :: "vheap \<Rightarrow> addr \<Rightarrow> (addr \<times> vheap) option" where
  "vbuffer_clear h buf =
     (if vbuffer_isvalid buf then do {
        iter \<leftarrow> vbuffer_chunk_begin h buf;
        h \<leftarrow> clear_loop h iter;
        h \<leftarrow> vbuffer_chunk_clear h buf;
        Some (NULL, h)
      } else Some (buf, h))"

definition vbuffer_release :: "vheap \<Rightarrow> addr \<Rightarrow> (addr \<times> vheap) option" where
  "vbuffer_release h buf = vbuffer_clear h buf"

partial_function (option) size_loop :: "vheap \<Rightarrow> addr \<Rightarrow> nat \<Rightarrow> nat option" where
  "size_loop h iter sz =
     (if iter = NULL then Some sz
      else do {
        x \<leftarrow> chunks h iter;
        nx \<leftarrow> vbuffer_chunk_next h iter;
        size_loop h nx (to_u64 (sz + csize x))
      })"

definition vbuffer_size :: "vheap \<Rightarrow> addr \<Rightarrow> nat option" where
  "vbuffer_size h buf = do {
     assert_that (vbuffer_isvalid buf);
     iter \<leftarrow> vbuffer_chunk_begin h buf;
     size_loop h iter 0
   }"

definition vbuffer_isempty :: "vheap \<Rightarrow> addr \<Rightarrow> bool option" where
  "vbuffer_isempty h buf = do {
     assert_that (vbuffer_isvalid buf);
     e \<leftarrow> links h buf;
     Some (lnext e = buf)
   }"

partial_function (option) setwritable_loop :: "vheap \<Rightarrow> addr \<Rightarrow> bool \<Rightarrow> vheap option" where
  "setwritable_loop h iter writable =
     (if iter = NULL then Some h
      else do {
        h \<leftarrow> upd_chunk h iter (set_writable writable);
        nx \<leftarrow> vbuffer_chunk_next h iter;
        setwritable_loop h nx writable
      })"

definition vbuffer_setwritable :: "vheap \<Rightarrow> addr \<Rightarrow> bool \<Rightarrow> vheap option" where
  "vbuffer_setwritable h buf writable = do {
     assert_that (vbuffer_isvalid buf);
     iter \<leftarrow> vbuffer_chunk_begin h buf;
     setwritable_loop h iter writable
   }"

definition vbuffer_iswritable :: "vheap \<Rightarrow> addr \<Rightarrow> bool option" where
  "vbuffer_iswritable h buf = do {
     assert_that (vbuffer_isvalid buf);
     e \<leftarrow> vbuffer_chunk_end buf;
     x \<leftarrow> chunks h e;
     Some (f_writable (cflags x))
   }"

partial_function (option) ismodified_loop :: "vheap \<Rightarrow> addr \<Rightarrow> bool option" where
  "ismodified_loop h iter =
     (if iter = NULL then Some False
      else do {
        x \<leftarrow> chunks h iter;
        if f_modified (cflags x) then Some True
        else do { nx \<leftarrow> vbuffer_chunk_next h iter; ismodified_loop h nx }
      })"

definition vbuffer_ismodified :: "vheap \<Rightarrow> addr \<Rightarrow> bool option" where
  "vbuffer_ismodified h buf = do {
     assert_that (vbuffer_isvalid buf);
     iter \<leftarrow> vbuffer_chunk_begin h buf;
     ismodified_loop h iter
   }"

partial_function (option) clearmodified_loop :: "vheap \<Rightarrow> addr \<Rightarrow> vheap option" where
  "clearmodified_loop h iter =
     (if iter = NULL then Some h
      else do {
        h \<leftarrow> upd_chunk h iter (set_modified False);
        nx \<leftarrow> vbuffer_chunk_next h iter;
        clearmodified_loop h nx
      })"

definition vbuffer_clearmodified :: "vheap \<Rightarrow> addr \<Rightarrow> vheap option" where
  "vbuffer_clearmodified h buf = do {
     assert_that (vbuffer_isvalid buf);
     iter \<leftarrow> vbuffer_chunk_begin h buf;
     clearmodified_loop h iter
   }"

definition vbuffer_append :: "vheap \<Rightarrow> addr \<Rightarrow> addr \<Rightarrow> (bool \<times> vheap) option" where
  "vbuffer_append h buf buffer = do {
     list \<leftarrow> vbuffer_chunk_list buffer;
     assert_that (vbuffer_isvalid buf);
     e \<leftarrow> vbuffer_chunk_end buf;
     h \<leftarrow> vbuffer_chunk_mark_modified h e;
     b \<leftarrow> list2_begin (links h) list;
     (_, h) \<leftarrow> with_links h (list2_insert_list (links h) e b (list2_end list));
     emp \<leftarrow> list2_empty (links h) list;
     assert_that emp;
     Some (True, h)
   }"

definition vbuffer_swap :: "addr \<Rightarrow> addr \<Rightarrow> (addr \<times> addr) option" where
  "vbuffer_swap a b = do { assert_that (vbuffer_isvalid b); Some (b, a) }"

section \<open>Heap accessors\<close>

lemma upd_chunk_Some [simp]:
  "chunks h c = Some x \<Longrightarrow> upd_chunk h c f = Some (h\<lparr>chunks := (chunks h)(c \<mapsto> f x)\<rparr>)"
  by (simp add: upd_chunk_def)

lemma upd_data_Some [simp]:
  "datas h d = Some x \<Longrightarrow> upd_data h d f = Some (h\<lparr>datas := (datas h)(d \<mapsto> f x)\<rparr>)"
  by (simp add: upd_data_def)

lemma with_links_Some [simp]: "with_links h (Some (a, lk)) = Some (a, h\<lparr>links := lk\<rparr>)"
  by (simp add: with_links_def)

definition kind :: "vheap \<Rightarrow> addr \<Rightarrow> data_kind option" where
  "kind h d = map_option dkind (datas h d)"

lemma block_kind: "block h d = (case kind h d of Some (Data_basic bs) \<Rightarrow> Some bs | _ \<Rightarrow> None)"
  by (auto simp: block_def kind_def split: option.splits data_kind.splits)

lemma kind_simps [simp]:
  "kind (h\<lparr>links := lk\<rparr>) = kind h"
  "kind (h\<lparr>chunks := ck\<rparr>) = kind h"
  "kind (h\<lparr>errs := er\<rparr>) = kind h"
  "kind (h\<lparr>fresh := fr\<rparr>) = kind h"
  "kind (h\<lparr>budget := bu\<rparr>) = kind h"
  by (simp_all add: kind_def fun_eq_iff)

lemma raise_error_simps [simp]:
  "links (raise_error h m) = links h"
  "chunks (raise_error h m) = chunks h"
  "datas (raise_error h m) = datas h"
  "fresh (raise_error h m) = fresh h"
  "budget (raise_error h m) = budget h"
  "kind (raise_error h m) = kind h"
  by (simp_all add: raise_error_def)

section \<open>Well-formed heaps\<close>

text \<open>The chunks that refer to a data block.\<close>

definition owners :: "vheap \<Rightarrow> addr \<Rightarrow> addr set" where
  "owners h d = {c. \<exists>x. chunks h c = Some x \<and> cdata x = d}"

text \<open>
  The heap invariant: objects live at non-null addresses below \<open>fresh\<close>; every chunk has its links
  and holds at least one reference; a chunk's data block is allocated; and the reference count of a
  block is the number of chunks that refer to it.
\<close>

definition heap_ok :: "vheap \<Rightarrow> bool" where
  "heap_ok h \<longleftrightarrow>
     finite (dom (chunks h)) \<and> dom (links h) = dom (chunks h) \<and>
     0 < fresh h \<and> (\<forall>a \<in> dom (chunks h) \<union> dom (datas h). 0 < a \<and> a < fresh h) \<and>
     (\<forall>c x. chunks h c = Some x \<longrightarrow> cref x \<ge> 1 \<and> (cdata x \<noteq> NULL \<longrightarrow> cdata x \<in> dom (datas h))) \<and>
     (\<forall>d x. datas h d = Some x \<longrightarrow> dref x = int (card (owners h d)))"

lemma heap_okD:
  assumes "heap_ok h"
  shows "finite (dom (chunks h))" "dom (links h) = dom (chunks h)" "0 < fresh h"
    and "chunks h c = Some x \<Longrightarrow> 0 < c \<and> c < fresh h \<and> cref x \<ge> 1 \<and> (cdata x \<noteq> NULL \<longrightarrow> (\<exists>y. datas h (cdata x) = Some y))"
    and "datas h d = Some y \<Longrightarrow> 0 < d \<and> d < fresh h \<and> dref y = int (card (owners h d))"
    and "chunks h (fresh h) = None" "datas h (fresh h) = None" "links h (fresh h) = None"
    and "chunks h 0 = None" "datas h 0 = None" "links h 0 = None"
proof -
  note ok = assms [unfolded heap_ok_def]
  show "finite (dom (chunks h))" "0 < fresh h" using ok by auto
  show dl: "dom (links h) = dom (chunks h)" using ok by auto
  show "0 < c \<and> c < fresh h \<and> cref x \<ge> 1 \<and> (cdata x \<noteq> NULL \<longrightarrow> (\<exists>y. datas h (cdata x) = Some y))"
    if "chunks h c = Some x" using ok that by fastforce
  show "0 < d \<and> d < fresh h \<and> dref y = int (card (owners h d))" if "datas h d = Some y"
    using ok that by fastforce
  have r: "\<forall>a \<in> dom (chunks h) \<union> dom (datas h). 0 < a \<and> a < fresh h" using ok by blast
  show n: "chunks h (fresh h) = None" "datas h (fresh h) = None" "chunks h 0 = None" "datas h 0 = None"
    using r by (metis UnI1 UnI2 domIff less_irrefl)+
  show "links h (fresh h) = None" "links h 0 = None" using dl n by (metis domIff)+
qed

lemma finite_owners: "heap_ok h \<Longrightarrow> finite (owners h d)"
  by (rule finite_subset [OF _ heap_okD(1)]) (auto simp: owners_def)

lemma heap_ok_cong:
  assumes "heap_ok h" "chunks h' = chunks h" "datas h' = datas h" "dom (links h') = dom (links h)"
    "fresh h \<le> fresh h'"
  shows "heap_ok h'"
proof -
  have ow: "owners h' = owners h" using assms by (simp add: owners_def fun_eq_iff)
  note ok = assms(1) [unfolded heap_ok_def]
  show ?thesis
    unfolding heap_ok_def ow assms(2-4)
  proof (intro conjI)
    show "\<forall>a \<in> dom (chunks h) \<union> dom (datas h). 0 < a \<and> a < fresh h'"
    proof
      fix a assume "a \<in> dom (chunks h) \<union> dom (datas h)"
      then have "0 < a \<and> a < fresh h" using ok by blast
      with assms(5) show "0 < a \<and> a < fresh h'" by linarith
    qed
    show "0 < fresh h'" using ok assms(5) by linarith
  qed (use ok in blast)+
qed

lemma heap_ok_links: "heap_ok h \<Longrightarrow> dom lk = dom (links h) \<Longrightarrow> heap_ok (h\<lparr>links := lk\<rparr>)"
  by (rule heap_ok_cong [of h]) simp_all

lemma heap_ok_raise_error [simp]: "heap_ok h \<Longrightarrow> heap_ok (raise_error h m)"
  by (rule heap_ok_cong [of h]) simp_all

text \<open>Changing the fields of a chunk other than its data.\<close>

lemma owners_upd_chunk:
  assumes "chunks h c = Some x" "cdata y = cdata x"
  shows "owners (h\<lparr>chunks := (chunks h)(c \<mapsto> y)\<rparr>) d = owners h d"
  using assms by (auto simp: owners_def)

lemma heap_ok_upd_chunk:
  assumes "heap_ok h" "chunks h c = Some x" "cdata y = cdata x" "cref y \<ge> 1"
  shows "heap_ok (h\<lparr>chunks := (chunks h)(c \<mapsto> y)\<rparr>)"
proof -
  have "c \<in> dom (chunks h)" using assms(2) by auto
  then show ?thesis
    using assms unfolding heap_ok_def owners_upd_chunk [OF assms(2,3)] by (auto simp: insert_absorb)
qed

section \<open>Frames\<close>

text \<open>
  \<open>frame_off S h h'\<close>: going from \<open>h\<close> to \<open>h'\<close> leaves every chunk outside \<open>S\<close> as it is, and the
  contents of the blocks these chunks refer to; new objects may have been added.
\<close>

definition frame_off :: "addr set \<Rightarrow> vheap \<Rightarrow> vheap \<Rightarrow> bool" where
  "frame_off S h h' \<longleftrightarrow>
     (\<forall>c. c \<notin> S \<longrightarrow> c < fresh h \<longrightarrow> links h' c = links h c \<and> chunks h' c = chunks h c) \<and>
     (\<forall>c x. c \<notin> S \<longrightarrow> chunks h c = Some x \<longrightarrow> cdata x \<noteq> NULL \<longrightarrow> kind h' (cdata x) = kind h (cdata x)) \<and>
     fresh h \<le> fresh h' \<and> junk h' = junk h"

lemma frame_off_refl [simp, intro]: "frame_off S h h"
  by (simp add: frame_off_def)

lemma frame_off_trans:
  assumes "heap_ok h" "frame_off S h h1" "frame_off T h1 h2" "\<And>a. a \<in> T \<Longrightarrow> a < fresh h \<Longrightarrow> a \<in> S"
  shows "frame_off S h h2"
proof -
  have *: "c \<notin> T" if "c \<notin> S" "c < fresh h" for c using assms(4) that by blast
  show ?thesis
    unfolding frame_off_def
  proof (intro conjI allI impI)
    fix c assume c: "c \<notin> S" "c < fresh h"
    show "links h2 c = links h c" "chunks h2 c = chunks h c"
      using assms(2,3) * [OF c] c unfolding frame_off_def by auto
  next
    fix c x assume c: "c \<notin> S" "chunks h c = Some x" "cdata x \<noteq> NULL"
    then have l: "c < fresh h" using heap_okD(4) [OF assms(1)] by blast
    have "chunks h1 c = Some x" using assms(2) c l unfolding frame_off_def by auto
    then have "kind h2 (cdata x) = kind h1 (cdata x)"
      using assms(3) * [OF c(1) l] c(3) unfolding frame_off_def by blast
    also have "\<dots> = kind h (cdata x)" using assms(2) c unfolding frame_off_def by blast
    finally show "kind h2 (cdata x) = kind h (cdata x)" .
  qed (use assms(2,3) in \<open>auto simp: frame_off_def\<close>)
qed

lemma frame_off_mono: "frame_off S h h' \<Longrightarrow> S \<subseteq> T \<Longrightarrow> frame_off T h h'"
  unfolding frame_off_def by blast

lemma frame_off_links:
  "same_off S (links h) lk \<Longrightarrow> frame_off S h (h\<lparr>links := lk\<rparr>)"
  by (auto simp: frame_off_def same_off_def)

lemma frame_off_upd_chunk: "c \<in> S \<Longrightarrow> frame_off S h (h\<lparr>chunks := (chunks h)(c \<mapsto> y)\<rparr>)"
  by (auto simp: frame_off_def)

lemma frame_off_raise_error [simp, intro]: "frame_off S h (raise_error h m)"
  by (auto simp: frame_off_def raise_error_def)

section \<open>Buffers as sequences of chunks\<close>

definition csz :: "vheap \<Rightarrow> addr \<Rightarrow> nat" where
  "csz h c = (case chunks h c of Some x \<Rightarrow> csize x | None \<Rightarrow> 0)"

definition szs :: "vheap \<Rightarrow> addr list \<Rightarrow> nat" where
  "szs h cs = sum_list (map (csz h) cs)"

definition chunk_bytes :: "vheap \<Rightarrow> addr \<Rightarrow> u8 list" where
  "chunk_bytes h c =
     (case chunks h c of
        Some x \<Rightarrow> if f_ctl (cflags x) then []
                  else (case block h (cdata x) of
                          Some bs \<Rightarrow> take (csize x) (drop (coffset x) bs) | None \<Rightarrow> [])
      | None \<Rightarrow> [])"

definition content :: "vheap \<Rightarrow> addr list \<Rightarrow> u8 list" where
  "content h cs = concat (map (chunk_bytes h) cs)"

text \<open>A chunk of a buffer: a control chunk is empty, any other chunk is a slice of a basic block.\<close>

definition chunk_wf :: "vheap \<Rightarrow> vbuffer_chunk \<Rightarrow> bool" where
  "chunk_wf h x \<longleftrightarrow> \<not> f_end (cflags x) \<and> cdata x \<noteq> NULL \<and>
     (if f_ctl (cflags x) then csize x = 0
      else \<exists>bs. block h (cdata x) = Some bs \<and> coffset x + csize x \<le> length bs \<and>
             coffset x + csize x < 2 ^ 32)"

definition end_wf :: "vbuffer_chunk \<Rightarrow> bool" where
  "end_wf x \<longleftrightarrow> f_end (cflags x) \<and> f_ctl (cflags x) \<and> csize x = 0"

definition vbuf :: "vheap \<Rightarrow> addr \<Rightarrow> addr list \<Rightarrow> bool" where
  "vbuf h b cs \<longleftrightarrow> seq (links h) b cs \<and> (\<exists>e. chunks h b = Some e \<and> end_wf e) \<and>
     (\<forall>c \<in> set cs. \<exists>x. chunks h c = Some x \<and> chunk_wf h x)"

lemma content_simps [simp]:
  "content h [] = []"
  "content h (c # cs) = chunk_bytes h c @ content h cs"
  "content h (cs @ ds) = content h cs @ content h ds"
  by (simp_all add: content_def)

lemma szs_simps [simp]:
  "szs h [] = 0"
  "szs h (c # cs) = csz h c + szs h cs"
  "szs h (cs @ ds) = szs h cs + szs h ds"
  by (simp_all add: szs_def)

lemma chunk_wf_bytes:
  "chunks h c = Some x \<Longrightarrow> chunk_wf h x \<Longrightarrow> length (chunk_bytes h c) = csz h c"
  by (auto simp: chunk_bytes_def csz_def chunk_wf_def split: if_splits)

lemma chunk_wf_size: "chunk_wf h x \<Longrightarrow> csize x < 2 ^ 32"
  by (auto simp: chunk_wf_def split: if_splits)

lemma vbufD:
  assumes "vbuf h b cs"
  shows "seq (links h) b cs" "b \<noteq> NULL" "NULL \<notin> set cs" "b \<notin> set cs" "distinct cs"
    and "\<exists>e. chunks h b = Some e \<and> end_wf e"
    and "c \<in> set cs \<Longrightarrow> \<exists>x. chunks h c = Some x \<and> chunk_wf h x"
    and "csz h b = 0"
  using assms seq_distinct [of "links h" b cs] seq_not_null [of "links h" b cs]
  by (auto simp: vbuf_def csz_def end_wf_def)

lemma length_content: "vbuf h b cs \<Longrightarrow> set ds \<subseteq> set cs \<Longrightarrow> length (content h ds) = szs h ds"
proof (induction ds)
  case (Cons c ds)
  then obtain x where "chunks h c = Some x" "chunk_wf h x" using vbufD(7) [OF Cons.prems(1)] by auto
  with Cons show ?case by (simp add: chunk_wf_bytes)
qed auto

lemma length_content_all [simp]: "vbuf h b cs \<Longrightarrow> length (content h cs) = szs h cs"
  by (rule length_content) auto

text \<open>What \<open>chunk_wf\<close> and the bytes of a chunk depend on.\<close>

lemma chunk_bytes_cong:
  assumes "chunks h' c = chunks h c"
    and "\<And>x. chunks h c = Some x \<Longrightarrow> \<not> f_ctl (cflags x) \<Longrightarrow> kind h' (cdata x) = kind h (cdata x)"
  shows "chunk_bytes h' c = chunk_bytes h c"
  using assms by (auto simp: chunk_bytes_def block_kind split: option.splits)

lemma chunk_wf_cong: "kind h' (cdata x) = kind h (cdata x) \<Longrightarrow> chunk_wf h' x = chunk_wf h x"
  by (simp add: chunk_wf_def block_kind)

lemma content_cong:
  "(\<And>c. c \<in> set cs \<Longrightarrow> chunk_bytes h' c = chunk_bytes h c) \<Longrightarrow> content h' cs = content h cs"
  by (auto simp: content_def intro!: arg_cong [where f = concat])

lemma szs_cong: "(\<And>c. c \<in> set cs \<Longrightarrow> csz h' c = csz h c) \<Longrightarrow> szs h' cs = szs h cs"
  by (auto simp: szs_def intro!: arg_cong [where f = sum_list])

lemma chunk_bytes_links [simp]: "chunk_bytes (h\<lparr>links := lk\<rparr>) = chunk_bytes h"
  by (rule ext, rule chunk_bytes_cong) simp_all

lemma csz_links [simp]: "csz (h\<lparr>links := lk\<rparr>) = csz h"
  by (simp add: fun_eq_iff csz_def)

lemma heap_links_simps [simp]:
  "content (h\<lparr>links := lk\<rparr>) = content h"
  "szs (h\<lparr>links := lk\<rparr>) = szs h"
  "chunk_wf (h\<lparr>links := lk\<rparr>) = chunk_wf h"
  by (simp_all add: fun_eq_iff content_def szs_def chunk_wf_def block_kind)

lemma vbuf_links:
  "vbuf h b cs \<Longrightarrow> seq lk b ds \<Longrightarrow>
   (\<And>d. d \<in> set ds \<Longrightarrow> \<exists>x. chunks h d = Some x \<and> chunk_wf h x) \<Longrightarrow> vbuf (h\<lparr>links := lk\<rparr>) b ds"
  by (auto simp: vbuf_def)

lemma vbuf_frame:
  assumes "heap_ok h" "vbuf h b cs" "frame_off S h h'" "insert b (set cs) \<inter> S = {}"
  shows "vbuf h' b cs" "content h' cs = content h cs" "szs h' cs = szs h cs"
proof -
  have lt: "c < fresh h" if "c \<in> insert b (set cs)" for c
    using that vbufD(6,7) [OF assms(2)] heap_okD(4) [OF assms(1)] by blast
  have eq: "links h' c = links h c" "chunks h' c = chunks h c" if "c \<in> insert b (set cs)" for c
    using assms(3,4) that lt [OF that] unfolding frame_off_def by auto
  have kd: "kind h' (cdata x) = kind h (cdata x)" if "c \<in> set cs" "chunks h c = Some x" for c x
  proof -
    have "cdata x \<noteq> NULL" using that vbufD(7) [OF assms(2) that(1)] by (auto simp: chunk_wf_def)
    then show ?thesis using assms(3,4) that unfolding frame_off_def by blast
  qed
  have "seq (links h') b cs" using vbufD(1) [OF assms(2)] seq_frame [OF eq(1)] by simp
  moreover have "\<exists>x. chunks h' c = Some x \<and> chunk_wf h' x" if c: "c \<in> set cs" for c
  proof -
    obtain x where x: "chunks h c = Some x" "chunk_wf h x" using vbufD(7) [OF assms(2) c] by blast
    then have "chunks h' c = Some x" using eq(2) c by simp
    moreover have "chunk_wf h' x" using chunk_wf_cong [OF kd [OF c x(1)]] x(2) by simp
    ultimately show ?thesis by blast
  qed
  ultimately show "vbuf h' b cs"
    using vbufD(6) [OF assms(2)] eq(2) [of b] by (auto simp: vbuf_def)
  show "content h' cs = content h cs"
    by (rule content_cong, rule chunk_bytes_cong) (use eq kd in auto)
  show "szs h' cs = szs h cs"
    by (rule szs_cong) (use eq in \<open>auto simp: csz_def\<close>)
qed

section \<open>Creating chunks\<close>

lemma malloc_simps:
  "0 < budget h \<Longrightarrow> malloc h = (fresh h, h\<lparr>fresh := Suc (fresh h), budget := budget h - 1\<rparr>)"
  "budget h = 0 \<Longrightarrow> malloc h = (NULL, h)"
  by (simp_all add: malloc_def)

text \<open>The heap after a new chunk is allocated and, when it has data, the data is referenced.\<close>

definition add_chunk :: "vheap \<Rightarrow> vbuffer_chunk \<Rightarrow> list2_elem \<Rightarrow> vheap" where
  "add_chunk h x e = h\<lparr>
     chunks := (chunks h)(fresh h \<mapsto> x), links := (links h)(fresh h \<mapsto> e),
     datas := (case datas h (cdata x) of None \<Rightarrow> datas h
               | Some y \<Rightarrow> (datas h)(cdata x \<mapsto> y\<lparr>dref := dref y + 1\<rparr>)),
     fresh := Suc (fresh h), budget := budget h - 1\<rparr>"

lemma add_chunk_simps [simp]:
  "chunks (add_chunk h x e) = (chunks h)(fresh h \<mapsto> x)"
  "links (add_chunk h x e) = (links h)(fresh h \<mapsto> e)"
  "fresh (add_chunk h x e) = Suc (fresh h)"
  "budget (add_chunk h x e) = budget h - 1"
  "junk (add_chunk h x e) = junk h"
  "errs (add_chunk h x e) = errs h"
  "kind (add_chunk h x e) = kind h"
  by (auto simp: add_chunk_def kind_def fun_eq_iff split: option.splits)

lemma heap_ok_add_chunk:
  assumes ok: "heap_ok h" and "cref x \<ge> 1" "cdata x = NULL \<or> cdata x \<in> dom (datas h)"
  shows "heap_ok (add_chunk h x e)"
proof -
  let ?h = "add_chunk h x e"
  note D = heap_okD [OF ok]
  have ow: "owners ?h d = owners h d \<union> (if d = cdata x then {fresh h} else {})" for d
    using D(6) by (auto simp: owners_def)
  have nf: "fresh h \<notin> owners h d" for d using D(6) by (auto simp: owners_def)
  have dd: "dom (datas ?h) = dom (datas h)"
    by (auto simp: add_chunk_def split: option.splits)
  have rf: "dref y = int (card (owners ?h d))" if y: "datas ?h d = Some y" for d y
  proof (cases "d = cdata x")
    case True
    then obtain z where z: "datas h d = Some z" "y = z\<lparr>dref := dref z + 1\<rparr>"
      using y by (auto simp: add_chunk_def split: option.splits)
    have "card (owners ?h d) = Suc (card (owners h d))"
      using True nf finite_owners [OF ok] by (simp add: ow)
    then show ?thesis using D(5) [OF z(1)] z(2) by simp
  next
    case False
    then have "datas h d = Some y" using y by (auto simp: add_chunk_def split: option.splits)
    then show ?thesis using D(5) False by (simp add: ow)
  qed
  show ?thesis
    unfolding heap_ok_def
  proof (intro conjI allI impI ballI)
    show "finite (dom (chunks ?h))" "dom (links ?h) = dom (chunks ?h)" "0 < fresh ?h"
      using D(1,2) by simp_all
    show "0 < a" "a < fresh ?h" if "a \<in> dom (chunks ?h) \<union> dom (datas ?h)" for a
      using that D(3) D(4) [of a] D(5) [of a] unfolding dd
      by (auto simp: less_Suc_eq split: if_splits)
    show "cdata y \<in> dom (datas ?h)" if "chunks ?h c = Some y" "cdata y \<noteq> NULL" for c y
      using that D(4) [of c y] assms(2,3) unfolding dd by (auto split: if_splits)
    show "1 \<le> cref y" if "chunks ?h c = Some y" for c y
      using that D(4) [of c y] assms(2) by (auto split: if_splits)
  qed (use rf in blast)
qed

lemma frame_off_add_chunk: "frame_off S h (add_chunk h x e)"
  by (auto simp: frame_off_def)

lemma add_chunk_bytes:
  assumes "heap_ok h" "chunks h c \<noteq> None"
  shows "chunk_bytes (add_chunk h x e) c = chunk_bytes h c"
proof (rule chunk_bytes_cong)
  have "c \<noteq> fresh h" using heap_okD(6) [OF assms(1)] assms(2) by auto
  then show "chunks (add_chunk h x e) c = chunks h c" by simp
qed simp

abbreviation data_chunk :: "addr \<Rightarrow> nat \<Rightarrow> nat \<Rightarrow> vbuffer_chunk" where
  "data_chunk d off len \<equiv>
     \<lparr>cref = 1,
      cflags = \<lparr>f_end = False, f_eof = False, f_modified = False, f_writable = True, f_ctl = False\<rparr>,
      cdata = d, coffset = off, csize = len\<rparr>"

abbreviation ctl_chunk :: "addr \<Rightarrow> bool \<Rightarrow> vbuffer_chunk" where
  "ctl_chunk d w \<equiv>
     \<lparr>cref = 1,
      cflags = \<lparr>f_end = False, f_eof = False, f_modified = False, f_writable = w, f_ctl = True\<rparr>,
      cdata = d, coffset = 0, csize = 0\<rparr>"

abbreviation end_chunk :: "bool \<Rightarrow> vbuffer_chunk" where
  "end_chunk w \<equiv>
     \<lparr>cref = 1,
      cflags = \<lparr>f_end = True, f_eof = True, f_modified = False, f_writable = w, f_ctl = True\<rparr>,
      cdata = NULL, coffset = 0, csize = 0\<rparr>"

abbreviation free_elem :: list2_elem where
  "free_elem \<equiv> \<lparr>lprev = NULL, lnext = NULL\<rparr>"

lemma vbuffer_chunk_create_ok:
  assumes "heap_ok h" "0 < budget h" "d \<in> dom (datas h)" "off < 2 ^ 32" "len < 2 ^ 32"
  shows "vbuffer_chunk_create h d off len = Some (fresh h, add_chunk h (data_chunk d off len) free_elem)"
proof -
  note D = heap_okD [OF assms(1)]
  obtain y where y: "datas h d = Some y" using assms(3) by auto
  then have "d \<noteq> NULL" using D(5) by blast
  then show ?thesis using assms(2,4,5) D(3) y
    by (simp add: vbuffer_chunk_create_def malloc_simps new_chunk_def list2_elem_init_def
        data_ops_addref_def vbuffer_chunk_addref_def add_chunk_def)
qed

lemma vbuffer_chunk_create_end_ok:
  assumes "heap_ok h" "0 < budget h"
  shows "vbuffer_chunk_create_end h w =
    Some (fresh h, add_chunk h (end_chunk w) \<lparr>lprev = fresh h, lnext = fresh h\<rparr>)"
  using heap_okD(3,10) [OF assms(1)] assms(2)
  by (simp add: vbuffer_chunk_create_end_def malloc_simps new_chunk_def list2_elem_init_def list2_init_def
      vbuffer_chunk_addref_def add_chunk_def)

lemma vbuf_new_end:
  assumes "heap_ok h"
  shows "vbuf (add_chunk h (end_chunk w) \<lparr>lprev = fresh h, lnext = fresh h\<rparr>) (fresh h) []"
  using heap_okD(3) [OF assms]
  by (simp add: vbuf_def seq_def circ_Cons nxt_def prv_def end_wf_def)

text \<open>Linking a detached chunk into a buffer.\<close>

lemma vbuf_insert:
  assumes "heap_ok h" "vbuf h b (xs @ ys)" "detached (links h) c" "c \<notin> insert b (set (xs @ ys))"
    and "chunks h c = Some x" "chunk_wf h x"
  obtains lk where "list2_insert (links h) (hd (ys @ [b])) c = Some (c, lk)"
    "vbuf (h\<lparr>links := lk\<rparr>) b (xs @ c # ys)" "heap_ok (h\<lparr>links := lk\<rparr>)"
    "frame_off (insert c (insert b (set (xs @ ys)))) h (h\<lparr>links := lk\<rparr>)"
proof -
  obtain lk where lk: "list2_insert (links h) (hd (ys @ [b])) c = Some (c, lk)" "seq lk b (xs @ c # ys)"
    "same_off (insert c (insert b (set (xs @ ys)))) (links h) lk" "dom lk = dom (links h)"
    using vbufD(1) [OF assms(2)] assms(3,4) by (rule seq_insert)
  have "vbuf (h\<lparr>links := lk\<rparr>) b (xs @ c # ys)"
    by (rule vbuf_links [OF assms(2) lk(2)]) (use vbufD(7) [OF assms(2)] assms(5,6) in auto)
  with lk show ?thesis
    by (intro that [of lk] heap_ok_links frame_off_links assms(1))
qed

section \<open>Clearing chunks\<close>

definition drop_ref :: "(addr \<rightharpoonup> vbuffer_data) \<Rightarrow> addr \<Rightarrow> (addr \<rightharpoonup> vbuffer_data)" where
  "drop_ref m d =
     (case m d of None \<Rightarrow> m
      | Some y \<Rightarrow> if dref y = 1 then m(d := None) else m(d \<mapsto> y\<lparr>dref := dref y - 1\<rparr>))"

text \<open>The heap after a chunk is taken out of its list (the links become \<open>lk\<close>) and cleared.\<close>

definition drop_chunk :: "vheap \<Rightarrow> addr \<Rightarrow> vbuffer_chunk \<Rightarrow> links \<Rightarrow> vheap" where
  "drop_chunk h c x lk = h\<lparr>
     links := (if cref x = 1 then lk(c := None) else lk),
     chunks := (if cref x = 1 then (chunks h)(c := None)
                else (chunks h)(c \<mapsto> x\<lparr>cdata := NULL, cref := cref x - 1\<rparr>)),
     datas := drop_ref (datas h) (cdata x)\<rparr>"

lemma drop_chunk_simps [simp]:
  "fresh (drop_chunk h c x lk) = fresh h"
  "budget (drop_chunk h c x lk) = budget h"
  "junk (drop_chunk h c x lk) = junk h"
  "errs (drop_chunk h c x lk) = errs h"
  by (simp_all add: drop_chunk_def)

lemma drop_chunk_links: "cref x \<noteq> 1 \<Longrightarrow> links (drop_chunk h c x lk) = lk"
  by (simp add: drop_chunk_def)

lemma vbuffer_data_release_eq:
  assumes "heap_ok h" "d = NULL \<or> d \<in> dom (datas h)"
  shows "vbuffer_data_release h d = Some (h\<lparr>datas := drop_ref (datas h) d\<rparr>)"
proof (cases "d = NULL")
  case True
  then show ?thesis using heap_okD(10) [OF assms(1)] by (simp add: vbuffer_data_release_def drop_ref_def)
next
  case False
  then obtain y where "datas h d = Some y" using assms(2) by auto
  then show ?thesis using False
    by (simp add: vbuffer_data_release_def data_ops_release_def data_ops_free_def free_data_def drop_ref_def)
qed

lemma vbuffer_chunk_clear_eq:
  assumes ok: "heap_ok h" and x: "chunks h c = Some x"
    and e: "links h c = Some e"
    and lk: "if lnext e = NULL then lk = links h \<and> lprev e = NULL
             else lprev e \<noteq> NULL \<and> (\<exists>n. list2_erase (links h) c = Some (n, lk)) \<and> detached lk c"
  shows "vbuffer_chunk_clear h c = Some (drop_chunk h c x lk)"
proof -
  have d: "cdata x = NULL \<or> cdata x \<in> dom (datas h)" using heap_okD(4) [OF ok x] by auto
  have dl: "dom lk = dom (links h)" if "lnext e \<noteq> NULL"
  proof -
    from lk that obtain n where er: "list2_erase (links h) c = Some (n, lk)" by auto
    show ?thesis using er
      by (auto simp: list2_erase_def bind_Some_iff list2_next_def list2_prev_def set_next_def set_prev_def
          dom_def split: if_splits)
  qed
  show ?thesis
  proof (cases "lnext e = NULL")
    case True
    then have "lk = links h" using lk by simp
    then show ?thesis
      unfolding vbuffer_chunk_clear_def using e x True
      by (simp add: vbuffer_data_release_eq [OF ok d] vbuffer_chunk_release_def list2_elem_check_def
          free_chunk_def drop_chunk_def)
  next
    case False
    then obtain n where er: "list2_erase (links h) c = Some (n, lk)" "lprev e \<noteq> NULL" "detached lk c"
      using lk by auto
    have ok1: "heap_ok (h\<lparr>links := lk\<rparr>)" using heap_ok_links [OF ok dl [OF False]] .
    have rel: "vbuffer_data_release (h\<lparr>links := lk\<rparr>) (cdata x) =
        Some (h\<lparr>links := lk, datas := drop_ref (datas h) (cdata x)\<rparr>)"
      using vbuffer_data_release_eq [OF ok1] d by simp
    show ?thesis
      unfolding vbuffer_chunk_clear_def using e x False er
      by (simp add: rel vbuffer_chunk_release_def list2_elem_check_def free_chunk_def drop_chunk_def
          detached_def)
  qed
qed

lemma drop_ref_other: "a \<noteq> d \<Longrightarrow> drop_ref m d a = m a"
  by (auto simp: drop_ref_def split: option.splits)

lemma heap_ok_drop_chunk:
  assumes ok: "heap_ok h" and x: "chunks h c = Some x" and lk: "dom lk = dom (links h)"
  shows "heap_ok (drop_chunk h c x lk)"
proof -
  let ?h = "drop_chunk h c x lk"
  note D = heap_okD [OF ok]
  have ow: "owners ?h d = owners h d - {c}" if "d \<noteq> NULL" for d
    using x that by (auto simp: owners_def drop_chunk_def)
  have cin: "c \<in> owners h (cdata x)" using x by (auto simp: owners_def)
  have dx: "cdata x = NULL \<or> cdata x \<in> dom (datas h)" using D(4) [OF x] by auto
  have rf: "0 < d \<and> d < fresh h \<and> dref y = int (card (owners ?h d))" if y: "datas ?h d = Some y" for d y
  proof (cases "d = cdata x")
    case True
    then obtain z where z: "datas h d = Some z" "y = z\<lparr>dref := dref z - 1\<rparr>" "dref z \<noteq> 1"
      using y by (auto simp: drop_chunk_def drop_ref_def split: option.splits if_splits)
    have "d \<noteq> NULL" using D(5) [OF z(1)] by auto
    then have "card (owners ?h d) = card (owners h d) - 1"
      using cin True ow by simp
    moreover have "card (owners h d) \<noteq> 0" using cin True finite_owners [OF ok] by auto
    ultimately show ?thesis using D(5) [OF z(1)] z(2) by auto
  next
    case False
    then have yh: "datas h d = Some y" using y by (simp add: drop_chunk_def drop_ref_other)
    then have "d \<noteq> NULL" using D(5) by auto
    moreover have "c \<notin> owners h d" using x False by (auto simp: owners_def)
    ultimately show ?thesis using D(5) [OF yh] ow by simp
  qed
  have keep: "cdata y \<in> dom (datas ?h)" if ay: "a \<noteq> c" "chunks h a = Some y" "cdata y \<noteq> NULL" for a y
  proof (cases "cdata y = cdata x")
    case True
    obtain z where z: "datas h (cdata x) = Some z" using dx True ay by auto
    have "a \<in> owners h (cdata x)" using ay True by (auto simp: owners_def)
    then have "{a, c} \<subseteq> owners h (cdata x)" using cin by auto
    then have "card {a, c} \<le> card (owners h (cdata x))" using finite_owners [OF ok] by (rule card_mono [rotated])
    then have "dref z \<noteq> 1" using D(5) [OF z] ay(1) by auto
    then show ?thesis using z True by (auto simp: drop_chunk_def drop_ref_def)
  next
    case False
    then show ?thesis using D(4) [OF ay(2)] ay(3) by (auto simp: drop_chunk_def drop_ref_other domIff)
  qed
  have cks: "chunks ?h a = Some y \<Longrightarrow> a = c \<and> cref y = cref x - 1 \<and> cref x \<noteq> 1 \<and> cdata y = NULL \<or> a \<noteq> c \<and> chunks h a = Some y" for a y
    by (auto simp: drop_chunk_def split: if_splits)
  show ?thesis
    unfolding heap_ok_def
  proof (intro conjI allI impI ballI)
    show "finite (dom (chunks ?h))" using D(1) by (auto simp: drop_chunk_def)
    show "dom (links ?h) = dom (chunks ?h)" using D(2) lk x by (auto simp: drop_chunk_def)
    show "0 < fresh ?h" using D(3) by simp
    show "0 < a" "a < fresh ?h" if "a \<in> dom (chunks ?h) \<union> dom (datas ?h)" for a
      using that cks [of a] D(4) [of a] rf [of a] D(4) [OF x] by auto
    show "1 \<le> cref y" if "chunks ?h a = Some y" for a y
      using cks [OF that] D(4) [of a y] D(4) [OF x] by auto
    show "cdata y \<in> dom (datas ?h)" if "chunks ?h a = Some y" "cdata y \<noteq> NULL" for a y
      using cks [OF that(1)] keep that(2) by auto
  qed (use rf in auto)
qed

text \<open>The chunks outside \<open>C\<close> and the blocks they refer to are kept (their links may change).\<close>

definition data_frame :: "addr set \<Rightarrow> vheap \<Rightarrow> vheap \<Rightarrow> bool" where
  "data_frame C h h' \<longleftrightarrow>
     (\<forall>c. c \<notin> C \<longrightarrow> c < fresh h \<longrightarrow> chunks h' c = chunks h c) \<and>
     (\<forall>c x. c \<notin> C \<longrightarrow> chunks h c = Some x \<longrightarrow> cdata x \<noteq> NULL \<longrightarrow> kind h' (cdata x) = kind h (cdata x))"

lemma data_frame_frame_off:
  "data_frame C h h' \<Longrightarrow> C \<subseteq> S \<Longrightarrow> (\<And>c. c \<notin> S \<Longrightarrow> c < fresh h \<Longrightarrow> links h' c = links h c) \<Longrightarrow>
   fresh h \<le> fresh h' \<Longrightarrow> junk h' = junk h \<Longrightarrow> frame_off S h h'"
  unfolding data_frame_def frame_off_def by blast

lemma vbuf_data_frame:
  assumes "heap_ok h" "vbuf h b cs" "data_frame C h h'" "b \<notin> C" "set ds \<subseteq> set cs" "set ds \<inter> C = {}"
    and "seq (links h') b ds"
  shows "vbuf h' b ds" "content h' ds = content h ds" "szs h' ds = szs h ds"
proof -
  have eq: "chunks h' c = chunks h c" if "c \<in> insert b (set ds)" for c
  proof -
    have "c < fresh h" using that assms(5) vbufD(6,7) [OF assms(2)] heap_okD(4) [OF assms(1)] by blast
    moreover have "c \<notin> C" using that assms(4,6) by blast
    ultimately show ?thesis using assms(3) unfolding data_frame_def by blast
  qed
  have wf: "\<exists>x. chunks h c = Some x \<and> chunk_wf h x \<and> kind h' (cdata x) = kind h (cdata x)"
    if c: "c \<in> set ds" for c
  proof -
    obtain x where x: "chunks h c = Some x" "chunk_wf h x" using vbufD(7) [OF assms(2)] c assms(5) by blast
    then have "cdata x \<noteq> NULL" by (simp add: chunk_wf_def)
    moreover have "c \<notin> C" using c assms(6) by blast
    ultimately show ?thesis using assms(3) x unfolding data_frame_def by blast
  qed
  have "\<exists>x. chunks h' c = Some x \<and> chunk_wf h' x" if c: "c \<in> set ds" for c
  proof -
    obtain x where x: "chunks h c = Some x" "chunk_wf h x" "kind h' (cdata x) = kind h (cdata x)"
      using wf [OF c] by blast
    then have "chunk_wf h' x" using chunk_wf_cong by blast
    then show ?thesis using x(1) eq [of c] c by simp
  qed
  then show "vbuf h' b ds"
    using vbufD(6) [OF assms(2)] eq [of b] assms(7) by (simp add: vbuf_def)
  show "content h' ds = content h ds"
  proof (rule content_cong, rule chunk_bytes_cong)
    fix c assume c: "c \<in> set ds"
    show "chunks h' c = chunks h c" using eq c by simp
    show "kind h' (cdata x) = kind h (cdata x)" if "chunks h c = Some x" for x
      using wf [OF c] that by auto
  qed
  show "szs h' ds = szs h ds" by (rule szs_cong) (use eq in \<open>simp add: csz_def\<close>)
qed

lemma drop_chunk_data_frame:
  assumes ok: "heap_ok h" and x: "chunks h c = Some x"
  shows "data_frame {c} h (drop_chunk h c x lk)"
proof -
  have "kind (drop_chunk h c x lk) (cdata y) = kind h (cdata y)"
    if a: "a \<noteq> c" "chunks h a = Some y" "cdata y \<noteq> NULL" for a y
  proof (cases "cdata y = cdata x")
    case True
    obtain z where z: "datas h (cdata x) = Some z" using heap_okD(4) [OF ok a(2)] a(3) True by auto
    have "{a, c} \<subseteq> owners h (cdata x)" using a True x by (auto simp: owners_def)
    then have "card {a, c} \<le> card (owners h (cdata x))" using finite_owners [OF ok] by (rule card_mono [rotated])
    then have "dref z \<noteq> 1" using heap_okD(5) [OF ok z] a(1) by auto
    then show ?thesis using z True by (simp add: kind_def drop_chunk_def drop_ref_def)
  next
    case False
    then show ?thesis by (simp add: kind_def drop_chunk_def drop_ref_other)
  qed
  then show ?thesis by (auto simp: data_frame_def drop_chunk_def)
qed

text \<open>Clearing a chunk of a buffer takes it out and keeps everything else.\<close>

lemma vbuf_clear_chunk:
  assumes ok: "heap_ok h" and b: "vbuf h b (xs @ c # ys)" and x: "chunks h c = Some x"
  obtains lk where "vbuffer_chunk_clear h c = Some (drop_chunk h c x lk)"
    "heap_ok (drop_chunk h c x lk)" "vbuf (drop_chunk h c x lk) b (xs @ ys)"
    "content (drop_chunk h c x lk) (xs @ ys) = content h (xs @ ys)"
    "frame_off (insert b (set (xs @ c # ys))) h (drop_chunk h c x lk)"
proof -
  let ?h = "\<lambda>lk. drop_chunk h c x lk"
  have s: "seq (links h) b (xs @ c # ys)" using vbufD(1) [OF b] .
  obtain lk where lk: "list2_erase (links h) c = Some (hd (ys @ [b]), lk)" "seq lk b (xs @ ys)" "detached lk c"
    "same_off (insert b (set (xs @ c # ys))) (links h) lk" "dom lk = dom (links h)"
    using s by (rule seq_erase)
  have nn: "hd (ys @ [b]) \<noteq> NULL" "last (b # xs) \<noteq> NULL"
    using seq_not_null [OF s] by (cases ys; cases xs rule: rev_cases; auto)+
  have cd: "c \<in> dom (links h)" using seq_dom [OF s] by auto
  obtain e where e: "links h c = Some e" "lnext e \<noteq> NULL" "lprev e \<noteq> NULL"
    using seq_next [OF s] seq_prev [OF s] nn by (auto simp: list2_next_def list2_prev_def bind_Some_iff)
  have cl: "vbuffer_chunk_clear h c = Some (?h lk)"
    by (rule vbuffer_chunk_clear_eq [OF ok x e(1)]) (use e lk in auto)
  have ok': "heap_ok (?h lk)" by (rule heap_ok_drop_chunk [OF ok x lk(5)])
  have cn: "c \<notin> insert b (set (xs @ ys))" using seq_distinct [OF s] by auto
  have df: "data_frame {c} h (?h lk)" by (rule drop_chunk_data_frame [OF ok x])
  have sq: "seq (links (?h lk)) b (xs @ ys)"
  proof -
    have "seq (lk(c := None)) b (xs @ ys) = seq lk b (xs @ ys)" by (rule seq_frame) (use cn in auto)
    then show ?thesis using lk(2) by (simp add: drop_chunk_def)
  qed
  note v = vbuf_data_frame [OF ok b df _ _ _ sq]
  have fo: "frame_off (insert b (set (xs @ c # ys))) h (?h lk)"
  proof (rule data_frame_frame_off [OF df])
    show "links (?h lk) a = links h a" if "a \<notin> insert b (set (xs @ c # ys))" for a
      using same_offD [OF lk(4) that] that by (auto simp: drop_chunk_def)
  qed auto
  show ?thesis
    by (rule that [OF cl ok' _ _ fo]) (use v cn in auto)
qed

section \<open>Walking over a buffer\<close>

lemma vbuf_chunk:
  "vbuf h b (xs @ c # ys) \<Longrightarrow> \<exists>x. chunks h c = Some x \<and> chunk_wf h x \<and> \<not> f_end (cflags x) \<and> csz h c = csize x"
  using vbufD(7) [of h b "xs @ c # ys" c] by (auto simp: chunk_wf_def csz_def)

lemma vbuf_end: "vbuf h b cs \<Longrightarrow> \<exists>e. chunks h b = Some e \<and> f_end (cflags e) \<and> f_ctl (cflags e) \<and> csize e = 0"
  using vbufD(6) [of h b cs] by (auto simp: end_wf_def)

lemma vbuf_next:
  assumes "vbuf h b (xs @ c # ys)"
  shows "vbuffer_chunk_next h c = Some (hd (ys @ [b]))"
proof -
  obtain x where "chunks h c = Some x" "\<not> f_end (cflags x)" using vbuf_chunk [OF assms] by blast
  moreover have "c \<noteq> NULL" using vbufD(3) [OF assms] by auto
  ultimately show ?thesis using seq_next [OF vbufD(1) [OF assms]] by (simp add: vbuffer_chunk_next_def)
qed

lemma vbuf_next_end: "vbuf h b cs \<Longrightarrow> vbuffer_chunk_next h b = Some NULL"
  using vbuf_end [of h b cs] vbufD(2) [of h b cs] by (auto simp: vbuffer_chunk_next_def)

lemma vbuf_begin: "vbuf h b cs \<Longrightarrow> vbuffer_chunk_begin h b = Some (hd (cs @ [b]))"
  using seq_begin [of "links h" b cs] vbufD(1,2) [of h b cs]
  by (simp add: vbuffer_chunk_begin_def list2_begin_def)

lemma clear_loop_ok:
  "heap_ok h \<Longrightarrow> vbuf h b cs \<Longrightarrow>
   \<exists>h'. clear_loop h (hd (cs @ [b])) = Some h' \<and> heap_ok h' \<and> vbuf h' b [] \<and>
     frame_off (insert b (set cs)) h h' \<and> budget h' = budget h \<and> fresh h' = fresh h \<and>
     chunks h' b = chunks h b \<and> dom (datas h') \<subseteq> dom (datas h) \<and>
     (\<forall>d. owners h d \<noteq> {} \<longrightarrow> owners h d \<subseteq> set cs \<longrightarrow> d \<noteq> NULL \<longrightarrow> d \<notin> dom (datas h')) \<and>
     (\<forall>c x. c \<in> set cs \<longrightarrow> chunks h c = Some x \<longrightarrow> cref x = 1 \<longrightarrow> chunks h' c = None)"
proof (induction cs arbitrary: h)
  case Nil
  then have v: "vbuf h b []" by simp
  obtain e where "chunks h b = Some e" "f_end (cflags e)" using vbuf_end [OF v] by blast
  then have "clear_loop h b = Some h" by (subst clear_loop.simps) simp
  with Nil show ?case by auto
next
  case (Cons c cs)
  note ok = Cons.prems(1) and v = Cons.prems(2)
  obtain x where x: "chunks h c = Some x" "\<not> f_end (cflags x)"
    using vbuf_chunk [of h b "[]" c cs] v by auto
  obtain lk where c1: "vbuffer_chunk_clear h c = Some (drop_chunk h c x lk)"
    "heap_ok (drop_chunk h c x lk)" "vbuf (drop_chunk h c x lk) b ([] @ cs)"
    "frame_off (insert b (set ([] @ c # cs))) h (drop_chunk h c x lk)"
    using vbuf_clear_chunk [OF ok _ x(1), of b "[]" cs] v by auto
  let ?h = "drop_chunk h c x lk"
  have nb: "c \<noteq> b" "c \<notin> set cs" using vbufD(4,5) [OF v] by auto
  obtain h' where h': "clear_loop ?h (hd (cs @ [b])) = Some h'" "heap_ok h'" "vbuf h' b []"
    "frame_off (insert b (set cs)) ?h h'" "budget h' = budget ?h" "fresh h' = fresh ?h"
    "chunks h' b = chunks ?h b" "dom (datas h') \<subseteq> dom (datas ?h)"
    "\<forall>d. owners ?h d \<noteq> {} \<longrightarrow> owners ?h d \<subseteq> set cs \<longrightarrow> d \<noteq> NULL \<longrightarrow> d \<notin> dom (datas h')"
    "\<forall>a y. a \<in> set cs \<longrightarrow> chunks ?h a = Some y \<longrightarrow> cref y = 1 \<longrightarrow> chunks h' a = None"
    using Cons.IH [OF c1(2)] c1(3) by auto
  have nx: "vbuffer_chunk_next h c = Some (hd (cs @ [b]))" using vbuf_next [of h b "[]" c cs] v by simp
  have step: "clear_loop h (hd ((c # cs) @ [b])) = Some h'"
    using x nx c1(1) h'(1) by (subst clear_loop.simps) simp
  have fr: "frame_off (insert b (set (c # cs))) h h'"
    by (rule frame_off_trans [OF ok _ h'(4)]) (use c1(4) in auto)
  have dsub: "dom (datas ?h) \<subseteq> dom (datas h)"
    by (auto simp: drop_chunk_def drop_ref_def split: option.splits if_splits)
  have freed: "d \<notin> dom (datas h')" if d: "owners h d \<noteq> {}" "owners h d \<subseteq> set (c # cs)" "d \<noteq> NULL" for d
  proof (cases "owners h d = {c}")
    case True
    then have "c \<in> owners h d" by simp
    then have "cdata x = d" using x(1) by (simp add: owners_def)
    moreover have "dref y = 1" if "datas h d = Some y" for y
      using heap_okD(5) [OF ok that] True by simp
    ultimately have "datas ?h d = None" by (auto simp: drop_chunk_def drop_ref_def split: option.splits)
    then show ?thesis using h'(8) by auto
  next
    case False
    have "owners ?h d = owners h d - {c}" using d(3) x(1) by (auto simp: owners_def drop_chunk_def)
    then have "owners ?h d \<noteq> {}" "owners ?h d \<subseteq> set cs" using d False by auto
    then show ?thesis using h'(9) d(3) by blast
  qed
  have gone: "chunks h' a = None" if a: "a \<in> set (c # cs)" "chunks h a = Some y" "cref y = 1" for a y
  proof (cases "a = c")
    case True
    then have "chunks ?h c = None" using a x(1) by (simp add: drop_chunk_def)
    moreover have "c < fresh ?h" "c \<notin> insert b (set cs)" using heap_okD(4) [OF ok x(1)] nb by auto
    ultimately show ?thesis using h'(4) True by (simp add: frame_off_def)
  next
    case False
    then have "chunks ?h a = Some y" using a by (simp add: drop_chunk_def)
    then show ?thesis using h'(10) a False by simp
  qed
  have "chunks ?h b = chunks h b" using nb by (simp add: drop_chunk_def)
  then show ?case
    using step h'(2,3,5,6,7,8) fr dsub freed gone by (intro exI [of _ h']) simp
qed

text \<open>
  \<open>vbuffer_clear\<close> empties and frees a buffer: it returns, keeps the heap invariant and everything
  outside the buffer, and releases every block that only the buffer refers to.
\<close>

lemma vbuffer_clear_ok:
  assumes ok: "heap_ok h" and v: "vbuf h b cs"
  obtains h' where "vbuffer_clear h b = Some (NULL, h')" "heap_ok h'"
    "frame_off (insert b (set cs)) h h'" "budget h' = budget h" "fresh h' = fresh h"
    "\<forall>d. owners h d \<noteq> {} \<longrightarrow> owners h d \<subseteq> set cs \<longrightarrow> d \<noteq> NULL \<longrightarrow> d \<notin> dom (datas h')"
    "\<forall>c x. c \<in> insert b (set cs) \<longrightarrow> chunks h c = Some x \<longrightarrow> cref x = 1 \<longrightarrow> chunks h' c = None"
proof -
  obtain h1 where h1: "clear_loop h (hd (cs @ [b])) = Some h1" "heap_ok h1" "vbuf h1 b []"
    "frame_off (insert b (set cs)) h h1" "budget h1 = budget h" "fresh h1 = fresh h"
    "chunks h1 b = chunks h b" "dom (datas h1) \<subseteq> dom (datas h)"
    "\<forall>d. owners h d \<noteq> {} \<longrightarrow> owners h d \<subseteq> set cs \<longrightarrow> d \<noteq> NULL \<longrightarrow> d \<notin> dom (datas h1)"
    "\<forall>c x. c \<in> set cs \<longrightarrow> chunks h c = Some x \<longrightarrow> cref x = 1 \<longrightarrow> chunks h1 c = None"
    using clear_loop_ok [OF ok v] by blast
  obtain e where e: "chunks h1 b = Some e" using vbuf_end [OF h1(3)] by blast
  have s: "circ (links h1) [b]" using vbufD(1) [OF h1(3)] by (simp add: seq_def)
  then obtain le where le: "links h1 b = Some le" "lnext le = b" "lprev le = b" "b \<noteq> NULL"
    by (auto simp: circ_Cons nxt_def prv_def split: option.splits)
  let ?lk = "(links h1)(b \<mapsto> \<lparr>lprev = NULL, lnext = NULL\<rparr>)"
  have er: "list2_erase (links h1) b = Some (b, ?lk)"
    using le by (cases le) (simp add: list2_erase_def list2_next_def list2_prev_def set_next_def set_prev_def)
  let ?h = "drop_chunk h1 b e ?lk"
  have cl: "vbuffer_chunk_clear h1 b = Some ?h"
    by (rule vbuffer_chunk_clear_eq [OF h1(2) e le(1)]) (use le er in \<open>auto simp: detached_def\<close>)
  have ok': "heap_ok ?h" by (rule heap_ok_drop_chunk [OF h1(2) e]) (use le in auto)
  have fr1: "frame_off {b} h1 ?h"
    by (rule data_frame_frame_off [OF drop_chunk_data_frame [OF h1(2) e]])
      (auto simp: drop_chunk_def)
  have fr: "frame_off (insert b (set cs)) h ?h"
    by (rule frame_off_trans [OF ok h1(4) fr1]) auto
  have dat: "dom (datas ?h) \<subseteq> dom (datas h1)"
    by (auto simp: drop_chunk_def drop_ref_def split: option.splits if_splits)
  have gone: "chunks ?h c = None" if "c \<in> insert b (set cs)" "chunks h c = Some x" "cref x = 1" for c x
    using that h1(7,10) e by (cases "c = b") (auto simp: drop_chunk_def)
  have vc: "vbuffer_clear h b = Some (NULL, ?h)"
    using vbufD(2) [OF v] vbuf_begin [OF v] h1(1) cl by (simp add: vbuffer_clear_def vbuffer_isvalid_def)
  have rel: "\<forall>d. owners h d \<noteq> {} \<longrightarrow> owners h d \<subseteq> set cs \<longrightarrow> d \<noteq> NULL \<longrightarrow> d \<notin> dom (datas ?h)"
    using h1(9) dat by blast
  show ?thesis
    by (rule that [OF vc ok' fr _ _ rel]) (use h1(5,6) gone in auto)
qed

lemma detached_after_clear:
  assumes ok: "heap_ok h" and b: "vbuf h b (xs @ c # ys)" and x: "chunks h c = Some x"
    and cl: "vbuffer_chunk_clear h c = Some (drop_chunk h c x lk)" and "cref x \<noteq> 1"
  shows "detached (links (drop_chunk h c x lk)) c"
proof -
  have s: "seq (links h) b (xs @ c # ys)" using vbufD(1) [OF b] .
  obtain lk' where lk: "list2_erase (links h) c = Some (hd (ys @ [b]), lk')" "detached lk' c"
    using s by (rule seq_erase)
  have "NULL \<notin> insert b (set ys)" "NULL \<notin> insert b (set xs)" using seq_not_null [OF s] by auto
  then have nn: "hd (ys @ [b]) \<noteq> NULL" "last (b # xs) \<noteq> NULL"
    using hd_snoc_in [of ys b] last_Cons_in [of b xs] by metis+
  obtain e where e: "links h c = Some e" "lnext e \<noteq> NULL" "lprev e \<noteq> NULL"
    using seq_next [OF s] seq_prev [OF s] nn by (auto simp: list2_next_def list2_prev_def bind_Some_iff)
  have "vbuffer_chunk_clear h c = Some (drop_chunk h c x lk')"
    by (rule vbuffer_chunk_clear_eq [OF ok x e(1)]) (use e lk in auto)
  then have "drop_chunk h c x lk = drop_chunk h c x lk'" using cl by simp
  then show ?thesis using lk(2) assms(5) by (metis drop_chunk_links)
qed

end
