(* ===== verification/VBuffer_Buffer.thy ===== *)
theory VBuffer_Buffer
  imports VBuffer_Chunk
begin

text \<open>
  Correctness of the buffer operations of \<open>VBuffer_Chunk\<close>: creation, size, appending and clearing,
  stated on the bytes a buffer denotes.
\<close>

section \<open>Creating data blocks\<close>

definition add_data :: "vheap \<Rightarrow> data_kind \<Rightarrow> vheap" where
  "add_data h k = h\<lparr>datas := (datas h)(fresh h \<mapsto> \<lparr>dref = 0, dkind = k\<rparr>),
     fresh := Suc (fresh h), budget := budget h - 1\<rparr>"

lemma add_data_simps [simp]:
  "chunks (add_data h k) = chunks h"
  "links (add_data h k) = links h"
  "datas (add_data h k) = (datas h)(fresh h \<mapsto> \<lparr>dref = 0, dkind = k\<rparr>)"
  "fresh (add_data h k) = Suc (fresh h)"
  "budget (add_data h k) = budget h - 1"
  "junk (add_data h k) = junk h"
  "errs (add_data h k) = errs h"
  "kind (add_data h k) = (kind h)(fresh h \<mapsto> k)"
  by (simp_all add: add_data_def kind_def fun_eq_iff)

lemma heap_ok_add_data:
  assumes ok: "heap_ok h"
  shows "heap_ok (add_data h k)"
proof -
  note D = heap_okD [OF ok]
  have ow: "owners (add_data h k) = owners h" by (simp add: owners_def fun_eq_iff)
  have nf: "owners h (fresh h) = {}" using D(4,7) D(3) by (fastforce simp: owners_def)
  show ?thesis
    unfolding heap_ok_def ow
  proof (intro conjI allI impI ballI)
    show "0 < a" "a < fresh (add_data h k)"
      if "a \<in> dom (chunks (add_data h k)) \<union> dom (datas (add_data h k))" for a
      using that D(3) D(4) [of a] D(5) [of a] by (auto simp: less_Suc_eq split: if_splits)
    show "1 \<le> cref x" if "chunks (add_data h k) c = Some x" for c x using that D(4) [of c x] by simp
    show "cdata x \<in> dom (datas (add_data h k))" if "chunks (add_data h k) c = Some x" "cdata x \<noteq> NULL" for c x
      using that D(4) [of c x] by auto
    show "dref x = int (card (owners h d))" if "datas (add_data h k) d = Some x" for d x
      using that D(5) [of d x] nf by (auto split: if_splits)
  qed (use D(1-3) in simp_all)
qed

lemma frame_off_add_data:
  assumes "heap_ok h"
  shows "frame_off S h (add_data h k)"
proof -
  have "cdata x \<noteq> fresh h" if "chunks h c = Some x" "cdata x \<noteq> NULL" for c x
    using heap_okD(4) [OF assms that(1)] that(2) heap_okD(7) [OF assms] by auto
  then show ?thesis by (auto simp: frame_off_def)
qed

lemma vbuffer_data_basic_ok:
  assumes "heap_ok h" "0 < budget h" "sz < 2 ^ 32"
  shows "vbuffer_data_basic h sz zero =
    Some (fresh h, add_data h (Data_basic (if zero then replicate sz 0 else map (junk h) [0..<sz])))"
  using heap_okD(3) [OF assms(1)] assms(2,3)
  by (simp add: vbuffer_data_basic_def malloc_simps sizeof_vbuffer_data_basic_def add_data_def)

lemma new_ctl_ok:
  assumes "heap_ok h" "0 < budget h"
  shows "new_ctl h k = (fresh h, add_data h k)"
  using heap_okD(3) [OF assms(1)] assms(2) by (simp add: new_ctl_def malloc_simps add_data_def)

text \<open>Writing to a block keeps the heap invariant.\<close>

lemma heap_ok_upd_data:
  assumes ok: "heap_ok h" and "datas h d = Some y" "dref y' = dref y"
  shows "heap_ok (h\<lparr>datas := (datas h)(d \<mapsto> y')\<rparr>)"
proof -
  have ow: "owners (h\<lparr>datas := (datas h)(d \<mapsto> y')\<rparr>) = owners h" by (simp add: owners_def fun_eq_iff)
  have dm: "dom ((datas h)(d \<mapsto> y')) = dom (datas h)" using assms(2) by auto
  show ?thesis
    using ok assms(2,3) unfolding heap_ok_def ow by (simp add: dm del: dom_fun_upd)
qed

section \<open>Creating buffers\<close>

lemma vbuffer_create_from_data_ok:
  assumes ok: "heap_ok h" and "2 \<le> budget h" "block h d = Some bs" "off + len \<le> length bs" "off + len < 2 ^ 32"
  obtains b c h' where "vbuffer_create_from_data h buffer d off len = Some (True, b, h')"
    "heap_ok h'" "vbuf h' b [c]" "content h' [c] = take len (drop off bs)"
    "frame_off {} h h'" "budget h' = budget h - 2" "fresh h \<le> b" "fresh h \<le> c"
    "fresh h' = fresh h + 2" "chunks h' c = Some (data_chunk d off len)" "chunks h' b = Some (end_chunk True)"
    "kind h' = kind h"
proof -
  let ?x = "data_chunk d off len"
  let ?h1 = "add_chunk h ?x free_elem" and ?c = "fresh h"
  let ?h2 = "add_chunk ?h1 (end_chunk True) \<lparr>lprev = fresh ?h1, lnext = fresh ?h1\<rparr>" and ?b = "Suc (fresh h)"
  have dd: "d \<in> dom (datas h)" using assms(3) by (auto simp: block_def split: option.splits)
  have c: "vbuffer_chunk_create h d off len = Some (?c, ?h1)"
    by (rule vbuffer_chunk_create_ok) (use assms dd in auto)
  have ok1: "heap_ok ?h1" by (rule heap_ok_add_chunk [OF ok]) (use dd in auto)
  have e: "vbuffer_chunk_create_end ?h1 True = Some (?b, ?h2)"
    using vbuffer_chunk_create_end_ok [OF ok1, of True] assms(2) by simp
  have ok2: "heap_ok ?h2" by (rule heap_ok_add_chunk [OF ok1]) auto
  have v2: "vbuf ?h2 ?b []" using vbuf_new_end [OF ok1, of True] by simp
  have dn: "d \<noteq> NULL" using dd heap_okD(10) [OF ok] by (metis domIff)
  have k2: "kind ?h2 = kind h" by simp
  have x2: "chunks ?h2 ?c = Some ?x" by simp
  have wf: "chunk_wf ?h2 ?x" using assms(3-5) dn by (simp add: chunk_wf_def block_kind k2)
  have det: "detached (links ?h2) ?c" using heap_okD(3) [OF ok] by (simp add: detached_def)
  obtain lk where lk: "list2_insert (links ?h2) (hd ([] @ [?b])) ?c = Some (?c, lk)"
    "vbuf (?h2\<lparr>links := lk\<rparr>) ?b ([] @ ?c # [])" "heap_ok (?h2\<lparr>links := lk\<rparr>)"
    "frame_off (insert ?c (insert ?b (set ([] @ [])))) ?h2 (?h2\<lparr>links := lk\<rparr>)"
    by (rule vbuf_insert [OF ok2, of ?b "[]" "[]" ?c ?x]) (use v2 det x2 wf in auto)
  let ?h3 = "?h2\<lparr>links := lk\<rparr>"
  have fr: "frame_off {} h ?h3"
  proof (rule frame_off_trans [OF ok _ lk(4)])
    show "frame_off {} h ?h2"
      by (rule frame_off_trans [OF ok frame_off_add_chunk frame_off_add_chunk [where S = "{}"]]) simp
  qed auto
  have ct: "content ?h3 [?c] = take len (drop off bs)"
    using assms(3) by (simp add: chunk_bytes_def x2 block_kind k2)
  show ?thesis
    by (rule that [of ?b ?h3 ?c])
      (use c e lk fr ct assms(2) heap_okD(3) [OF ok] in
        \<open>simp_all add: vbuffer_create_from_data_def vbuffer_init_end_def vbuffer_chunk_end_def k2\<close>)
qed

lemma vbuffer_create_new_ok:
  assumes ok: "heap_ok h" and "3 \<le> budget h" "sz < 2 ^ 32"
  obtains b c h' where "vbuffer_create_new h buffer sz zero = Some (True, b, h')"
    "heap_ok h'" "vbuf h' b [c]" "content h' [c] = (if zero then replicate sz 0 else map (junk h) [0..<sz])"
    "frame_off {} h h'" "budget h' = budget h - 3" "fresh h < b" "fresh h < c"
    "fresh h' = fresh h + 3" "chunks h' c = Some (data_chunk (fresh h) 0 sz)" "chunks h' b = Some (end_chunk True)"
proof -
  let ?bs = "if zero then replicate sz 0 else map (junk h) [0..<sz]"
  let ?h1 = "add_data h (Data_basic ?bs)"
  have d: "vbuffer_data_basic h sz zero = Some (fresh h, ?h1)"
    using vbuffer_data_basic_ok [OF ok _ assms(3)] assms(2) by simp
  have ok1: "heap_ok ?h1" by (rule heap_ok_add_data [OF ok])
  have bl: "block ?h1 (fresh h) = Some ?bs" by (simp add: block_kind)
  have bd: "2 \<le> budget ?h1" "0 + sz \<le> length ?bs" "0 + sz < 2 ^ 32" using assms(2,3) by simp_all
  obtain b c h' where r: "vbuffer_create_from_data ?h1 buffer (fresh h) 0 sz = Some (True, b, h')"
    "heap_ok h'" "vbuf h' b [c]" "content h' [c] = take sz (drop 0 ?bs)"
    "frame_off {} ?h1 h'" "budget h' = budget ?h1 - 2" "fresh ?h1 \<le> b" "fresh ?h1 \<le> c"
    "fresh h' = fresh ?h1 + 2" "chunks h' c = Some (data_chunk (fresh h) 0 sz)" "chunks h' b = Some (end_chunk True)"
    using ok1 bd(1) bl bd(2,3) by (rule vbuffer_create_from_data_ok)
  have fr: "frame_off {} h h'"
    by (rule frame_off_trans [OF ok frame_off_add_data [OF ok] r(5)]) simp
  show ?thesis
    by (rule that [of b h' c])
      (use d r fr heap_okD(3) [OF ok] in \<open>simp_all add: vbuffer_create_new_def\<close>)
qed

lemma vbuffer_create_from_ok:
  assumes ok: "heap_ok h" and "3 \<le> budget h" "length str < 2 ^ 32"
  obtains b c h' where "vbuffer_create_from h buffer str = Some (True, b, h')"
    "heap_ok h'" "vbuf h' b [c]" "content h' [c] = str"
    "frame_off {} h h'" "budget h' = budget h - 3" "fresh h < b" "fresh h < c"
    "chunks h' c = Some (data_chunk (fresh h) 0 (length str))" "chunks h' b = Some (end_chunk True)"
proof -
  let ?h1 = "add_data h (Data_basic (map (junk h) [0..<length str]))"
  let ?h2 = "?h1\<lparr>datas := (datas ?h1)(fresh h \<mapsto> \<lparr>dref = 0, dkind = Data_basic str\<rparr>)\<rparr>"
  have d: "vbuffer_data_basic h (length str) False = Some (fresh h, ?h1)"
    using vbuffer_data_basic_ok [OF ok _ assms(3), of False] assms(2) by simp
  have ok1: "heap_ok ?h1" by (rule heap_ok_add_data [OF ok])
  have st: "store ?h1 (fresh h, 0) str = Some ?h2"
    by (simp add: store_def block_kind)
  have ok2: "heap_ok ?h2" by (rule heap_ok_upd_data [OF ok1, of _ "\<lparr>dref = 0, dkind = Data_basic (map (junk h) [0..<length str])\<rparr>"]) simp_all
  have k2: "kind ?h2 = (kind h)(fresh h \<mapsto> Data_basic str)" by (simp add: kind_def fun_eq_iff)
  have bl: "block ?h2 (fresh h) = Some str" unfolding block_kind k2 by simp
  have bd: "2 \<le> budget ?h2" "0 + length str \<le> length str" "0 + length str < 2 ^ 32"
    using assms(2,3) by simp_all
  obtain b c h' where r: "vbuffer_create_from_data ?h2 buffer (fresh h) 0 (length str) = Some (True, b, h')"
    "heap_ok h'" "vbuf h' b [c]" "content h' [c] = take (length str) (drop 0 str)"
    "frame_off {} ?h2 h'" "budget h' = budget ?h2 - 2" "fresh ?h2 \<le> b" "fresh ?h2 \<le> c"
    "fresh h' = fresh ?h2 + 2" "chunks h' c = Some (data_chunk (fresh h) 0 (length str))" "chunks h' b = Some (end_chunk True)"
    using ok2 bd(1) bl bd(2,3) by (rule vbuffer_create_from_data_ok)
  have fr2: "frame_off {} h ?h2"
  proof -
    have "frame_off {} h ?h1" by (rule frame_off_add_data [OF ok])
    moreover have "kind ?h2 (cdata x) = kind ?h1 (cdata x)" if "chunks h a = Some x" "cdata x \<noteq> NULL" for a x
      using heap_okD(4) [OF ok that(1)] that(2) heap_okD(7) [OF ok] k2 by auto
    ultimately show ?thesis by (simp add: frame_off_def)
  qed
  have fr: "frame_off {} h h'" by (rule frame_off_trans [OF ok fr2 r(5)]) simp
  show ?thesis
    by (rule that [of b h' c])
      (use d st r fr heap_okD(3) [OF ok] in \<open>simp_all add: vbuffer_create_from_def\<close>)
qed

section \<open>Size\<close>

lemma size_loop_ok:
  "vbuf h b (xs @ ys) \<Longrightarrow> size_loop h (hd (ys @ [b])) n = Some (to_u64 (n + szs h ys))"
proof (induction ys arbitrary: xs n)
  case Nil
  then have v: "vbuf h b xs" by simp
  then show ?case
    using vbuf_end [OF v] vbuf_next_end [OF v] vbufD(2) [OF v]
    by (subst size_loop.simps, auto) (subst size_loop.simps, simp)
next
  case (Cons y ys)
  obtain x where x: "chunks h y = Some x" "csz h y = csize x" using vbuf_chunk [OF Cons.prems] by blast
  have nx: "vbuffer_chunk_next h y = Some (hd (ys @ [b]))" by (rule vbuf_next [OF Cons.prems])
  have "y \<noteq> NULL" using vbufD(3) [OF Cons.prems] by auto
  moreover have "size_loop h (hd (ys @ [b])) (to_u64 (n + csize x)) =
      Some (to_u64 (to_u64 (n + csize x) + szs h ys))"
    using Cons.IH [of "xs @ [y]" "to_u64 (n + csize x)"] Cons.prems by simp
  moreover have "to_u64 (to_u64 (n + csize x) + szs h ys) = to_u64 (n + (csz h y + szs h ys))"
    using x(2) by (simp add: to_u64_def mod_add_left_eq add.assoc)
  ultimately show ?case using x nx by (subst size_loop.simps) simp
qed

lemma vbuffer_size_ok: "vbuf h b cs \<Longrightarrow> vbuffer_size h b = Some (to_u64 (length (content h cs)))"
  using size_loop_ok [of h b "[]" cs 0] vbufD(2) [of h b cs] vbuf_begin [of h b cs]
  by (simp add: vbuffer_size_def vbuffer_isvalid_def)

section \<open>Moving chunks between buffers\<close>

lemma vbuf_splice:
  assumes ok: "heap_ok h" and v: "vbuf h b (xs @ ys)" and w: "vbuf h m (us @ vs @ ws)"
    and disj: "insert b (set (xs @ ys)) \<inter> insert m (set (us @ vs @ ws)) = {}"
  obtains lk where
    "list2_insert_list (links h) (hd (ys @ [b])) (hd (vs @ ws @ [m])) (hd (ws @ [m])) = Some (hd (ys @ [b]), lk)"
    "vbuf (h\<lparr>links := lk\<rparr>) b (xs @ vs @ ys)" "vbuf (h\<lparr>links := lk\<rparr>) m (us @ ws)" "heap_ok (h\<lparr>links := lk\<rparr>)"
    "frame_off (insert b (set (xs @ ys)) \<union> insert m (set (us @ vs @ ws))) h (h\<lparr>links := lk\<rparr>)"
proof -
  obtain lk where lk:
    "list2_insert_list (links h) (hd (ys @ [b])) (hd (vs @ ws @ [m])) (hd (ws @ [m])) = Some (hd (ys @ [b]), lk)"
    "seq lk b (xs @ vs @ ys)" "seq lk m (us @ ws)"
    "same_off (insert b (set (xs @ ys)) \<union> insert m (set (us @ vs @ ws))) (links h) lk" "dom lk = dom (links h)"
    using vbufD(1) [OF v] vbufD(1) [OF w] disj by (rule seq_splice)
  have "vbuf (h\<lparr>links := lk\<rparr>) b (xs @ vs @ ys)"
    by (rule vbuf_links [OF v lk(2)]) (use vbufD(7) [OF v] vbufD(7) [OF w] in auto)
  moreover have "vbuf (h\<lparr>links := lk\<rparr>) m (us @ ws)"
    by (rule vbuf_links [OF w lk(3)]) (use vbufD(7) [OF w] in auto)
  ultimately show ?thesis
    using lk by (intro that [of lk] heap_ok_links frame_off_links ok)
qed

text \<open>Changing the flags of a chunk keeps buffers and their bytes.\<close>

definition same_shape :: "vbuffer_chunk \<Rightarrow> vbuffer_chunk \<Rightarrow> bool" where
  "same_shape x y \<longleftrightarrow> cdata y = cdata x \<and> coffset y = coffset x \<and> csize y = csize x \<and>
     f_end (cflags y) = f_end (cflags x) \<and> f_ctl (cflags y) = f_ctl (cflags x) \<and> cref y = cref x"

lemma same_shape_flags [simp]:
  "same_shape x (set_modified m x)" "same_shape x (set_writable w x)"
  by (simp_all add: same_shape_def set_modified_def set_writable_def)

lemma same_shape_upd:
  assumes "chunks h c = Some x" "same_shape x y"
  shows "chunk_bytes (h\<lparr>chunks := (chunks h)(c \<mapsto> y)\<rparr>) = chunk_bytes h"
    "content (h\<lparr>chunks := (chunks h)(c \<mapsto> y)\<rparr>) = content h"
    "csz (h\<lparr>chunks := (chunks h)(c \<mapsto> y)\<rparr>) = csz h"
    "szs (h\<lparr>chunks := (chunks h)(c \<mapsto> y)\<rparr>) = szs h"
    "vbuf (h\<lparr>chunks := (chunks h)(c \<mapsto> y)\<rparr>) b cs = vbuf h b cs"
    "heap_ok h \<Longrightarrow> heap_ok (h\<lparr>chunks := (chunks h)(c \<mapsto> y)\<rparr>)"
proof -
  let ?h = "h\<lparr>chunks := (chunks h)(c \<mapsto> y)\<rparr>"
  have s: "cdata y = cdata x" "coffset y = coffset x" "csize y = csize x"
    "f_end (cflags y) = f_end (cflags x)" "f_ctl (cflags y) = f_ctl (cflags x)" "cref y = cref x"
    using assms(2) by (simp_all add: same_shape_def)
  have bl: "block ?h = block h" by (simp add: fun_eq_iff block_kind)
  show cb: "chunk_bytes ?h = chunk_bytes h"
    using assms(1) s by (auto simp: fun_eq_iff chunk_bytes_def bl split: option.splits)
  show cz: "csz ?h = csz h" using assms(1) s by (auto simp: fun_eq_iff csz_def)
  show "content ?h = content h" by (simp add: fun_eq_iff content_def cb)
  show "szs ?h = szs h" by (simp add: fun_eq_iff szs_def cz)
  have wf: "chunk_wf ?h z = chunk_wf h z" for z by (simp add: chunk_wf_def bl)
  have sw: "chunk_wf h y = chunk_wf h x" by (simp add: chunk_wf_def s)
  have se: "end_wf y = end_wf x" by (simp add: end_wf_def s)
  show "vbuf ?h b cs = vbuf h b cs"
  proof -
    have "(\<exists>z. chunks ?h a = Some z \<and> chunk_wf ?h z) = (\<exists>z. chunks h a = Some z \<and> chunk_wf h z)"
      "(\<exists>z. chunks ?h a = Some z \<and> end_wf z) = (\<exists>z. chunks h a = Some z \<and> end_wf z)" for a
      using assms(1) sw se by (cases "a = c"; simp add: wf)+
    then show ?thesis unfolding vbuf_def by simp
  qed
  show "heap_ok ?h" if "heap_ok h"
    by (rule heap_ok_upd_chunk [OF that assms(1)]) (use s heap_okD(4) [OF that assms(1)] in auto)
qed

lemma vbuffer_append_ok:
  assumes ok: "heap_ok h" and v: "vbuf h b cs" and w: "vbuf h m ds"
    and disj: "insert b (set cs) \<inter> insert m (set ds) = {}"
  obtains h' where "vbuffer_append h b m = Some (True, h')" "heap_ok h'" "vbuf h' b (cs @ ds)" "vbuf h' m []"
    "content h' (cs @ ds) = content h cs @ content h ds"
    "frame_off (insert b (set cs) \<union> insert m (set ds)) h h'"
    "\<exists>e. chunks h' b = Some e \<and> f_modified (cflags e)"
proof -
  obtain e where e: "chunks h b = Some e" using vbuf_end [OF v] by blast
  let ?h1 = "h\<lparr>chunks := (chunks h)(b \<mapsto> set_modified True e)\<rparr>"
  note sh = same_shape_upd [OF e same_shape_flags(1) [of e True]]
  have ok1: "heap_ok ?h1" by (rule sh(6) [OF ok])
  have "vbuf ?h1 b (cs @ [])" "vbuf ?h1 m ([] @ ds @ [])"
    "insert b (set (cs @ [])) \<inter> insert m (set ([] @ ds @ [])) = {}"
    using v w disj by (simp_all add: sh(5))
  from vbuf_splice [OF ok1 this] obtain lk where lk:
    "list2_insert_list (links h) b (hd (ds @ [m])) m = Some (b, lk)"
    "vbuf (?h1\<lparr>links := lk\<rparr>) b (cs @ ds)" "vbuf (?h1\<lparr>links := lk\<rparr>) m []" "heap_ok (?h1\<lparr>links := lk\<rparr>)"
    "frame_off (insert b (set cs) \<union> insert m (set ds)) ?h1 (?h1\<lparr>links := lk\<rparr>)"
    by auto
  let ?h2 = "?h1\<lparr>links := lk\<rparr>"
  have bg: "list2_begin (links h) m = Some (hd (ds @ [m]))" by (rule seq_begin [OF vbufD(1) [OF w]])
  have em: "list2_empty lk m = Some True"
    using seq_begin [of lk m "[]"] vbufD(1) [OF lk(3)] by (simp add: list2_empty_def list2_end_def)
  have ap: "vbuffer_append h b m = Some (True, ?h2)"
    using vbufD(2) [OF v] vbufD(2) [OF w] e bg lk(1) em
    by (simp add: vbuffer_append_def vbuffer_chunk_list_def vbuffer_isvalid_def vbuffer_chunk_end_def
        vbuffer_chunk_mark_modified_def list2_end_def)
  have fr: "frame_off (insert b (set cs) \<union> insert m (set ds)) h ?h2"
    by (rule frame_off_trans [OF ok frame_off_upd_chunk lk(5)]) auto
  show ?thesis
    by (rule that [OF ap lk(4,2,3) _ fr]) (simp add: sh(2), simp add: set_modified_def)
qed

section \<open>Properties\<close>

text \<open>An empty heap in which \<open>n\<close> allocations succeed, and two buffers in it, for the witnesses.\<close>

definition empty_heap :: "nat \<Rightarrow> vheap" where
  "empty_heap n = \<lparr>links = Map.empty, chunks = Map.empty, datas = Map.empty, errs = error_init,
     fresh = 1, budget = n, junk = (\<lambda>_. 0)\<rparr>"

lemma heap_ok_empty_heap: "heap_ok (empty_heap n)"
  by (simp add: heap_ok_def empty_heap_def)

lemma two_writable_buffers:
  assumes "length u < 2 ^ 32" "length v < 2 ^ 32"
  shows "\<exists>h b c m d. heap_ok h \<and> vbuf h b [c] \<and> vbuf h m [d] \<and> {b, c} \<inter> {m, d} = {} \<and>
    content h [c] = u \<and> content h [d] = v \<and> budget h = n \<and>
    (\<exists>x. chunks h c = Some x \<and> f_writable (cflags x)) \<and> (\<exists>x. chunks h b = Some x \<and> f_writable (cflags x))"
proof -
  have e: "budget (empty_heap (n + 6)) = n + 6" "3 \<le> budget (empty_heap (n + 6))"
    by (simp_all add: empty_heap_def)
  obtain b c h1 where 1: "vbuffer_create_from (empty_heap (n + 6)) NULL u = Some (True, b, h1)"
    "heap_ok h1" "vbuf h1 b [c]" "content h1 [c] = u" "budget h1 = budget (empty_heap (n + 6)) - 3"
    "chunks h1 c = Some (data_chunk (fresh (empty_heap (n + 6))) 0 (length u))" "chunks h1 b = Some (end_chunk True)"
    using heap_ok_empty_heap e(2) assms(1) by (rule vbuffer_create_from_ok)
  have b3: "3 \<le> budget h1" using 1(5) e by simp
  obtain m d h2 where 2: "heap_ok h2" "vbuf h2 m [d]" "content h2 [d] = v" "frame_off {} h1 h2"
    "budget h2 = budget h1 - 3" "fresh h1 < m" "fresh h1 < d"
    using 1(2) b3 assms(2) by (rule vbuffer_create_from_ok)
  have "vbuf h2 b [c]" "content h2 [c] = u"
    using vbuf_frame [OF 1(2,3) 2(4)] 1(4) by simp_all
  moreover have lt: "b < fresh h1" "c < fresh h1"
    using vbufD(6,7) [OF 1(3)] heap_okD(4) [OF 1(2)] by (metis list.set_intros(1))+
  then have "{b, c} \<inter> {m, d} = {}" using 2(6,7) by auto
  moreover have "chunks h2 c = chunks h1 c" "chunks h2 b = chunks h1 b"
    using 2(4) lt by (simp_all add: frame_off_def)
  ultimately show ?thesis using 2 1(5-7) e
    by (intro exI [of _ h2] exI [of _ b] exI [of _ c] exI [of _ m] exI [of _ d]) simp
qed

lemma two_buffers:
  assumes "length u < 2 ^ 32" "length v < 2 ^ 32"
  shows "\<exists>h b c m d. heap_ok h \<and> vbuf h b [c] \<and> vbuf h m [d] \<and> {b, c} \<inter> {m, d} = {} \<and>
    content h [c] = u \<and> content h [d] = v \<and> budget h = n"
  using two_writable_buffers [OF assms, of n] by blast

text \<open>C15.  A buffer created from a string (with enough memory, and a length that fits 32 bits) holds
  exactly the bytes of the string, its size is the length of the string, and no existing chunk or
  block is touched.\<close>

theorem vbuffer_create_from_content:
  assumes "heap_ok h" "3 \<le> budget h" "length str < 2 ^ 32"
  shows "\<exists>b c h'. vbuffer_create_from h buffer str = Some (True, b, h') \<and> heap_ok h' \<and>
    vbuf h' b [c] \<and> content h' [c] = str \<and> vbuffer_size h' b = Some (length str) \<and> frame_off {} h h'"
proof -
  obtain b c h' where r: "vbuffer_create_from h buffer str = Some (True, b, h')"
    "heap_ok h'" "vbuf h' b [c]" "content h' [c] = str" "frame_off {} h h'"
    using assms by (rule vbuffer_create_from_ok)
  have "vbuffer_size h' b = Some (length str)"
    using vbuffer_size_ok [OF r(3)] r(4) assms(3) by simp
  with r show ?thesis by blast
qed

theorem vbuffer_create_from_content_witness:
  "\<exists>b c h'. vbuffer_create_from (empty_heap 3) NULL [1, 2] = Some (True, b, h') \<and> content h' [c] = [1, 2]"
  using vbuffer_create_from_content [OF heap_ok_empty_heap [of 3], of "[1, 2]" NULL]
  by (auto simp: empty_heap_def)

text \<open>C16.  Creating a buffer when memory runs out: if the block or the first chunk cannot be allocated
  the function reports \<open>memory error\<close>, returns false, leaves the buffer as it was and leaks no block.
  If only the allocation of the end chunk fails, the function does not complete: the result of
  \<open>_vbuffer_init\<close> is ignored and the missing end chunk is used.\<close>

theorem vbuffer_create_from_no_memory:
  assumes "heap_ok h" "length str < 2 ^ 32"
  shows "(budget h = 0 \<longrightarrow>
      vbuffer_create_from h buffer str = Some (False, buffer, raise_error h ''memory error'')) \<and>
    (budget h = 1 \<longrightarrow>
      (\<exists>h'. vbuffer_create_from h buffer str = Some (False, buffer, h') \<and> heap_ok h' \<and>
        datas h' = datas h \<and> chunks h' = chunks h \<and> errs h' = error ''memory error'' (errs h))) \<and>
    (budget h = 2 \<longrightarrow> vbuffer_create_from h buffer str = None)"
proof (intro conjI impI)
  note D = heap_okD [OF assms(1)]
  let ?m = "map (junk h) [0..<length str]"
  have sz: "sizeof_vbuffer_data_basic + length str < 2 ^ 64"
    using assms(2) by (simp add: sizeof_vbuffer_data_basic_def)
  show "vbuffer_create_from h buffer str = Some (False, buffer, raise_error h ''memory error'')"
    if "budget h = 0"
    using that sz by (simp add: vbuffer_create_from_def vbuffer_data_basic_def malloc_simps)
  let ?h1 = "add_data h (Data_basic ?m)"
  have d: "vbuffer_data_basic h (length str) False = Some (fresh h, ?h1)" if "0 < budget h"
    using vbuffer_data_basic_ok [OF assms(1) that assms(2), of False] by simp
  let ?h2 = "?h1\<lparr>datas := (datas h)(fresh h \<mapsto> \<lparr>dref = 0, dkind = Data_basic str\<rparr>)\<rparr>"
  have st: "store ?h1 (fresh h, 0) str = Some ?h2"
    by (simp add: store_def block_kind)
  let ?h3 = "raise_error (free_data ?h2 (fresh h)) ''memory error''"
  have undo: "(datas h)(fresh h := None) = datas h" using D(7) by (simp add: fun_eq_iff)
  have ok3: "heap_ok ?h3"
    by (rule heap_ok_cong [OF assms(1)]) (simp_all add: free_data_def undo)
  show "\<exists>h'. vbuffer_create_from h buffer str = Some (False, buffer, h') \<and> heap_ok h' \<and>
        datas h' = datas h \<and> chunks h' = chunks h \<and> errs h' = error ''memory error'' (errs h)"
    if "budget h = 1"
  proof (intro exI [of _ ?h3] conjI)
    show "vbuffer_create_from h buffer str = Some (False, buffer, ?h3)"
      using d st D(3) that
      by (simp add: vbuffer_create_from_def vbuffer_create_from_data_def vbuffer_chunk_create_def
          malloc_simps data_ops_free_def)
    show "heap_ok ?h3" by (rule ok3)
  qed (simp_all add: free_data_def undo raise_error_def)
  show "vbuffer_create_from h buffer str = None" if b: "budget h = 2"
  proof -
    have ok2: "heap_ok ?h2"
      using heap_ok_upd_data [OF heap_ok_add_data [OF assms(1), of "Data_basic ?m"], of "fresh h"
          "\<lparr>dref = 0, dkind = Data_basic ?m\<rparr>" "\<lparr>dref = 0, dkind = Data_basic str\<rparr>"] by simp
    have c: "vbuffer_chunk_create ?h2 (fresh h) 0 (length str) =
        Some (fresh ?h2, add_chunk ?h2 (data_chunk (fresh h) 0 (length str)) free_elem)"
      by (rule vbuffer_chunk_create_ok [OF ok2]) (use b assms(2) in simp_all)
    have "budget (add_chunk ?h2 (data_chunk (fresh h) 0 (length str)) free_elem) = 0" using b by simp
    then show ?thesis
      using d st c b D(3)
      by (simp add: vbuffer_create_from_def vbuffer_create_from_data_def vbuffer_init_end_def
          vbuffer_chunk_create_end_def malloc_simps vbuffer_chunk_end_def)
  qed
qed

theorem vbuffer_create_from_no_memory_witness:
  "vbuffer_create_from (empty_heap 0) NULL [1] =
     Some (False, NULL, raise_error (empty_heap 0) ''memory error'') \<and>
   vbuffer_create_from (empty_heap 2) NULL [1] = None"
  using vbuffer_create_from_no_memory [OF heap_ok_empty_heap [of 0], of "[1]" NULL]
    vbuffer_create_from_no_memory [OF heap_ok_empty_heap [of 2], of "[1]" NULL]
  by (simp add: empty_heap_def)

text \<open>C17.  Appending a buffer to another gives the concatenation of their bytes and leaves the appended
  buffer valid and empty; the end chunk is marked as modified; nothing else is touched.\<close>

theorem vbuffer_append_content:
  assumes "heap_ok h" "vbuf h b cs" "vbuf h m ds" "insert b (set cs) \<inter> insert m (set ds) = {}"
  shows "\<exists>h' e. vbuffer_append h b m = Some (True, h') \<and> heap_ok h' \<and> vbuf h' b (cs @ ds) \<and> vbuf h' m [] \<and>
    content h' (cs @ ds) = content h cs @ content h ds \<and>
    chunks h' b = Some e \<and> f_modified (cflags e) \<and>
    frame_off (insert b (set cs) \<union> insert m (set ds)) h h'"
proof -
  obtain h' where "vbuffer_append h b m = Some (True, h')" "heap_ok h'" "vbuf h' b (cs @ ds)" "vbuf h' m []"
    "content h' (cs @ ds) = content h cs @ content h ds"
    "frame_off (insert b (set cs) \<union> insert m (set ds)) h h'"
    "\<exists>e. chunks h' b = Some e \<and> f_modified (cflags e)"
    using assms by (rule vbuffer_append_ok)
  then show ?thesis by blast
qed

theorem vbuffer_append_content_witness:
  "\<exists>h b c m d h'. content h [c] = [1, 2] \<and> content h [d] = [3] \<and>
     vbuffer_append h b m = Some (True, h') \<and> content h' ([c] @ [d]) = [1, 2] @ [3]"
proof -
  obtain h b c m d where h: "heap_ok h" "vbuf h b [c]" "vbuf h m [d]" "{b, c} \<inter> {m, d} = {}"
    "content h [c] = [1, 2]" "content h [d] = [3]"
    using two_buffers [of "[1, 2]" "[3]" 0] by auto
  then have "insert b (set [c]) \<inter> insert m (set [d]) = {}" by simp
  from vbuffer_append_content [OF h(1-3) this] h(5,6) show ?thesis by metis
qed

text \<open>C18.  Clearing a buffer always completes and is safe: the heap invariant is kept (no chunk is left
  with a dangling block, and all reference counts are exact), chunks and blocks used by others are
  untouched, every chunk without other references is freed, and so is every block that only this
  buffer refers to.\<close>

theorem vbuffer_clear_frees:
  assumes "heap_ok h" "vbuf h b cs"
  shows "\<exists>h'. vbuffer_clear h b = Some (NULL, h') \<and> heap_ok h' \<and> frame_off (insert b (set cs)) h h' \<and>
    (\<forall>d. owners h d \<noteq> {} \<longrightarrow> owners h d \<subseteq> set cs \<longrightarrow> d \<noteq> NULL \<longrightarrow> d \<notin> dom (datas h')) \<and>
    (\<forall>c x. c \<in> insert b (set cs) \<longrightarrow> chunks h c = Some x \<longrightarrow> cref x = 1 \<longrightarrow> chunks h' c = None)"
proof -
  obtain h' where "vbuffer_clear h b = Some (NULL, h')" "heap_ok h'" "frame_off (insert b (set cs)) h h'"
    "\<forall>d. owners h d \<noteq> {} \<longrightarrow> owners h d \<subseteq> set cs \<longrightarrow> d \<noteq> NULL \<longrightarrow> d \<notin> dom (datas h')"
    "\<forall>c x. c \<in> insert b (set cs) \<longrightarrow> chunks h c = Some x \<longrightarrow> cref x = 1 \<longrightarrow> chunks h' c = None"
    using assms by (rule vbuffer_clear_ok)
  then show ?thesis by blast
qed

theorem vbuffer_clear_frees_witness:
  "\<exists>h b c h'. vbuf h b [c] \<and> content h [c] = [1, 2] \<and> vbuffer_clear h b = Some (NULL, h') \<and> heap_ok h'"
proof -
  obtain h b c m d where h: "heap_ok h" "vbuf h b [c]" "content h [c] = [1, 2]"
    using two_buffers [of "[1, 2]" "[3]" 0] by auto
  from vbuffer_clear_frees [OF h(1,2)] h show ?thesis by metis
qed

end
