(* ===== verification/VBuffer_Iterator.thy ===== *)
theory VBuffer_Iterator
  imports VBuffer_Buffer
begin

text \<open>
  Iterators: the second part of \<open>lib/haka/vbuffer.c\<close>.

  An iterator is a value (chunk, offset in the chunk, meter, registered flag); a function that
  moves the iterator it is given returns the new value.  An output parameter the function may leave
  unwritten is an \<open>option\<close>.  A local iterator that C leaves uninitialised starts with an
  arbitrary meter.
\<close>

record vbuffer_iterator =
  ichunk :: addr
  ioffset :: nat
  imeter :: nat
  iregistered :: bool

definition vbuffer_iterator_init :: vbuffer_iterator where
  "vbuffer_iterator_init = \<lparr>ichunk = NULL, ioffset = 0, imeter = 0, iregistered = False\<rparr>"

definition iterator_uninit :: "vheap \<Rightarrow> vbuffer_iterator" where
  "iterator_uninit h =
     \<lparr>ichunk = NULL, ioffset = unat (junk h 0), imeter = unat (junk h 1), iregistered = False\<rparr>"

definition vbuffer_iterator_isvalid :: "vbuffer_iterator \<Rightarrow> bool" where
  "vbuffer_iterator_isvalid position = (ichunk position \<noteq> NULL)"

definition vbuffer_iterator_check :: "vheap \<Rightarrow> vbuffer_iterator \<Rightarrow> (bool \<times> vheap) option" where
  "vbuffer_iterator_check h position =
     (if \<not> vbuffer_iterator_isvalid position then Some (False, raise_error h ''empty iterator'')
      else do {
        x \<leftarrow> chunks h (ichunk position);
        e \<leftarrow> links h (ichunk position);
        if iregistered position \<and>
           (cdata x = NULL \<and> \<not> f_end (cflags x) \<or> ioffset position > csize x \<or>
            lnext e = NULL \<or> lprev e = NULL)
        then Some (False, raise_error h ''invalid buffer iterator'')
        else do {
          assert_that (lnext e \<noteq> NULL \<and> lprev e \<noteq> NULL);
          Some (True, h)
        }
      })"

definition vbuffer_iterator_copy :: "vheap \<Rightarrow> vbuffer_iterator \<Rightarrow> (vbuffer_iterator \<times> vheap) option" where
  "vbuffer_iterator_copy h src = do {
     (ok, h) \<leftarrow> vbuffer_iterator_check h src;
     if \<not> ok then Some (vbuffer_iterator_init, h)
     else Some (vbuffer_iterator_init
                  \<lparr>ichunk := ichunk src, ioffset := ioffset src, imeter := imeter src\<rparr>, h)
   }"

definition vbuffer_iterator_clear ::
    "vheap \<Rightarrow> vbuffer_iterator \<Rightarrow> (vbuffer_iterator \<times> vheap) option" where
  "vbuffer_iterator_clear h position =
     (if ichunk position \<noteq> NULL then do {
        (position, h) \<leftarrow> (if iregistered position then do {
             h \<leftarrow> vbuffer_chunk_release h (ichunk position);
             Some (position\<lparr>iregistered := False\<rparr>, h)
           } else Some (position, h));
        Some (position\<lparr>ichunk := NULL\<rparr>, h)
      } else Some (position, h))"

definition vbuffer_iterator_build ::
    "vbuffer_iterator \<Rightarrow> addr \<Rightarrow> nat \<Rightarrow> nat \<Rightarrow> vbuffer_iterator" where
  "vbuffer_iterator_build position chunk offset meter =
     position\<lparr>ichunk := chunk, ioffset := to_u32 offset, iregistered := False, imeter := to_u32 meter\<rparr>"

definition vbuffer_iterator_update ::
    "vheap \<Rightarrow> vbuffer_iterator \<Rightarrow> addr \<Rightarrow> nat \<Rightarrow> (vbuffer_iterator \<times> vheap) option" where
  "vbuffer_iterator_update h position chunk offset = do {
     assert_that (chunk \<noteq> NULL);
     (position, h) \<leftarrow> (if ichunk position \<noteq> chunk then do {
          h \<leftarrow> (if iregistered position then do {
                  h \<leftarrow> vbuffer_chunk_release h (ichunk position);
                  vbuffer_chunk_addref h chunk
                } else Some h);
          Some (position\<lparr>ichunk := chunk\<rparr>, h)
        } else Some (position, h));
     Some (position\<lparr>ioffset := to_u32 offset\<rparr>, h)
   }"

definition vbuffer_iterator_move ::
    "vheap \<Rightarrow> vbuffer_iterator \<Rightarrow> vbuffer_iterator \<Rightarrow> (vbuffer_iterator \<times> vheap) option" where
  "vbuffer_iterator_move h iter pos = do {
     (ok, h) \<leftarrow> vbuffer_iterator_check h iter;
     (ok, h) \<leftarrow> (if ok then vbuffer_iterator_check h pos else Some (False, h));
     if \<not> ok then Some (iter, h)
     else do {
       (iter, h) \<leftarrow> vbuffer_iterator_update h iter (ichunk pos) (ioffset pos);
       Some (iter\<lparr>imeter := imeter pos\<rparr>, h)
     }
   }"

partial_function (option) fix_loop :: "vheap \<Rightarrow> addr \<Rightarrow> nat \<Rightarrow> (addr \<times> nat) option" where
  "fix_loop h iter offset = do {
     x \<leftarrow> chunks h iter;
     if f_end (cflags x) then Some (iter, offset)
     else if offset > csize x then do {
       nx \<leftarrow> vbuffer_chunk_next h iter;
       fix_loop h nx (offset - csize x)
     }
     else Some (iter, offset)
   }"

definition vbuffer_iterator_fix :: "vheap \<Rightarrow> vbuffer_iterator \<Rightarrow> (addr \<times> nat) option" where
  "vbuffer_iterator_fix h position = do {
     x \<leftarrow> chunks h (ichunk position);
     if ioffset position > csize x then fix_loop h (ichunk position) (ioffset position)
     else Some (ichunk position, ioffset position)
   }"

partial_function (option) available_loop ::
    "vheap \<Rightarrow> addr \<Rightarrow> nat \<Rightarrow> addr \<Rightarrow> nat \<Rightarrow> nat \<Rightarrow> nat \<Rightarrow> (bool \<times> nat option \<times> vheap) option" where
  "available_loop h iter offset enditer endoffset minsize cursize = do {
     x \<leftarrow> chunks h iter;
     if f_end (cflags x) then Some (False, Some cursize, h)
     else if enditer \<noteq> NULL \<and> enditer = iter then
       (if offset > endoffset then Some (False, None, raise_error h ''invalid buffer end'')
        else let cursize = to_u64 (cursize + (endoffset - offset)) in
          if cursize \<ge> minsize then Some (True, Some minsize, h)
          else Some (False, Some cursize, h))
     else
       (let cursize = to_u64 (cursize + sub_u64 (csize x) offset) in
          if cursize \<ge> minsize then Some (True, Some minsize, h)
          else do {
            nx \<leftarrow> vbuffer_chunk_next h iter;
            available_loop h nx 0 enditer endoffset minsize cursize
          })
   }"

definition vbuffer_iterator_check_available_end ::
    "vheap \<Rightarrow> vbuffer_iterator \<Rightarrow> vbuffer_iterator option \<Rightarrow> nat \<Rightarrow> (bool \<times> nat option \<times> vheap) option" where
  "vbuffer_iterator_check_available_end h position end_pos minsize = do {
     (ok, h) \<leftarrow> vbuffer_iterator_check h position;
     if \<not> ok then Some (False, Some SIZE_ALL, h)
     else if minsize = 0 then Some (True, Some minsize, h)
     else do {
       (iter, offset) \<leftarrow> vbuffer_iterator_fix h position;
       case end_pos of
         None \<Rightarrow> available_loop h iter offset NULL 0 minsize 0
       | Some e \<Rightarrow> do {
           (ok, h) \<leftarrow> vbuffer_iterator_check h e;
           if \<not> ok then Some (False, Some SIZE_ALL, h)
           else do {
             (enditer, endoffset) \<leftarrow> vbuffer_iterator_fix h e;
             available_loop h iter offset enditer endoffset minsize 0
           }
         }
     }
   }"

definition vbuffer_iterator_check_available ::
    "vheap \<Rightarrow> vbuffer_iterator \<Rightarrow> nat \<Rightarrow> (bool \<times> nat option \<times> vheap) option" where
  "vbuffer_iterator_check_available h position minsize =
     vbuffer_iterator_check_available_end h position None minsize"

definition vbuffer_iterator_available :: "vheap \<Rightarrow> vbuffer_iterator \<Rightarrow> (nat \<times> vheap) option" where
  "vbuffer_iterator_available h position = do {
     (_, sz, h) \<leftarrow> vbuffer_iterator_check_available h position SIZE_ALL;
     Some (case sz of Some n \<Rightarrow> n | None \<Rightarrow> 0, h)
   }"

definition vbuffer_iterator_register ::
    "vheap \<Rightarrow> vbuffer_iterator \<Rightarrow> (bool \<times> vbuffer_iterator \<times> vheap) option" where
  "vbuffer_iterator_register h position = do {
     (ok, h) \<leftarrow> vbuffer_iterator_check h position;
     if \<not> ok then Some (False, position, h)
     else if \<not> iregistered position then do {
       h \<leftarrow> vbuffer_chunk_addref h (ichunk position);
       Some (True, position\<lparr>iregistered := True\<rparr>, h)
     } else Some (True, position, h)
   }"

definition vbuffer_iterator_unregister ::
    "vheap \<Rightarrow> vbuffer_iterator \<Rightarrow> (bool \<times> vbuffer_iterator \<times> vheap) option" where
  "vbuffer_iterator_unregister h position = do {
     (ok, h) \<leftarrow> vbuffer_iterator_check h position;
     if \<not> ok then Some (False, position, h)
     else if iregistered position then do {
       h \<leftarrow> vbuffer_chunk_release h (ichunk position);
       Some (True, position\<lparr>iregistered := False\<rparr>, h)
     } else Some (True, position, h)
   }"

definition vbuffer_iterator_split_chunk ::
    "vheap \<Rightarrow> vbuffer_iterator \<Rightarrow> bool \<Rightarrow> (addr \<times> vheap) option" where
  "vbuffer_iterator_split_chunk h position mark_modified = do {
     (ok, h) \<leftarrow> vbuffer_iterator_check h position;
     assert_that ok;
     (iter, offset) \<leftarrow> vbuffer_iterator_fix h position;
     (ok, h) \<leftarrow> (if mark_modified then do {
          (w, h) \<leftarrow> vbuffer_chunk_check_writeable h iter;
          if \<not> w then Some (False, h)
          else do { h \<leftarrow> vbuffer_chunk_mark_modified h iter; Some (True, h) }
        } else Some (True, h));
     if \<not> ok then Some (NULL, h)
     else do {
       x \<leftarrow> chunks h iter;
       if offset = 0 \<or> f_end (cflags x) then Some (iter, h)
       else if offset = csize x then do { nx \<leftarrow> vbuffer_chunk_next h iter; Some (nx, h) }
       else do {
         assert_that (\<not> f_ctl (cflags x));
         (newchunk, h) \<leftarrow> vbuffer_chunk_create h (cdata x) (coffset x + offset) (sub_u64 (csize x) offset);
         h \<leftarrow> upd_chunk h iter (\<lambda>x. x\<lparr>csize := to_u32 offset\<rparr>);
         h \<leftarrow> upd_chunk h newchunk (\<lambda>y. y\<lparr>cflags := cflags x\<rparr>);
         nx \<leftarrow> list2_next (links h) iter;
         (_, h) \<leftarrow> with_links h (list2_insert (links h) nx newchunk);
         Some (newchunk, h)
       }
     }
   }"

definition vbuffer_iterator_split ::
    "vheap \<Rightarrow> vbuffer_iterator \<Rightarrow> (bool \<times> vbuffer_iterator \<times> vheap) option" where
  "vbuffer_iterator_split h position = do {
     (ok, h) \<leftarrow> vbuffer_iterator_check h position;
     if \<not> ok then Some (False, position, h)
     else do {
       (iter, h) \<leftarrow> vbuffer_iterator_split_chunk h position False;
       if iter = NULL then Some (False, position, h)
       else do {
         (position, h) \<leftarrow> vbuffer_iterator_update h position iter 0;
         Some (True, position, h)
       }
     }
   }"

partial_function (option) skip_empty_loop :: "vheap \<Rightarrow> addr \<Rightarrow> nat \<Rightarrow> (addr \<times> nat) option" where
  "skip_empty_loop h iter offset = do {
     x \<leftarrow> chunks h iter;
     if f_end (cflags x) then Some (iter, offset)
     else if offset = csize x then do {
       nx \<leftarrow> vbuffer_chunk_next h iter;
       skip_empty_loop h nx 0
     }
     else Some (iter, offset)
   }"

definition vbuffer_iterator_skip_empty ::
    "vheap \<Rightarrow> vbuffer_iterator \<Rightarrow> (vbuffer_iterator \<times> vheap) option" where
  "vbuffer_iterator_skip_empty h position = do {
     (ok, h) \<leftarrow> vbuffer_iterator_check h position;
     if \<not> ok then Some (position, h)
     else do {
       (iter, offset) \<leftarrow> vbuffer_iterator_fix h position;
       (iter, offset) \<leftarrow> skip_empty_loop h iter offset;
       vbuffer_iterator_update h position iter offset
     }
   }"

partial_function (option) advance_loop :: "vheap \<Rightarrow> addr \<Rightarrow> nat \<Rightarrow> nat \<Rightarrow> (addr \<times> nat \<times> nat) option" where
  "advance_loop h iter offset clen = do {
     x \<leftarrow> chunks h iter;
     if f_end (cflags x) then Some (iter, 0, clen)
     else if offset > csize x then do {
       nx \<leftarrow> vbuffer_chunk_next h iter;
       advance_loop h nx (offset - csize x) clen
     }
     else if csize x - offset \<ge> clen then Some (iter, offset + clen, 0)
     else do {
       nx \<leftarrow> vbuffer_chunk_next h iter;
       advance_loop h nx 0 (clen - (csize x - offset))
     }
   }"

definition vbuffer_iterator_advance ::
    "vheap \<Rightarrow> vbuffer_iterator \<Rightarrow> nat \<Rightarrow> (nat \<times> vbuffer_iterator \<times> vheap) option" where
  "vbuffer_iterator_advance h position len = do {
     (ok, h) \<leftarrow> vbuffer_iterator_check h position;
     if \<not> ok then Some (SIZE_ALL, position, h)
     else do {
       (iter, offset) \<leftarrow> vbuffer_iterator_fix h position;
       (iter, endoffset, clen) \<leftarrow> advance_loop h iter offset len;
       (position, h) \<leftarrow> vbuffer_iterator_update h position iter endoffset;
       Some (len - clen, position\<lparr>imeter := to_u32 (imeter position + (len - clen))\<rparr>, h)
     }
   }"

definition vbuffer_position ::
    "vheap \<Rightarrow> addr \<Rightarrow> vbuffer_iterator \<Rightarrow> nat \<Rightarrow> (vbuffer_iterator \<times> vheap) option" where
  "vbuffer_position h buf position offset = do {
     assert_that (vbuffer_isvalid buf);
     if offset = SIZE_ALL
     then Some (position\<lparr>ichunk := buf, ioffset := 0, iregistered := False\<rparr>, h)
     else do {
       b \<leftarrow> vbuffer_chunk_begin h buf;
       let position = position\<lparr>ichunk := b, ioffset := 0, iregistered := False\<rparr>;
       if offset > 0 then do {
         (_, position, h) \<leftarrow> vbuffer_iterator_advance h position offset;
         Some (position, h)
       } else Some (position, h)
     }
   }"

definition vbuffer_begin :: "vheap \<Rightarrow> addr \<Rightarrow> vbuffer_iterator \<Rightarrow> (vbuffer_iterator \<times> vheap) option" where
  "vbuffer_begin h buf position = vbuffer_position h buf position 0"

definition vbuffer_end :: "vheap \<Rightarrow> addr \<Rightarrow> vbuffer_iterator \<Rightarrow> (vbuffer_iterator \<times> vheap) option" where
  "vbuffer_end h buf position = vbuffer_position h buf position SIZE_ALL"

definition vbuffer_last :: "vheap \<Rightarrow> addr \<Rightarrow> vbuffer_iterator \<Rightarrow> vbuffer_iterator option" where
  "vbuffer_last h buf position = do {
     assert_that (vbuffer_isvalid buf);
     emp \<leftarrow> vbuffer_isempty h buf;
     if emp then Some (position\<lparr>ichunk := buf, ioffset := 0, iregistered := False\<rparr>)
     else do {
       c \<leftarrow> vbuffer_chunk_prev h buf;
       assert_that (c \<noteq> NULL);
       x \<leftarrow> chunks h c;
       Some (position\<lparr>ichunk := c, ioffset := csize x, iregistered := False\<rparr>)
     }
   }"

definition vbuffer_iterator_isend :: "vheap \<Rightarrow> vbuffer_iterator \<Rightarrow> (bool \<times> vheap) option" where
  "vbuffer_iterator_isend h position = do {
     (ok, h) \<leftarrow> vbuffer_iterator_check h position;
     if \<not> ok then Some (False, h)
     else do {
       (iter, offset) \<leftarrow> vbuffer_iterator_fix h position;
       x \<leftarrow> chunks h iter;
       if f_end (cflags x) then do { assert_that (offset = 0); Some (True, h) }
       else Some (False, h)
     }
   }"

definition vbuffer_iterator_iseof :: "vheap \<Rightarrow> vbuffer_iterator \<Rightarrow> (bool \<times> vheap) option" where
  "vbuffer_iterator_iseof h position = do {
     (ok, h) \<leftarrow> vbuffer_iterator_check h position;
     if \<not> ok then Some (False, h)
     else do {
       (iter, offset) \<leftarrow> vbuffer_iterator_fix h position;
       x \<leftarrow> chunks h iter;
       if f_end (cflags x) \<and> f_eof (cflags x) then do { assert_that (offset = 0); Some (True, h) }
       else Some (False, h)
     }
   }"

partial_function (option) iterator_mmap_loop ::
    "vheap \<Rightarrow> vbuffer_iterator \<Rightarrow> addr \<Rightarrow> nat \<Rightarrow> nat \<Rightarrow> bool \<Rightarrow>
     (bptr \<times> nat option \<times> vbuffer_iterator \<times> vheap) option" where
  "iterator_mmap_loop h position iter offset maxsize write = do {
     x \<leftarrow> chunks h iter;
     if f_end (cflags x) then Some (NULL_ptr, None, position, h)
     else do {
       assert_that (offset \<le> csize x);
       let len = csize x - offset;
       if \<not> f_ctl (cflags x) \<and> len > 0 then do {
         (n, position, h) \<leftarrow>
           (if maxsize \<noteq> SIZE_ALL \<and> len > maxsize then do {
              (position, h) \<leftarrow> vbuffer_iterator_update h position iter (offset + maxsize);
              Some (maxsize, position, h)
            } else do {
              nx \<leftarrow> vbuffer_chunk_next h iter;
              (position, h) \<leftarrow> vbuffer_iterator_update h position nx 0;
              Some (len, position, h)
            });
         (ptr, h) \<leftarrow> vbuffer_chunk_get_data h iter write;
         Some (ptr_add ptr offset, Some n, position, h)
       } else do {
         nx \<leftarrow> vbuffer_chunk_next h iter;
         iterator_mmap_loop h position nx 0 maxsize write
       }
     }
   }"

definition vbuffer_iterator_mmap ::
    "vheap \<Rightarrow> vbuffer_iterator \<Rightarrow> nat \<Rightarrow> bool \<Rightarrow>
     (bptr \<times> nat option \<times> vbuffer_iterator \<times> vheap) option" where
  "vbuffer_iterator_mmap h position maxsize write = do {
     (ok, h) \<leftarrow> vbuffer_iterator_check h position;
     if \<not> ok \<or> maxsize = 0 then Some (NULL_ptr, None, position, h)
     else do {
       (iter, offset) \<leftarrow> vbuffer_iterator_fix h position;
       iterator_mmap_loop h position iter offset maxsize write
     }
   }"

definition vbuffer_iterator_getbyte ::
    "vheap \<Rightarrow> vbuffer_iterator \<Rightarrow> (u8 \<times> vbuffer_iterator \<times> vheap) option" where
  "vbuffer_iterator_getbyte h position = do {
     (ok, h) \<leftarrow> vbuffer_iterator_check h position;
     if \<not> ok then Some (- 1, position, h)
     else do {
       (ptr, len, position, h) \<leftarrow> vbuffer_iterator_mmap h position 1 False;
       if ptr = NULL_ptr \<or> len = Some 0 then Some (- 1, position, h)
       else do { bs \<leftarrow> load h ptr 1; Some (hd bs, position, h) }
     }
   }"

definition vbuffer_iterator_setbyte ::
    "vheap \<Rightarrow> vbuffer_iterator \<Rightarrow> u8 \<Rightarrow> (bool \<times> vbuffer_iterator \<times> vheap) option" where
  "vbuffer_iterator_setbyte h position byte = do {
     (ok, h) \<leftarrow> vbuffer_iterator_check h position;
     if \<not> ok then Some (False, position, h)
     else do {
       (ptr, len, position, h) \<leftarrow> vbuffer_iterator_mmap h position 1 True;
       if ptr = NULL_ptr \<or> len = Some 0 then Some (False, position, h)
       else do { h \<leftarrow> store h ptr [byte]; Some (True, position, h) }
     }
   }"

definition vbuffer_iterator_mark ::
    "vheap \<Rightarrow> vbuffer_iterator \<Rightarrow> bool \<Rightarrow> (bool \<times> vbuffer_iterator \<times> vheap) option" where
  "vbuffer_iterator_mark h position readonly = do {
     (ok, h) \<leftarrow> vbuffer_iterator_check h position;
     if \<not> ok then Some (False, position, h)
     else do {
       (ins, h) \<leftarrow> vbuffer_iterator_split_chunk h position False;
       if ins = NULL then Some (False, position, h)
       else do {
         let (mark, h) = vbuffer_data_ctl_mark h readonly;
         if mark = NULL then Some (False, position, h)
         else do {
           (chunk, h) \<leftarrow> vbuffer_chunk_insert_ctl h ins mark;
           if chunk = NULL then Some (False, position, h)
           else do {
             (position, h) \<leftarrow> vbuffer_iterator_update h position chunk 0;
             Some (True, position, h)
           }
         }
       }
     }
   }"

definition vbuffer_iterator_unmark ::
    "vheap \<Rightarrow> vbuffer_iterator \<Rightarrow> (bool \<times> vbuffer_iterator \<times> vheap) option" where
  "vbuffer_iterator_unmark h position = do {
     (ok, h) \<leftarrow> vbuffer_iterator_check h position;
     if \<not> ok then Some (False, position, h)
     else do {
       x \<leftarrow> chunks h (ichunk position);
       mark \<leftarrow> is_ctl_mark h (cdata x);
       if \<not> mark then Some (False, position, raise_error h ''iterator is not a mark'')
       else do {
         (nx, h) \<leftarrow> vbuffer_chunk_remove_ctl h (ichunk position);
         (position, h) \<leftarrow> vbuffer_iterator_update h position nx 0;
         Some (True, position, h)
       }
     }
   }"

partial_function (option) isinsertable_loop :: "vheap \<Rightarrow> addr \<Rightarrow> addr \<Rightarrow> bool option" where
  "isinsertable_loop h iter chunk =
     (if iter = NULL then Some True
      else if iter = chunk then Some False
      else do { nx \<leftarrow> vbuffer_chunk_next h iter; isinsertable_loop h nx chunk })"

definition vbuffer_iterator_isinsertable ::
    "vheap \<Rightarrow> vbuffer_iterator \<Rightarrow> addr \<Rightarrow> (bool \<times> vheap) option" where
  "vbuffer_iterator_isinsertable h position buffer = do {
     iter \<leftarrow> vbuffer_chunk_begin h buffer;
     (ok, h) \<leftarrow> vbuffer_iterator_check h position;
     if \<not> ok then Some (False, h)
     else do { r \<leftarrow> isinsertable_loop h iter (ichunk position); Some (r, h) }
   }"

section \<open>Positions\<close>

text \<open>
  \<open>iter_at h b cs c n p\<close>: offset \<open>n\<close> of chunk \<open>c\<close> is position \<open>p\<close> in the bytes of the buffer.
  The offset may run past the end of the chunk.  In \<open>fixed h b cs c n p\<close> it does not, and the end
  chunk is only used with offset 0.
\<close>

definition iter_at :: "vheap \<Rightarrow> addr \<Rightarrow> addr list \<Rightarrow> addr \<Rightarrow> nat \<Rightarrow> nat \<Rightarrow> bool" where
  "iter_at h b cs c n p \<longleftrightarrow>
     (\<exists>pre post. cs @ [b] = pre @ c # post \<and> p = szs h pre + n \<and> p \<le> szs h cs)"

definition fixed :: "vheap \<Rightarrow> addr \<Rightarrow> addr list \<Rightarrow> addr \<Rightarrow> nat \<Rightarrow> nat \<Rightarrow> bool" where
  "fixed h b cs c n p \<longleftrightarrow> iter_at h b cs c n p \<and> n \<le> csz h c"

text \<open>Chunk \<open>d\<close> is chunk \<open>c\<close> or comes after it.\<close>

definition not_before :: "addr list \<Rightarrow> addr \<Rightarrow> addr \<Rightarrow> bool" where
  "not_before cs c d \<longleftrightarrow> (\<exists>pre post. cs = pre @ c # post \<and> d \<in> set (c # post))"

lemma iter_at_chunkI: "p = szs h xs + n \<Longrightarrow> p \<le> szs h (xs @ c # ys) \<Longrightarrow> iter_at h b (xs @ c # ys) c n p"
  unfolding iter_at_def by (intro exI [of _ xs] exI [of _ "ys @ [b]"]) simp

lemma iter_at_endI: "iter_at h b cs b 0 (szs h cs)"
  unfolding iter_at_def by (intro exI [of _ cs] exI [of _ "[]"]) simp

lemma iter_at_le: "iter_at h b cs c n p \<Longrightarrow> p \<le> szs h cs"
  by (auto simp: iter_at_def)

lemma iter_at_cases:
  assumes "iter_at h b cs c n p"
  obtains (end_chunk) "c = b" "n = 0" "p = szs h cs"
  | (chunk) xs ys where "cs = xs @ c # ys" "p = szs h xs + n" "p \<le> szs h cs"
proof -
  from assms obtain pre post where s: "cs @ [b] = pre @ c # post" "p = szs h pre + n" "p \<le> szs h cs"
    by (auto simp: iter_at_def)
  show ?thesis
  proof (cases post rule: rev_cases)
    case Nil
    then show ?thesis using s by (intro end_chunk) auto
  next
    case (snoc ys y)
    then show ?thesis using s by (intro chunk [of pre ys]) auto
  qed
qed

lemma fixed_cases:
  assumes "fixed h b cs c n p"
  obtains (end_chunk) "c = b" "n = 0" "p = szs h cs"
  | (chunk) xs ys where "cs = xs @ c # ys" "p = szs h xs + n" "n \<le> csz h c"
  using assms unfolding fixed_def by (blast elim: iter_at_cases)

lemma fixed_chunkI: "p = szs h xs + n \<Longrightarrow> n \<le> csz h c \<Longrightarrow> fixed h b (xs @ c # ys) c n p"
  by (simp add: fixed_def iter_at_chunkI)

lemma fixed_endI: "fixed h b cs b 0 (szs h cs)"
  by (simp add: fixed_def iter_at_endI)

lemma fixed_bound: "vbuf h b cs \<Longrightarrow> fixed h b cs c n p \<Longrightarrow> n < 2 ^ 32"
proof (erule fixed_cases)
  fix xs ys assume v: "vbuf h b cs" "cs = xs @ c # ys" "n \<le> csz h c"
  then obtain x where "chunk_wf h x" "csz h c = csize x" using vbuf_chunk [of h b xs c ys] by auto
  then show "n < 2 ^ 32" using v(3) chunk_wf_size [of h x] by simp
qed simp

lemma iter_at_in: "iter_at h b cs c n p \<Longrightarrow> c \<in> insert b (set cs)"
  by (erule iter_at_cases) auto

section \<open>Iterators on well-formed buffers\<close>

text \<open>An iterator that is not registered and stands at position \<open>p\<close>.\<close>

definition itr :: "vheap \<Rightarrow> addr \<Rightarrow> addr list \<Rightarrow> vbuffer_iterator \<Rightarrow> nat \<Rightarrow> bool" where
  "itr h b cs it p \<longleftrightarrow> \<not> iregistered it \<and> iter_at h b cs (ichunk it) (ioffset it) p"

lemma vbuf_linked:
  assumes "heap_ok h" "vbuf h b cs" "c \<in> insert b (set cs)"
  shows "\<exists>e x. links h c = Some e \<and> lnext e \<noteq> NULL \<and> lprev e \<noteq> NULL \<and> chunks h c = Some x \<and> c \<noteq> NULL"
proof -
  have s: "seq (links h) b cs" using vbufD(1) [OF assms(2)] .
  have "\<exists>e. links h c = Some e \<and> lnext e \<noteq> NULL \<and> lprev e \<noteq> NULL"
  proof (cases "c = b")
    case True
    have "hd (cs @ [b]) \<noteq> NULL" "last (b # cs) \<noteq> NULL"
      using seq_not_null [OF s] hd_snoc_in [of cs b] last_Cons_in [of b cs] by metis+
    then show ?thesis using True seq_ends(1-3) [OF s]
      by (auto simp: nxt_def prv_def split: option.splits)
  next
    case False
    then obtain xs ys where cs: "cs = xs @ c # ys" using assms(3) split_list by fastforce
    have "NULL \<notin> insert b (set ys)" "NULL \<notin> insert b (set xs)" using seq_not_null [OF s] cs by auto
    then have "hd (ys @ [b]) \<noteq> NULL" "last (b # xs) \<noteq> NULL"
      using hd_snoc_in [of ys b] last_Cons_in [of b xs] by metis+
    then show ?thesis using seq_next [of "links h" b xs c ys] seq_prev [of "links h" b xs c ys] s cs
      by (auto simp: list2_next_def list2_prev_def bind_Some_iff)
  qed
  moreover have "(\<exists>x. chunks h c = Some x) \<and> c \<noteq> NULL"
  proof (cases "c = b")
    case True
    then show ?thesis using vbufD(2,6) [OF assms(2)] by auto
  next
    case False
    then have c: "c \<in> set cs" using assms(3) by simp
    then show ?thesis using vbufD(3) [OF assms(2)] vbufD(7) [OF assms(2) c] by metis
  qed
  ultimately show ?thesis by blast
qed

lemma iterator_check_ok:
  assumes "heap_ok h" "vbuf h b cs" "itr h b cs it p"
  shows "vbuffer_iterator_check h it = Some (True, h)"
proof -
  have "ichunk it \<in> insert b (set cs)" 
    using assms(3) iter_at_in [of h b cs "ichunk it" "ioffset it" p] by (simp add: itr_def)
  from vbuf_linked [OF assms(1,2) this] assms(3) show ?thesis
    by (auto simp: vbuffer_iterator_check_def vbuffer_iterator_isvalid_def itr_def)
qed

lemma iterator_copy_ok:
  assumes "heap_ok h" "vbuf h b cs" "itr h b cs it p"
  shows "vbuffer_iterator_copy h it = Some (it, h)"
  using iterator_check_ok [OF assms] assms(3)
  by (cases it) (simp add: vbuffer_iterator_copy_def vbuffer_iterator_init_def itr_def)

lemma iterator_update_ok:
  "\<not> iregistered it \<Longrightarrow> c \<noteq> NULL \<Longrightarrow>
   vbuffer_iterator_update h it c n = Some (it\<lparr>ichunk := c, ioffset := to_u32 n\<rparr>, h)"
  by (cases it) (simp add: vbuffer_iterator_update_def)

lemma iterator_clear_ok:
  "\<not> iregistered it \<Longrightarrow> vbuffer_iterator_clear h it = Some (it\<lparr>ichunk := NULL\<rparr>, h)"
  by (cases it) (simp add: vbuffer_iterator_clear_def)

lemma fix_loop_ok:
  "vbuf h b (xs @ ys) \<Longrightarrow> ys \<noteq> [] \<Longrightarrow> n \<le> szs h ys \<Longrightarrow>
   \<exists>c m. fix_loop h (hd (ys @ [b])) n = Some (c, m) \<and> fixed h b (xs @ ys) c m (szs h xs + n) \<and>
     c \<in> set ys"
proof (induction ys arbitrary: xs n)
  case (Cons y ys)
  obtain x where x: "chunks h y = Some x" "csz h y = csize x" "\<not> f_end (cflags x)"
    using vbuf_chunk [OF Cons.prems(1)] by blast
  show ?case
  proof (cases "n \<le> csize x")
    case True
    then have "fix_loop h (hd ((y # ys) @ [b])) n = Some (y, n)" using x by (subst fix_loop.simps) simp
    then show ?thesis using True x by (auto intro!: fixed_chunkI)
  next
    case False
    then have ne: "ys \<noteq> []" using Cons.prems(3) x(2) by auto
    have v: "vbuf h b ((xs @ [y]) @ ys)" using Cons.prems(1) by simp
    have "n - csize x \<le> szs h ys" using Cons.prems(3) x(2) by simp
    from Cons.IH [OF v ne this] obtain c m where
      r: "fix_loop h (hd (ys @ [b])) (n - csize x) = Some (c, m)"
      "fixed h b ((xs @ [y]) @ ys) c m (szs h (xs @ [y]) + (n - csize x))" "c \<in> set ys"
      by blast
    have "fix_loop h (hd ((y # ys) @ [b])) n = Some (c, m)"
      using x False r(1) vbuf_next [OF Cons.prems(1)] by (subst fix_loop.simps) simp
    moreover have "szs h (xs @ [y]) + (n - csize x) = szs h xs + n" using False x(2) by simp
    then have "fixed h b (xs @ y # ys) c m (szs h xs + n)" using r(2) by (metis append.assoc append_Cons append_Nil)
    ultimately show ?thesis using r(3) by auto
  qed
qed simp

lemma iterator_fix_ok:
  assumes "vbuf h b cs" "iter_at h b cs (ichunk it) (ioffset it) p"
  obtains c n where "vbuffer_iterator_fix h it = Some (c, n)" "fixed h b cs c n p"
    "not_before (cs @ [b]) (ichunk it) c"
  using assms(2)
proof (cases rule: iter_at_cases)
  case end_chunk
  obtain e where "chunks h b = Some e" using vbuf_end [OF assms(1)] by blast
  then show ?thesis using end_chunk
    by (intro that [of b 0]) (auto simp: vbuffer_iterator_fix_def fixed_endI not_before_def)
next
  case (chunk xs ys)
  obtain x where x: "chunks h (ichunk it) = Some x" "csz h (ichunk it) = csize x"
    using vbuf_chunk [of h b xs "ichunk it" ys] assms(1) chunk(1) by blast
  have nb: "not_before (cs @ [b]) (ichunk it) c" if "c \<in> set (ichunk it # ys)" for c
    using chunk(1) that unfolding not_before_def
    by (intro exI [of _ xs] exI [of _ "ys @ [b]"]) auto
  show ?thesis
  proof (cases "ioffset it \<le> csize x")
    case True
    then show ?thesis using chunk x nb
      by (intro that [of "ichunk it" "ioffset it"])
        (auto simp: vbuffer_iterator_fix_def intro!: fixed_chunkI)
  next
    case False
    have "ioffset it \<le> szs h (ichunk it # ys)" using chunk by simp
    then obtain c m where "fix_loop h (ichunk it) (ioffset it) = Some (c, m)" "fixed h b cs c m p"
      "c \<in> set (ichunk it # ys)"
      using fix_loop_ok [of h b xs "ichunk it # ys" "ioffset it"] assms(1) chunk by auto
    then show ?thesis using False x nb
      by (intro that [of c m]) (auto simp: vbuffer_iterator_fix_def)
  qed
qed

section \<open>Moving forward\<close>

lemma advance_loop_ok:
  "vbuf h b (xs @ ys) \<Longrightarrow> n \<le> csz h (hd (ys @ [b])) \<Longrightarrow>
   \<exists>c m. advance_loop h (hd (ys @ [b])) n len = Some (c, m, (n + len) - szs h ys) \<and>
     fixed h b (xs @ ys) c m (szs h xs + min (n + len) (szs h ys)) \<and> c \<in> insert b (set ys)"
proof (induction ys arbitrary: xs n len)
  case Nil
  then have v: "vbuf h b xs" by simp
  obtain e where "chunks h b = Some e" "f_end (cflags e)" using vbuf_end [OF v] by blast
  then have "advance_loop h b n len = Some (b, 0, len)" by (subst advance_loop.simps) simp
  moreover have "n = 0" using Nil vbufD(8) [OF v] by simp
  ultimately show ?case using fixed_endI [of h b xs] by simp
next
  case (Cons y ys)
  obtain x where x: "chunks h y = Some x" "csz h y = csize x" "\<not> f_end (cflags x)"
    using vbuf_chunk [OF Cons.prems(1)] by blast
  have n: "n \<le> csize x" using Cons.prems(2) x(2) by simp
  show ?case
  proof (cases "csize x - n \<ge> len")
    case True
    then have "advance_loop h (hd ((y # ys) @ [b])) n len = Some (y, n + len, 0)"
      using x n by (subst advance_loop.simps) simp
    moreover have "(n + len) - szs h (y # ys) = 0" "min (n + len) (szs h (y # ys)) = n + len"
      using True n x(2) by simp_all
    ultimately show ?thesis using True n x(2) by (auto intro!: fixed_chunkI)
  next
    case False
    have v: "vbuf h b ((xs @ [y]) @ ys)" using Cons.prems(1) by simp
    let ?len = "len - (csize x - n)"
    from Cons.IH [OF v, of 0 ?len] obtain c m where
      r: "advance_loop h (hd (ys @ [b])) 0 ?len = Some (c, m, (0 + ?len) - szs h ys)"
      "fixed h b ((xs @ [y]) @ ys) c m (szs h (xs @ [y]) + min (0 + ?len) (szs h ys))" "c \<in> insert b (set ys)"
      by auto
    have "advance_loop h (hd ((y # ys) @ [b])) n len = Some (c, m, (0 + ?len) - szs h ys)"
      using x n False r(1) vbuf_next [OF Cons.prems(1)] by (subst advance_loop.simps) simp
    moreover have "(0 + ?len) - szs h ys = (n + len) - szs h (y # ys)" using n False x(2) by simp
    moreover have eq: "szs h (xs @ [y]) + min (0 + ?len) (szs h ys) = szs h xs + min (n + len) (szs h (y # ys))"
      using n False x(2) by auto
    have "fixed h b (xs @ y # ys) c m (szs h xs + min (n + len) (szs h (y # ys)))"
      using r(2) unfolding eq by simp
    ultimately show ?thesis using r(3) by (metis insertI2 insert_iff list.simps(15))
  qed
qed

lemma iterator_advance_ok:
  assumes ok: "heap_ok h" and v: "vbuf h b cs" and it: "itr h b cs it p"
  obtains it' where "vbuffer_iterator_advance h it len = Some (min len (szs h cs - p), it', h)"
    "itr h b cs it' (min (p + len) (szs h cs))" "ioffset it' \<le> csz h (ichunk it')"
    "imeter it' = to_u32 (imeter it + min len (szs h cs - p))"
proof -
  have nr: "\<not> iregistered it" and at: "iter_at h b cs (ichunk it) (ioffset it) p" using it by (simp_all add: itr_def)
  obtain c n where f: "vbuffer_iterator_fix h it = Some (c, n)" "fixed h b cs c n p"
    using v at by (rule iterator_fix_ok)
  obtain xs ys where s: "cs = xs @ ys" "c = hd (ys @ [b])" "p = szs h xs + n" "n \<le> csz h c"
    using f(2)
  proof (cases rule: fixed_cases)
    case end_chunk
    then show ?thesis using vbufD(8) [OF v] by (intro that [of cs "[]"]) auto
  next
    case (chunk xs ys)
    then show ?thesis by (intro that [of xs "c # ys"]) auto
  qed
  obtain c' m where a: "advance_loop h c n len = Some (c', m, (n + len) - szs h ys)"
    "fixed h b cs c' m (szs h xs + min (n + len) (szs h ys))" "c' \<in> insert b (set ys)"
    using advance_loop_ok [of h b xs ys n len] v s by auto
  have c'n: "c' \<noteq> NULL" using a(3) s(1) vbufD(2,3) [OF v] by auto
  have m: "to_u32 m = m" "m \<le> csz h c'" using fixed_bound [OF v a(2)] a(2) by (auto simp: fixed_def)
  have ple: "p \<le> szs h cs" by (rule iter_at_le [OF at])
  have r: "len - ((n + len) - szs h ys) = min len (szs h cs - p)" using s(1,3) ple by auto
  have q: "szs h xs + min (n + len) (szs h ys) = min (p + len) (szs h cs)" using s(1,3) by auto
  let ?it = "it\<lparr>ichunk := c', ioffset := m, imeter := to_u32 (imeter it + min len (szs h cs - p))\<rparr>"
  have "vbuffer_iterator_advance h it len = Some (min len (szs h cs - p), ?it, h)"
    using iterator_check_ok [OF ok v it] f(1) a(1) iterator_update_ok [OF nr c'n] m r
    by (simp add: vbuffer_iterator_advance_def)
  then show ?thesis
    by (rule that) (use a(2) q nr m in \<open>auto simp: itr_def fixed_def\<close>)
qed

section \<open>Counting the bytes left\<close>

lemma available_loop_ok:
  "vbuf h b (xs @ ys) \<Longrightarrow> n \<le> csz h (hd (ys @ [b])) \<Longrightarrow> cur < minsize \<Longrightarrow> cur + szs h ys < 2 ^ 64 \<Longrightarrow>
   available_loop h (hd (ys @ [b])) n NULL 0 minsize cur =
     Some (minsize \<le> cur + (szs h ys - n), Some (min minsize (cur + (szs h ys - n))), h)"
proof (induction ys arbitrary: xs n cur)
  case Nil
  then have v: "vbuf h b xs" by simp
  obtain e where "chunks h b = Some e" "f_end (cflags e)" using vbuf_end [OF v] by blast
  then show ?case using Nil.prems(3) by (subst available_loop.simps) simp
next
  case (Cons y ys)
  obtain x where x: "chunks h y = Some x" "csz h y = csize x" "\<not> f_end (cflags x)"
    using vbuf_chunk [OF Cons.prems(1)] by blast
  have n: "n \<le> csize x" using Cons.prems(2) x(2) by simp
  have v: "vbuf h b ((xs @ [y]) @ ys)" using Cons.prems(1) by simp
  let ?cur = "cur + (csize x - n)"
  have u: "to_u64 ?cur = ?cur" using Cons.prems(4) x(2) by simp
  show ?case
  proof (cases "?cur \<ge> minsize")
    case True
    then show ?thesis using x n u by (subst available_loop.simps) (simp add: Let_def)
  next
    case False
    have "available_loop h (hd (ys @ [b])) 0 NULL 0 minsize ?cur =
        Some (minsize \<le> ?cur + (szs h ys - 0), Some (min minsize (?cur + (szs h ys - 0))), h)"
      by (rule Cons.IH [OF v]) (use False Cons.prems(4) x(2) in auto)
    moreover have "?cur + (szs h ys - 0) = cur + (szs h (y # ys) - n)" using n x(2) by simp
    ultimately show ?thesis
      using x n u False vbuf_next [OF Cons.prems(1)] by (subst available_loop.simps) (simp add: Let_def)
  qed
qed

section \<open>Splitting a chunk\<close>

definition writable_all :: "vheap \<Rightarrow> addr list \<Rightarrow> bool" where
  "writable_all h cs \<longleftrightarrow> (\<forall>c \<in> set cs. \<exists>x. chunks h c = Some x \<and> f_writable (cflags x))"

definition no_ctl :: "vheap \<Rightarrow> addr list \<Rightarrow> bool" where
  "no_ctl h cs \<longleftrightarrow> (\<forall>c \<in> set cs. \<forall>x. chunks h c = Some x \<longrightarrow> \<not> f_ctl (cflags x))"

lemma vbuf_upd_chunk:
  assumes v: "vbuf h b cs" and "c \<noteq> b" "chunk_wf h y"
  shows "vbuf (h\<lparr>chunks := (chunks h)(c \<mapsto> y)\<rparr>) b cs"
proof -
  let ?h = "h\<lparr>chunks := (chunks h)(c \<mapsto> y)\<rparr>"
  have wf: "chunk_wf ?h z = chunk_wf h z" for z by (simp add: chunk_wf_def block_kind)
  have "\<exists>x. chunks ?h a = Some x \<and> chunk_wf ?h x" if "a \<in> set cs" for a
    using vbufD(7) [OF v that] assms(3) by (cases "a = c") (simp_all add: wf)
  then show ?thesis using vbufD(1,6) [OF v] assms(2) by (simp add: vbuf_def)
qed

lemma chunk_bytes_upd_other:
  "a \<noteq> c \<Longrightarrow> chunk_bytes (h\<lparr>chunks := (chunks h)(c \<mapsto> y)\<rparr>) a = chunk_bytes h a"
  by (rule chunk_bytes_cong) simp_all

lemma iter_at_iff:
  assumes "distinct (cs @ [b])"
  shows "iter_at h b cs c n p \<longleftrightarrow> c \<in> set (cs @ [b]) \<and> p = szs h (takeWhile (\<lambda>a. a \<noteq> c) (cs @ [b])) + n \<and> p \<le> szs h cs"
proof -
  have tw: "takeWhile (\<lambda>a. a \<noteq> c) (pre @ c # post) = pre" if "distinct (pre @ c # post)" for pre post
    using that by (subst takeWhile_append2) auto
  show ?thesis
  proof
    assume "iter_at h b cs c n p"
    then show "c \<in> set (cs @ [b]) \<and> p = szs h (takeWhile (\<lambda>a. a \<noteq> c) (cs @ [b])) + n \<and> p \<le> szs h cs"
      using tw assms unfolding iter_at_def by (metis in_set_conv_decomp)
  next
    assume a: "c \<in> set (cs @ [b]) \<and> p = szs h (takeWhile (\<lambda>a. a \<noteq> c) (cs @ [b])) + n \<and> p \<le> szs h cs"
    then obtain pre post where "cs @ [b] = pre @ c # post" using split_list by metis
    then show "iter_at h b cs c n p" using a tw assms unfolding iter_at_def by metis
  qed
qed

text \<open>Positions survive when chunk \<open>c\<close> is cut and the rest of it becomes a chunk \<open>d\<close> after it.\<close>

lemma iter_at_cut:
  assumes "distinct (xs @ c # d # ys @ [b])"
    and "\<And>a. a \<in> set (xs @ ys) \<Longrightarrow> csz h' a = csz h a" "csz h' c + csz h' d = csz h c"
    and "iter_at h b (xs @ c # ys) a n p"
  shows "iter_at h' b (xs @ c # d # ys) a n p"
proof -
  have sz: "szs h' zs = szs h zs" if "set zs \<subseteq> set (xs @ ys)" for zs
    by (rule szs_cong) (use that assms(2) in auto)
  have tot: "szs h' (xs @ c # d # ys) = szs h (xs @ c # ys)"
    using sz [of xs] sz [of ys] assms(3) by simp
  have d: "distinct ((xs @ c # ys) @ [b])" "distinct ((xs @ c # d # ys) @ [b])" using assms(1) by auto
  from assms(4) have i: "a \<in> set ((xs @ c # ys) @ [b])"
    "p = szs h (takeWhile (\<lambda>z. z \<noteq> a) ((xs @ c # ys) @ [b])) + n" "p \<le> szs h (xs @ c # ys)"
    unfolding iter_at_iff [OF d(1)] by auto
  have tw: "szs h' (takeWhile (\<lambda>z. z \<noteq> a) ((xs @ c # d # ys) @ [b])) =
      szs h (takeWhile (\<lambda>z. z \<noteq> a) ((xs @ c # ys) @ [b]))"
  proof (cases "a \<in> set xs")
    case True
    then have "takeWhile (\<lambda>z. z \<noteq> a) (xs @ zs) = takeWhile (\<lambda>z. z \<noteq> a) xs" for zs
      by (subst takeWhile_append1) auto
    moreover have "set (takeWhile (\<lambda>z. z \<noteq> a) xs) \<subseteq> set (xs @ ys)" by (auto dest: set_takeWhileD)
    ultimately show ?thesis using sz by simp
  next
    case False
    then have x: "takeWhile (\<lambda>z. z \<noteq> a) (xs @ zs) = xs @ takeWhile (\<lambda>z. z \<noteq> a) zs" for zs
      by (subst takeWhile_append2) auto
    show ?thesis
    proof (cases "a = c")
      case True
      then show ?thesis using x sz [of xs] by simp
    next
      case False
      then have "a \<noteq> d" using i(1) assms(1) \<open>a \<notin> set xs\<close> by auto
      have "szs h' (takeWhile (\<lambda>z. z \<noteq> a) (ys @ [b])) = szs h (takeWhile (\<lambda>z. z \<noteq> a) (ys @ [b]))"
      proof (cases "a \<in> set ys")
        case True
        then have "takeWhile (\<lambda>z. z \<noteq> a) (ys @ [b]) = takeWhile (\<lambda>z. z \<noteq> a) ys"
          by (subst takeWhile_append1) auto
        moreover have "set (takeWhile (\<lambda>z. z \<noteq> a) ys) \<subseteq> set (xs @ ys)" by (auto dest: set_takeWhileD)
        ultimately show ?thesis using sz by simp
      next
        case ny: False
        then have "a = b" using i(1) False \<open>a \<notin> set xs\<close> by auto
        then have "takeWhile (\<lambda>z. z \<noteq> a) (ys @ [b]) = ys" using ny by (subst takeWhile_append2) auto
        then show ?thesis using sz [of ys] by simp
      qed
      then show ?thesis using x False \<open>a \<noteq> d\<close> sz [of xs] assms(3) by simp
    qed
  qed
  show ?thesis
    unfolding iter_at_iff [OF d(2)] using i tw tot by auto
qed

text \<open>
  What a split guarantees: the buffer has the same bytes and every position is still valid; new
  chunks are fresh; flags that hold for the whole buffer still do.
\<close>

definition refined :: "vheap \<Rightarrow> addr \<Rightarrow> addr list \<Rightarrow> vheap \<Rightarrow> addr list \<Rightarrow> bool" where
  "refined h b cs h' cs' \<longleftrightarrow> heap_ok h' \<and> vbuf h' b cs' \<and> content h' cs' = content h cs \<and>
     frame_off (insert b (set cs)) h h' \<and>
     (\<forall>c n p. iter_at h b cs c n p \<longrightarrow> iter_at h' b cs' c n p) \<and>
     set cs \<subseteq> set cs' \<and> (\<forall>a \<in> set cs'. a \<notin> set cs \<longrightarrow> fresh h \<le> a) \<and>
     (writable_all h (cs @ [b]) \<longrightarrow> writable_all h' (cs' @ [b])) \<and> (no_ctl h cs \<longrightarrow> no_ctl h' cs')"

lemma refinedD:
  assumes "refined h b cs h' cs'"
  shows "heap_ok h'" "vbuf h' b cs'" "content h' cs' = content h cs" "frame_off (insert b (set cs)) h h'"
    "iter_at h b cs c n p \<Longrightarrow> iter_at h' b cs' c n p" "itr h b cs it p \<Longrightarrow> itr h' b cs' it p"
    "set cs \<subseteq> set cs'" "a \<in> set cs' \<Longrightarrow> a \<notin> set cs \<Longrightarrow> fresh h \<le> a"
    "writable_all h (cs @ [b]) \<Longrightarrow> writable_all h' (cs' @ [b])" "no_ctl h cs \<Longrightarrow> no_ctl h' cs'"
  using assms unfolding refined_def itr_def by blast+

lemma refined_trans:
  assumes ok: "heap_ok h" and v: "vbuf h b cs" and 1: "refined h b cs h1 cs1" and 2: "refined h1 b cs1 h2 cs2"
  shows "refined h b cs h2 cs2"
proof -
  have fl: "fresh h \<le> fresh h1" using refinedD(4) [OF 1] by (simp add: frame_off_def)
  have fr: "frame_off (insert b (set cs)) h h2"
    by (rule frame_off_trans [OF ok refinedD(4) [OF 1] refinedD(4) [OF 2]])
      (use refinedD(8) [OF 1] in \<open>auto simp: not_le [symmetric]\<close>)
  have nw: "fresh h \<le> a" if "a \<in> set cs2" "a \<notin> set cs" for a
    using refinedD(8) [OF 1, of a] refinedD(8) [OF 2, of a] that fl by fastforce
  show ?thesis
    unfolding refined_def
    using refinedD(1,2,3,5,7,9,10) [OF 1] refinedD(1,2,3,5,7,9,10) [OF 2] fr nw by auto
qed

lemma refined_mark:
  assumes ok: "heap_ok h" and v: "vbuf h b cs" and x: "chunks h c = Some x" and c: "c \<in> insert b (set cs)"
    and y: "same_shape x y" "f_writable (cflags y) = f_writable (cflags x)"
  shows "refined h b cs (h\<lparr>chunks := (chunks h)(c \<mapsto> y)\<rparr>) cs"
proof -
  note sh = same_shape_upd [OF x y(1)]
  have "frame_off (insert b (set cs)) h (h\<lparr>chunks := (chunks h)(c \<mapsto> y)\<rparr>)"
    by (rule frame_off_upd_chunk [OF c])
  moreover have "iter_at (h\<lparr>chunks := (chunks h)(c \<mapsto> y)\<rparr>) b cs = iter_at h b cs"
    by (simp add: fun_eq_iff iter_at_def sh(4))
  ultimately show ?thesis
    unfolding refined_def
    using sh(2,5) sh(6) [OF ok] v x y by (auto simp: writable_all_def no_ctl_def same_shape_def)
qed

text \<open>Cutting a data chunk in two.\<close>

lemma cut_chunk:
  assumes ok: "heap_ok h" and v: "vbuf h b (xs @ c # ys)" and x: "chunks h c = Some x"
    and n: "0 < n" "n < csize x" and bud: "0 < budget h"
  obtains d h2 lk h' where
    "vbuffer_chunk_create h (cdata x) (coffset x + n) (csize x - n) = Some (d, h2)"
    "d = fresh h" "chunks h2 c = Some x" "chunks h2 d = Some (data_chunk (cdata x) (coffset x + n) (csize x - n))"
    "h' = h2\<lparr>chunks := (chunks h2)(c \<mapsto> x\<lparr>csize := n\<rparr>, d \<mapsto> (data_chunk (cdata x) (coffset x + n) (csize x - n))\<lparr>cflags := cflags x\<rparr>)\<rparr>"
    "list2_next (links h') c = Some (hd (ys @ [b]))"
    "list2_insert (links h') (hd (ys @ [b])) d = Some (d, lk)"
    "refined h b (xs @ c # ys) (h'\<lparr>links := lk\<rparr>) (xs @ c # d # ys)"
    "content (h'\<lparr>links := lk\<rparr>) (xs @ [c]) = content h xs @ take n (chunk_bytes h c)"
    "budget (h'\<lparr>links := lk\<rparr>) = budget h - 1"
proof -
  note D = heap_okD [OF ok]
  let ?d = "fresh h" and ?x1 = "data_chunk (cdata x) (coffset x + n) (csize x - n)"
  obtain xw where "chunks h c = Some xw" "chunk_wf h xw" using vbuf_chunk [OF v] by blast
  then have wf: "chunk_wf h x" using x by simp
  have ctl: "\<not> f_ctl (cflags x)" using wf n by (auto simp: chunk_wf_def)
  then obtain bs where bs: "block h (cdata x) = Some bs" "coffset x + csize x \<le> length bs"
    "coffset x + csize x < 2 ^ 32" "cdata x \<noteq> NULL" using wf by (auto simp: chunk_wf_def)
  have dd: "cdata x \<in> dom (datas h)" using bs(1) by (auto simp: block_def split: option.splits)
  let ?h2 = "add_chunk h ?x1 free_elem"
  have cr: "vbuffer_chunk_create h (cdata x) (coffset x + n) (csize x - n) = Some (?d, ?h2)"
    by (rule vbuffer_chunk_create_ok [OF ok bud dd]) (use bs(3) n in auto)
  have ok2: "heap_ok ?h2" by (rule heap_ok_add_chunk [OF ok]) (use dd in auto)
  have cd: "c \<noteq> ?d" using D(6) x by auto
  have dn: "?d \<notin> insert b (set (xs @ c # ys))"
    using vbufD(6,7) [OF v] D(6) by (metis insert_iff option.distinct(1))
  have v2: "vbuf ?h2 b (xs @ c # ys)"
    by (rule vbuf_frame(1) [OF ok v frame_off_add_chunk [where S = "{}"]]) simp
  let ?y = "x\<lparr>csize := n\<rparr>" and ?z = "?x1\<lparr>cflags := cflags x\<rparr>"
  let ?h3 = "?h2\<lparr>chunks := (chunks ?h2)(c \<mapsto> ?y)\<rparr>"
  let ?h' = "?h3\<lparr>chunks := (chunks ?h3)(?d \<mapsto> ?z)\<rparr>"
  have bl: "block ?h2 (cdata x) = Some bs" "block ?h3 (cdata x) = Some bs" "block ?h' (cdata x) = Some bs"
    using bs(1) by (simp_all add: block_kind)
  have x2: "chunks ?h2 c = Some x" using x cd by simp
  have cb: "c \<noteq> b" using vbufD(4) [OF v] by auto
  have v3: "vbuf ?h3 b (xs @ c # ys)"
    by (rule vbuf_upd_chunk [OF v2 cb]) (use wf bl n bs in \<open>auto simp: chunk_wf_def\<close>)
  have ok3: "heap_ok ?h3"
    by (rule heap_ok_upd_chunk [OF ok2 x2]) (use D(4) [OF x] in auto)
  have z3: "chunks ?h3 ?d = Some ?x1" using cd by simp
  have v4: "vbuf ?h' b (xs @ c # ys)"
    by (rule vbuf_upd_chunk [OF v3]) (use dn wf bl n bs in \<open>auto simp: chunk_wf_def\<close>)
  have ok4: "heap_ok ?h'" by (rule heap_ok_upd_chunk [OF ok3 z3]) auto
  have det: "detached (links ?h') ?d" using D(3) by (simp add: detached_def)
  have wz: "chunk_wf ?h' ?z" using wf bl n bs by (auto simp: chunk_wf_def)
  have v4': "vbuf ?h' b ((xs @ [c]) @ ys)" using v4 by simp
  obtain lk where lk: "list2_insert (links ?h') (hd (ys @ [b])) ?d = Some (?d, lk)"
    "vbuf (?h'\<lparr>links := lk\<rparr>) b ((xs @ [c]) @ ?d # ys)" "heap_ok (?h'\<lparr>links := lk\<rparr>)"
    "frame_off (insert ?d (insert b (set ((xs @ [c]) @ ys)))) ?h' (?h'\<lparr>links := lk\<rparr>)"
    by (rule vbuf_insert [OF ok4 v4' det, of ?z]) (use dn wz in auto)
  let ?hf = "?h'\<lparr>links := lk\<rparr>"
  have byc: "chunk_bytes ?hf c = take n (chunk_bytes h c)"
    using x cd ctl bl bs n by (simp add: chunk_bytes_def min_def)
  have byd: "chunk_bytes ?hf ?d = drop n (chunk_bytes h c)"
    using x ctl bl bs n by (simp add: chunk_bytes_def drop_take add.commute)
  have byo: "chunk_bytes ?hf a = chunk_bytes h a" if "a \<in> set (xs @ ys)" for a
  proof (rule chunk_bytes_cong)
    have "a \<noteq> c" "a \<noteq> ?d" using that vbufD(5) [OF v] dn by auto
    then show "chunks ?hf a = chunks h a" by simp
  qed simp
  have cts: "content ?hf xs = content h xs" "content ?hf ys = content h ys"
    by (rule content_cong; use byo in simp)+
  have csz: "csz ?hf a = csz h a" if "a \<in> set (xs @ ys)" for a
  proof -
    have "a \<noteq> c" "a \<noteq> ?d" using that vbufD(5) [OF v] dn by auto
    then show ?thesis by (simp add: csz_def)
  qed
  have cut: "csz ?hf c + csz ?hf ?d = csz h c" using x cd n by (simp add: csz_def)
  have fr: "frame_off (insert b (set (xs @ c # ys))) h ?hf"
  proof (rule frame_off_trans [OF ok _ lk(4)])
    have "frame_off (insert b (set (xs @ c # ys))) h ?h3"
      by (rule frame_off_trans [OF ok frame_off_add_chunk frame_off_upd_chunk [where S = "{c}"]]) auto
    then show "frame_off (insert b (set (xs @ c # ys))) h ?h'"
      by (rule frame_off_trans [OF ok _ frame_off_upd_chunk [where S = "{?d}"]]) auto
  qed auto
  have nx: "list2_next (links ?h') c = Some (hd (ys @ [b]))"
    by (rule seq_next [OF vbufD(1) [OF v4]])
  have wr: "writable_all ?hf ((xs @ c # ?d # ys) @ [b])" if w: "writable_all h ((xs @ c # ys) @ [b])"
  proof -
    have "f_writable (cflags x)" using w x by (auto simp: writable_all_def)
    then show ?thesis using w by (auto simp: writable_all_def)
  qed
  have nc: "no_ctl ?hf (xs @ c # ?d # ys)" if "no_ctl h (xs @ c # ys)"
    using that ctl by (auto simp: no_ctl_def)
  have rf: "refined h b (xs @ c # ys) ?hf (xs @ c # ?d # ys)"
    unfolding refined_def
  proof (intro conjI allI impI ballI)
    show "iter_at ?hf b (xs @ c # ?d # ys) a m p" if "iter_at h b (xs @ c # ys) a m p" for a m p
      by (rule iter_at_cut [OF _ csz cut that]) (use vbufD(4,5) [OF v] dn in auto)
    show "content ?hf (xs @ c # ?d # ys) = content h (xs @ c # ys)"
      using byc byd cts by simp
  qed (use lk(2,3) fr wr nc in auto)
  show ?thesis
    by (rule that [OF cr refl x2 _ _ nx lk(1) rf]) (use byc cts in simp_all)
qed

lemma mark_step:
  assumes "chunks h c = Some x" "mark \<Longrightarrow> f_writable (cflags x)"
  shows "(if mark then do { (w, h) \<leftarrow> vbuffer_chunk_check_writeable h c;
            if \<not> w then Some (False, h)
            else do { h \<leftarrow> vbuffer_chunk_mark_modified h c; Some (True, h) } }
          else Some (True, h)) =
         Some (True, h\<lparr>chunks := (chunks h)(c \<mapsto> (if mark then set_modified True x else x))\<rparr>)"
  using assms
  by (auto simp: vbuffer_chunk_check_writeable_def vbuffer_chunk_mark_modified_def fun_upd_idem)

lemma split_chunk_ok:
  assumes ok: "heap_ok h" and v: "vbuf h b cs" and it: "itr h b cs it p"
    and bud: "0 < budget h" and wr: "mark \<Longrightarrow> writable_all h (cs @ [b])"
  obtains c h' xs ys where "vbuffer_iterator_split_chunk h it mark = Some (c, h')"
    "refined h b cs h' (xs @ ys)" "c = hd (ys @ [b])" "content h' xs = take p (content h cs)"
    "budget h \<le> Suc (budget h')"
proof -
  have at: "iter_at h b cs (ichunk it) (ioffset it) p" using it by (simp add: itr_def)
  obtain c n where f: "vbuffer_iterator_fix h it = Some (c, n)" "fixed h b cs c n p"
    using v at by (rule iterator_fix_ok)
  have cin: "c \<in> insert b (set cs)" using f(2) iter_at_in [of h b cs c n p] by (simp add: fixed_def)
  obtain x where x: "chunks h c = Some x" using vbuf_linked [OF ok v cin] by blast
  let ?x = "if mark then set_modified True x else x"
  let ?h1 = "h\<lparr>chunks := (chunks h)(c \<mapsto> ?x)\<rparr>"
  have w: "mark \<Longrightarrow> f_writable (cflags x)" using wr cin x by (auto simp: writable_all_def)
  have sh: "same_shape x ?x" "f_writable (cflags ?x) = f_writable (cflags x)"
    by (simp_all add: same_shape_def set_modified_def)
  have r1: "refined h b cs ?h1 cs" by (rule refined_mark [OF ok v x cin sh])
  note v1 = refinedD(2) [OF r1] and ok1 = refinedD(1) [OF r1] and ct1 = same_shape_upd(2) [OF x sh(1)]
  have start: "vbuffer_iterator_split_chunk h it mark =
    (if n = 0 \<or> f_end (cflags x) then Some (c, ?h1)
     else if n = csize x then do { nx \<leftarrow> vbuffer_chunk_next ?h1 c; Some (nx, ?h1) }
     else do {
         assert_that (\<not> f_ctl (cflags x));
         (newchunk, h) \<leftarrow> vbuffer_chunk_create ?h1 (cdata x) (coffset x + n) (sub_u64 (csize x) n);
         h \<leftarrow> upd_chunk h c (\<lambda>x. x\<lparr>csize := to_u32 n\<rparr>);
         h \<leftarrow> upd_chunk h newchunk (\<lambda>y. y\<lparr>cflags := cflags ?x\<rparr>);
         nx \<leftarrow> list2_next (links h) c;
         (_, h) \<leftarrow> with_links h (list2_insert (links h) nx newchunk);
         Some (newchunk, h)
       })"
    unfolding vbuffer_iterator_split_chunk_def
    using iterator_check_ok [OF ok v it] f(1) mark_step [OF x w]
    by (simp add: set_modified_def)
  show ?thesis
    using f(2)
  proof (cases rule: fixed_cases)
    case end_chunk
    then have sp: "vbuffer_iterator_split_chunk h it mark = Some (c, ?h1)" using start by simp
    have tk: "content ?h1 cs = take p (content h cs)"
      using end_chunk length_content_all [OF v] ct1 by (metis take_all order_refl)
    show ?thesis
      by (rule that [of c ?h1 cs "[]", OF sp _ _ tk]) (use r1 end_chunk in simp_all)
  next
    case (chunk xs ys)
    have cs: "vbuf h b (xs @ c # ys)" using v chunk(1) by simp
    have xc: "\<not> f_end (cflags x)" "csz h c = csize x" "chunk_wf h x"
      using vbuf_chunk [OF cs] x by auto
    have lx: "length (content h xs) = szs h xs" by (rule length_content [OF v]) (use chunk in auto)
    have lc: "length (chunk_bytes h c) = csize x" using chunk_wf_bytes [OF x xc(3)] xc(2) by simp
    have tk: "take p (content h cs) = content h xs @ take n (chunk_bytes h c)"
      using chunk lx lc xc(2) by simp
    consider "n = 0" | "n = csize x" "n \<noteq> 0" | "0 < n" "n < csize x" using chunk(3) xc(2) by force
    then show ?thesis
    proof cases
      case 1
      then have sp: "vbuffer_iterator_split_chunk h it mark = Some (c, ?h1)" using start by simp
      show ?thesis
        by (rule that [of c ?h1 xs "c # ys", OF sp]) (use r1 chunk tk ct1 1 in simp_all)
    next
      case 2
      have "vbuffer_chunk_next ?h1 c = Some (hd (ys @ [b]))"
        by (rule vbuf_next [of _ _ xs]) (use v1 chunk in simp)
      then have sp: "vbuffer_iterator_split_chunk h it mark = Some (hd (ys @ [b]), ?h1)"
        using start 2 xc(1) by simp
      have tk2: "content ?h1 (xs @ [c]) = take p (content h cs)" using tk ct1 2 lc by simp
      show ?thesis
        by (rule that [of "hd (ys @ [b])" ?h1 "xs @ [c]" ys, OF sp _ refl tk2]) (use r1 chunk in simp_all)
    next
      case 3
      have v1': "vbuf ?h1 b (xs @ c # ys)" using v1 chunk(1) by simp
      have x1: "chunks ?h1 c = Some ?x" by simp
      have xe: "cdata ?x = cdata x" "coffset ?x = coffset x" "csize ?x = csize x"
        by (simp_all add: set_modified_def)
      have n1: "n < csize ?x" "0 < budget ?h1" using 3 bud xe by simp_all
      obtain d h2 lk h' where cut:
        "vbuffer_chunk_create ?h1 (cdata ?x) (coffset ?x + n) (csize ?x - n) = Some (d, h2)"
        "d = fresh ?h1" "chunks h2 c = Some ?x"
        "chunks h2 d = Some (data_chunk (cdata ?x) (coffset ?x + n) (csize ?x - n))"
        "h' = h2\<lparr>chunks := (chunks h2)(c \<mapsto> ?x\<lparr>csize := n\<rparr>, d \<mapsto> (data_chunk (cdata ?x) (coffset ?x + n) (csize ?x - n))\<lparr>cflags := cflags ?x\<rparr>)\<rparr>"
        "list2_next (links h') c = Some (hd (ys @ [b]))"
        "list2_insert (links h') (hd (ys @ [b])) d = Some (d, lk)"
        "refined ?h1 b (xs @ c # ys) (h'\<lparr>links := lk\<rparr>) (xs @ c # d # ys)"
        "content (h'\<lparr>links := lk\<rparr>) (xs @ [c]) = content ?h1 xs @ take n (chunk_bytes ?h1 c)"
        "budget (h'\<lparr>links := lk\<rparr>) = budget ?h1 - 1"
        using ok1 v1' x1 3(1) n1 by (rule cut_chunk)
      have ctl: "\<not> f_ctl (cflags x)" using xc(3) 3 by (auto simp: chunk_wf_def)
      have nb: "n < 2 ^ 32" by (rule fixed_bound [OF v f(2)])
      have dc: "d \<noteq> c" using cut(2) heap_okD(4) [OF ok x] by auto
      have "links h2 = links h'" using cut(5) by simp
      have sp: "vbuffer_iterator_split_chunk h it mark = Some (d, h'\<lparr>links := lk\<rparr>)"
        unfolding start using cut(1,3-7) xe 3 xc(1) ctl nb dc
        by (simp del: fun_upd_apply add: fun_upd_same fun_upd_other)
      have rf: "refined h b cs (h'\<lparr>links := lk\<rparr>) ((xs @ [c]) @ d # ys)"
        using refined_trans [OF ok v r1] cut(8) chunk(1) by simp
      have tk3: "content (h'\<lparr>links := lk\<rparr>) (xs @ [c]) = take p (content h cs)"
        using cut(9) tk ct1 same_shape_upd(1) [OF x sh(1)] by simp
      show ?thesis
        by (rule that [of d "h'\<lparr>links := lk\<rparr>" "xs @ [c]" "d # ys", OF sp rf _ tk3])
          (use cut(10) bud in simp_all)
    qed
  qed
qed

section \<open>Reading bytes\<close>

lemma get_data_read:
  assumes "chunks h c = Some x" "chunk_wf h x" "\<not> f_ctl (cflags x)"
  shows "vbuffer_chunk_get_data h c False = Some ((cdata x, coffset x), h)"
proof -
  obtain bs where "block h (cdata x) = Some bs" "cdata x \<noteq> NULL" using assms(2,3) by (auto simp: chunk_wf_def)
  then have "data_ops_get h (cdata x) False = Some (cdata x, 0)"
    by (auto simp: block_def data_ops_get_def split: option.splits data_kind.splits)
  then show ?thesis using assms \<open>cdata x \<noteq> NULL\<close>
    by (simp add: vbuffer_chunk_get_data_def ptr_add_def)
qed

lemma load_chunk:
  assumes "chunks h c = Some x" "chunk_wf h x" "\<not> f_ctl (cflags x)" "n + k \<le> csize x"
  shows "load h (cdata x, coffset x + n) k = Some (take k (drop n (chunk_bytes h c)))"
proof -
  obtain bs where "block h (cdata x) = Some bs" "coffset x + csize x \<le> length bs"
    using assms(2,3) by (auto simp: chunk_wf_def)
  then show ?thesis using assms
    by (simp add: load_def chunk_bytes_def drop_take min_def add.commute)
qed

lemma iterator_mmap_loop_ok:
  "vbuf h b (xs @ ys) \<Longrightarrow> n \<le> csz h (hd (ys @ [b])) \<Longrightarrow> n < szs h ys \<Longrightarrow> 0 < maxsize \<Longrightarrow> \<not> iregistered it \<Longrightarrow>
   \<exists>ptr k it'. iterator_mmap_loop h it (hd (ys @ [b])) n maxsize False = Some (ptr, Some k, it', h) \<and>
     ptr \<noteq> NULL_ptr \<and> 0 < k \<and> k \<le> maxsize \<and> k \<le> szs h ys - n \<and>
     load h ptr k = Some (take k (drop n (content h ys))) \<and> itr h b (xs @ ys) it' (szs h xs + n + k)"
proof (induction ys arbitrary: xs n)
  case (Cons y ys)
  obtain x where x: "chunks h y = Some x" "csz h y = csize x" "\<not> f_end (cflags x)" "chunk_wf h x"
    using vbuf_chunk [OF Cons.prems(1)] by blast
  have n: "n \<le> csize x" using Cons.prems(2) x(2) by simp
  have nx: "vbuffer_chunk_next h y = Some (hd (ys @ [b]))" by (rule vbuf_next [OF Cons.prems(1)])
  have yn: "y \<noteq> NULL" "hd (ys @ [b]) \<noteq> NULL"
    using vbufD(2,3) [OF Cons.prems(1)] hd_snoc_in [of ys b] by auto
  have ly: "length (chunk_bytes h y) = csize x" using chunk_wf_bytes [OF x(1,4)] x(2) by simp
  have v: "vbuf h b ((xs @ [y]) @ ys)" using Cons.prems(1) by simp
  show ?case
  proof (cases "n < csize x")
    case True
    then have ctl: "\<not> f_ctl (cflags x)" using x(4) by (auto simp: chunk_wf_def)
    have dn: "cdata x \<noteq> NULL" using x(4) by (simp add: chunk_wf_def)
    let ?k = "if maxsize \<noteq> SIZE_ALL \<and> csize x - n > maxsize then maxsize else csize x - n"
    let ?it = "if maxsize \<noteq> SIZE_ALL \<and> csize x - n > maxsize then it\<lparr>ichunk := y, ioffset := n + maxsize\<rparr>
      else it\<lparr>ichunk := hd (ys @ [b]), ioffset := 0\<rparr>"
    have sx: "csize x < 2 ^ 32" by (rule chunk_wf_size [OF x(4)])
    have u: "maxsize < csize x - n \<Longrightarrow> to_u32 (n + maxsize) = n + maxsize" using sx by simp
    have st: "iterator_mmap_loop h it (hd ((y # ys) @ [b])) n maxsize False =
        Some ((cdata x, coffset x + n), Some ?k, ?it, h)"
      using True x ctl nx yn sx iterator_update_ok [OF Cons.prems(5)] get_data_read [OF x(1,4) ctl]
      by (subst iterator_mmap_loop.simps) (simp add: ptr_add_def u)
    have k: "0 < ?k" "?k \<le> maxsize" "?k \<le> csize x - n"
      using True Cons.prems(4) sx by (auto simp: SIZE_ALL_def)
    have ld: "load h (cdata x, coffset x + n) ?k = Some (take ?k (drop n (content h (y # ys))))"
      using load_chunk [OF x(1,4) ctl, of n ?k] k(3) n ly True by simp
    have pos: "itr h b (xs @ y # ys) ?it (szs h xs + n + ?k)"
    proof (cases "maxsize \<noteq> SIZE_ALL \<and> csize x - n > maxsize")
      case True
      then show ?thesis using Cons.prems(5) x(2) n
        by (auto simp: itr_def intro!: iter_at_chunkI)
    next
      case False
      have "iter_at h b (xs @ y # ys) (hd (ys @ [b])) 0 (szs h xs + csize x)"
      proof (cases ys)
        case Nil
        then show ?thesis using iter_at_endI [of h b "xs @ [y]"] x(2) by simp
      next
        case (Cons z zs)
        then show ?thesis
          using iter_at_chunkI [of "szs h xs + csize x" h "xs @ [y]" 0 z zs b] x(2) by simp
      qed
      moreover have "szs h xs + n + (csize x - n) = szs h xs + csize x" using n by simp
      ultimately show ?thesis unfolding if_not_P [OF False] using Cons.prems(5) by (simp add: itr_def)
    qed
    have k4: "?k \<le> szs h (y # ys) - n" by (rule order_trans [OF k(3)]) (use x(2) in simp)
    have pn: "(cdata x, coffset x + n) \<noteq> NULL_ptr" using dn by simp
    show ?thesis using st k(1,2) k4 pn ld pos by blast
  next
    case False
    then have nc: "n = csize x" using n by simp
    have "0 < szs h ys" using Cons.prems(3) x(2) nc by simp
    from Cons.IH [OF v _ this Cons.prems(4,5)] obtain ptr k it' where
      r: "iterator_mmap_loop h it (hd (ys @ [b])) 0 maxsize False = Some (ptr, Some k, it', h)"
      "ptr \<noteq> NULL_ptr" "0 < k" "k \<le> maxsize" "k \<le> szs h ys - 0"
      "load h ptr k = Some (take k (drop 0 (content h ys)))"
      "itr h b ((xs @ [y]) @ ys) it' (szs h (xs @ [y]) + 0 + k)" by auto
    have st: "iterator_mmap_loop h it (hd ((y # ys) @ [b])) n maxsize False = Some (ptr, Some k, it', h)"
      using r(1) x nx nc by (subst iterator_mmap_loop.simps) simp
    have ld: "load h ptr k = Some (take k (drop n (content h (y # ys))))" using r(6) nc ly by simp
    have pos: "itr h b (xs @ y # ys) it' (szs h xs + n + k)" using r(7) nc x(2) by simp
    have k: "k \<le> szs h (y # ys) - n" using r(5) nc x(2) by simp
    show ?thesis using st r(2,3,4) k ld pos by blast
  qed
qed simp

lemma fixed_split:
  assumes "vbuf h b cs" "fixed h b cs c n p"
  obtains xs ys where "cs = xs @ ys" "c = hd (ys @ [b])" "p = szs h xs + n" "n \<le> csz h c" "n \<le> szs h ys"
  using assms(2)
proof (cases rule: fixed_cases)
  case end_chunk
  then show ?thesis using vbufD(8) [OF assms(1)] by (intro that [of cs "[]"]) auto
next
  case (chunk xs ys)
  then show ?thesis by (intro that [of xs "c # ys"]) auto
qed

lemma iterator_mmap_ok:
  assumes ok: "heap_ok h" and v: "vbuf h b cs" and it: "itr h b cs it p" and p: "p < szs h cs" and m: "0 < maxsize"
  obtains ptr k it' where "vbuffer_iterator_mmap h it maxsize False = Some (ptr, Some k, it', h)"
    "ptr \<noteq> NULL_ptr" "0 < k" "k \<le> maxsize" "k \<le> szs h cs - p"
    "load h ptr k = Some (take k (drop p (content h cs)))" "itr h b cs it' (p + k)"
proof -
  have at: "iter_at h b cs (ichunk it) (ioffset it) p" and nr: "\<not> iregistered it" using it by (simp_all add: itr_def)
  obtain c n where f: "vbuffer_iterator_fix h it = Some (c, n)" "fixed h b cs c n p"
    using v at by (rule iterator_fix_ok)
  obtain xs ys where s: "cs = xs @ ys" "c = hd (ys @ [b])" "p = szs h xs + n" "n \<le> csz h c" "n \<le> szs h ys"
    using v f(2) by (rule fixed_split)
  have lx: "length (content h xs) = szs h xs" by (rule length_content [OF v]) (use s in auto)
  obtain ptr k it' where r: "iterator_mmap_loop h it c n maxsize False = Some (ptr, Some k, it', h)"
    "ptr \<noteq> NULL_ptr" "0 < k" "k \<le> maxsize" "k \<le> szs h ys - n"
    "load h ptr k = Some (take k (drop n (content h ys)))" "itr h b cs it' (szs h xs + n + k)"
    using iterator_mmap_loop_ok [of h b xs ys n maxsize it] v s p m nr by auto
  have "vbuffer_iterator_mmap h it maxsize False = Some (ptr, Some k, it', h)"
    using iterator_check_ok [OF ok v it] f(1) r(1) m by (simp add: vbuffer_iterator_mmap_def)
  then show ?thesis
    by (rule that) (use r s lx in simp_all)
qed

lemma iterator_mmap_end:
  assumes ok: "heap_ok h" and v: "vbuf h b cs" and it: "itr h b cs it (szs h cs)"
  shows "vbuffer_iterator_mmap h it maxsize w = Some (NULL_ptr, None, it, h)"
proof (cases "maxsize = 0")
  case True
  then show ?thesis using iterator_check_ok [OF ok v it] by (simp add: vbuffer_iterator_mmap_def)
next
  case False
  have at: "iter_at h b cs (ichunk it) (ioffset it) (szs h cs)" using it by (simp add: itr_def)
  obtain c n where f: "vbuffer_iterator_fix h it = Some (c, n)" "fixed h b cs c n (szs h cs)"
    using v at by (rule iterator_fix_ok)
  obtain xs ys where s: "cs = xs @ ys" "c = hd (ys @ [b])" "szs h cs = szs h xs + n" "n \<le> csz h c" "n \<le> szs h ys"
    using v f(2) by (rule fixed_split)
  have loop: "vbuf h b (xs @ ys) \<Longrightarrow> n = szs h ys \<Longrightarrow> n \<le> csz h (hd (ys @ [b])) \<Longrightarrow>
    iterator_mmap_loop h it (hd (ys @ [b])) n maxsize w = Some (NULL_ptr, None, it, h)" for xs ys n
  proof (induction ys arbitrary: xs n)
    case Nil
    then have v: "vbuf h b xs" by simp
    obtain e where "chunks h b = Some e" "f_end (cflags e)" using vbuf_end [OF v] by blast
    then show ?case by (subst iterator_mmap_loop.simps) simp
  next
    case (Cons y ys)
    obtain x where x: "chunks h y = Some x" "csz h y = csize x" "\<not> f_end (cflags x)"
      using vbuf_chunk [OF Cons.prems(1)] by blast
    have n: "n = csize x" "szs h ys = 0" using Cons.prems(2,3) x(2) by auto
    have "iterator_mmap_loop h it (hd (ys @ [b])) 0 maxsize w = Some (NULL_ptr, None, it, h)"
      using Cons.IH [of "xs @ [y]" 0] Cons.prems(1) n by simp
    then show ?case using x n vbuf_next [OF Cons.prems(1)]
      by (subst iterator_mmap_loop.simps) simp
  qed
  have "iterator_mmap_loop h it c n maxsize w = Some (NULL_ptr, None, it, h)"
    unfolding s(2) by (rule loop [of xs]) (use v s in simp_all)
  then show ?thesis
    using iterator_check_ok [OF ok v it] f(1) False by (simp add: vbuffer_iterator_mmap_def)
qed

section \<open>Positions in a buffer\<close>

lemma append_take_drop_eq: "xs @ ys = zs \<Longrightarrow> xs = take p zs \<Longrightarrow> ys = drop p zs"
  by (metis append_take_drop_id same_append_eq)

lemma iter_at_beginI: "iter_at h b cs (hd (cs @ [b])) 0 0"
proof (cases cs)
  case Nil
  then show ?thesis using iter_at_endI [of h b "[]"] by simp
next
  case (Cons c ds)
  then show ?thesis using iter_at_chunkI [of 0 h "[]" 0 c ds b] by simp
qed

lemma vbuffer_begin_ok:
  assumes "vbuf h b cs"
  shows "vbuffer_begin h b it = Some (it\<lparr>ichunk := hd (cs @ [b]), ioffset := 0, iregistered := False\<rparr>, h)"
    "itr h b cs (it\<lparr>ichunk := hd (cs @ [b]), ioffset := 0, iregistered := False\<rparr>) 0"
  using vbufD(2) [OF assms] vbuf_begin [OF assms] iter_at_beginI [of h b cs]
  by (simp_all add: vbuffer_begin_def vbuffer_position_def vbuffer_isvalid_def itr_def SIZE_ALL_def)

lemma vbuffer_end_ok:
  assumes "vbuf h b cs"
  shows "vbuffer_end h b it = Some (it\<lparr>ichunk := b, ioffset := 0, iregistered := False\<rparr>, h)"
    "itr h b cs (it\<lparr>ichunk := b, ioffset := 0, iregistered := False\<rparr>) (szs h cs)"
  using vbufD(2) [OF assms] iter_at_endI [of h b cs]
  by (simp_all add: vbuffer_end_def vbuffer_position_def vbuffer_isvalid_def itr_def)

lemma vbuffer_position_ok:
  assumes ok: "heap_ok h" and v: "vbuf h b cs" and "off \<noteq> SIZE_ALL"
  obtains it' where "vbuffer_position h b it off = Some (it', h)" "itr h b cs it' (min off (szs h cs))"
proof (cases "off = 0")
  case True
  then show ?thesis
    using vbuffer_begin_ok [OF v, of it] that by (simp add: vbuffer_begin_def)
next
  case False
  let ?it = "it\<lparr>ichunk := hd (cs @ [b]), ioffset := 0, iregistered := False\<rparr>"
  obtain it' where a: "vbuffer_iterator_advance h ?it off = Some (min off (szs h cs - 0), it', h)"
    "itr h b cs it' (min (0 + off) (szs h cs))"
    using ok v vbuffer_begin_ok(2) [OF v] by (rule iterator_advance_ok)
  have "vbuffer_position h b it off = Some (it', h)"
    using a False assms(3) vbufD(2) [OF v] vbuf_begin [OF v]
    by (simp add: vbuffer_position_def vbuffer_isvalid_def)
  then show ?thesis by (rule that) (use a in simp)
qed

lemma getbyte_ok:
  assumes ok: "heap_ok h" and v: "vbuf h b cs" and it: "itr h b cs it p" and p: "p < szs h cs"
  obtains it' where "vbuffer_iterator_getbyte h it = Some (content h cs ! p, it', h)" "itr h b cs it' (p + 1)"
proof -
  obtain ptr k it' where r: "vbuffer_iterator_mmap h it 1 False = Some (ptr, Some k, it', h)"
    "ptr \<noteq> NULL_ptr" "0 < k" "k \<le> 1" "load h ptr k = Some (take k (drop p (content h cs)))" "itr h b cs it' (p + k)"
    using ok v it p zero_less_one by (rule iterator_mmap_ok)
  have k: "k = 1" using r(3,4) by simp
  have "hd (take 1 (drop p (content h cs))) = content h cs ! p"
    using p v by (simp add: hd_drop_conv_nth take_Suc)
  then have "vbuffer_iterator_getbyte h it = Some (content h cs ! p, it', h)"
    using r k iterator_check_ok [OF ok v it] by (simp add: vbuffer_iterator_getbyte_def)
  then show ?thesis by (rule that) (use r(6) k in simp)
qed

section \<open>Properties\<close>

text \<open>C19.  Positions are byte offsets: positioning an iterator at an offset inside a buffer, however
  the bytes are spread over chunks (empty and control chunks included), and reading a byte gives the
  byte of the buffer at that offset and moves the iterator by one; advancing by \<open>len\<close> moves the
  position by \<open>len\<close>, or to the end of the buffer, and returns the distance moved.\<close>

theorem vbuffer_position_reads:
  assumes "heap_ok h" "vbuf h b cs" "off < length (content h cs)" "off \<noteq> SIZE_ALL"
  shows "\<exists>it it' it''. vbuffer_position h b it0 off = Some (it, h) \<and> itr h b cs it off \<and>
    vbuffer_iterator_getbyte h it = Some (content h cs ! off, it', h) \<and> itr h b cs it' (off + 1) \<and>
    vbuffer_iterator_advance h it len = Some (min len (length (content h cs) - off), it'', h) \<and>
    itr h b cs it'' (min (off + len) (length (content h cs)))"
proof -
  have lc: "length (content h cs) = szs h cs" by (rule length_content_all [OF assms(2)])
  obtain it where it: "vbuffer_position h b it0 off = Some (it, h)" "itr h b cs it (min off (szs h cs))"
    using assms(1,2,4) by (rule vbuffer_position_ok)
  have at: "itr h b cs it off" "off < szs h cs" using it(2) assms(3) lc by simp_all
  obtain it' where it': "vbuffer_iterator_getbyte h it = Some (content h cs ! off, it', h)" "itr h b cs it' (off + 1)"
    using assms(1,2) at by (rule getbyte_ok)
  obtain it'' where "vbuffer_iterator_advance h it len = Some (min len (szs h cs - off), it'', h)"
    "itr h b cs it'' (min (off + len) (szs h cs))"
    using assms(1,2) at(1) by (rule iterator_advance_ok)
  with it it' at lc show ?thesis by metis
qed

theorem vbuffer_position_reads_witness:
  "\<exists>h b c it it' h'. content h [c] = [7, 8, 9] \<and> vbuffer_position h b vbuffer_iterator_init 1 = Some (it, h) \<and>
     vbuffer_iterator_getbyte h it = Some (8, it', h')"
proof -
  obtain h b c m d where h: "heap_ok h" "vbuf h b [c]" "content h [c] = [7, 8, 9]"
    using two_buffers [of "[7, 8, 9]" "[]" 0] by auto
  have "1 < length (content h [c])" "(1 :: nat) \<noteq> SIZE_ALL" using h(3) by (simp_all add: SIZE_ALL_def)
  from vbuffer_position_reads [OF h(1,2) this, of vbuffer_iterator_init 0] h(3) show ?thesis
    by (metis One_nat_def nth_Cons_0 nth_Cons_Suc)
qed

text \<open>C20.  \<open>vbuffer_iterator_check_available\<close> answers whether at least \<open>minsize\<close> bytes follow the
  iterator, and reports \<open>minsize\<close> or the exact number of bytes left;
  \<open>vbuffer_iterator_available\<close> is that number.\<close>

theorem iterator_available_exact:
  assumes "heap_ok h" "vbuf h b cs" "itr h b cs it p" "length (content h cs) < SIZE_ALL"
  shows "vbuffer_iterator_check_available h it minsize =
      Some (minsize \<le> length (content h cs) - p, Some (min minsize (length (content h cs) - p)), h) \<and>
    vbuffer_iterator_available h it = Some (length (content h cs) - p, h)"
proof -
  have lc: "length (content h cs) = szs h cs" by (rule length_content_all [OF assms(2)])
  have at: "iter_at h b cs (ichunk it) (ioffset it) p" using assms(3) by (simp add: itr_def)
  obtain c n where f: "vbuffer_iterator_fix h it = Some (c, n)" "fixed h b cs c n p"
    using assms(2) at by (rule iterator_fix_ok)
  obtain xs ys where s: "cs = xs @ ys" "c = hd (ys @ [b])" "p = szs h xs + n" "n \<le> csz h c"
    using assms(2) f(2) by (rule fixed_split)
  have l: "szs h ys < 2 ^ 64" using assms(4) lc s(1) by (simp add: SIZE_ALL_def)
  have loop: "vbuffer_iterator_check_available h it k =
      Some (k \<le> szs h cs - p, Some (min k (szs h cs - p)), h)" for k
  proof (cases "k = 0")
    case True
    then show ?thesis using iterator_check_ok [OF assms(1-3)]
      by (simp add: vbuffer_iterator_check_available_def vbuffer_iterator_check_available_end_def)
  next
    case False
    then show ?thesis
      using iterator_check_ok [OF assms(1-3)] f(1) s available_loop_ok [of h b xs ys n 0 k] assms(2) l
      by (simp add: vbuffer_iterator_check_available_def vbuffer_iterator_check_available_end_def)
  qed
  show ?thesis
    using loop [of minsize] loop [of SIZE_ALL] lc assms(4)
    by (simp add: vbuffer_iterator_available_def)
qed

theorem iterator_available_exact_witness:
  "\<exists>h c it. content h [c] = [7, 8, 9] \<and> vbuffer_iterator_available h it = Some (3, h)"
proof -
  obtain h b c m d where h: "heap_ok h" "vbuf h b [c]" "content h [c] = [7, 8, 9]"
    using two_buffers [of "[7, 8, 9]" "[]" 0] by auto
  from iterator_available_exact [OF h(1,2) vbuffer_begin_ok(2) [OF h(2)], of vbuffer_iterator_init 0] h(3)
  have "vbuffer_iterator_available h
      (vbuffer_iterator_init\<lparr>ichunk := hd ([c] @ [b]), ioffset := 0, iregistered := False\<rparr>) = Some (3, h)"
    by (simp add: SIZE_ALL_def)
  with h(3) show ?thesis by blast
qed

text \<open>C6.  Splitting a buffer at an iterator keeps the bytes of the buffer and leaves the iterator at
  the start of a chunk, at the same position; every other unregistered iterator into the buffer keeps
  its position, and nothing outside the buffer changes.\<close>

theorem iterator_split_keeps:
  assumes "heap_ok h" "vbuf h b cs" "itr h b cs it p" "0 < budget h"
  shows "\<exists>it' h' xs ys. vbuffer_iterator_split h it = Some (True, it', h') \<and> heap_ok h' \<and>
    vbuf h' b (xs @ ys) \<and> content h' xs = take p (content h cs) \<and> content h' ys = drop p (content h cs) \<and>
    ichunk it' = hd (ys @ [b]) \<and> ioffset it' = 0 \<and> itr h' b (xs @ ys) it' p \<and>
    (\<forall>it2 q. itr h b cs it2 q \<longrightarrow> itr h' b (xs @ ys) it2 q) \<and> frame_off (insert b (set cs)) h h'"
proof -
  obtain c h' xs ys where s: "vbuffer_iterator_split_chunk h it False = Some (c, h')"
    "refined h b cs h' (xs @ ys)" "c = hd (ys @ [b])" "content h' xs = take p (content h cs)"
    by (rule split_chunk_ok [OF assms(1-4), of False]) auto
  note R = refinedD [OF s(2)]
  have p: "p \<le> length (content h cs)" using assms(2,3) iter_at_le [of h b cs] by (auto simp: itr_def)
  have lx: "szs h' xs = p"
  proof -
    have "length (content h' xs) = szs h' xs" by (rule length_content [OF R(2)]) auto
    then show ?thesis using s(4) p by simp
  qed
  have dr: "content h' ys = drop p (content h cs)"
    by (rule append_take_drop_eq [OF _ s(4)]) (use R(3) in simp)
  have cn: "c \<noteq> NULL" using s(3) vbufD(2,3) [OF R(2)] hd_snoc_in [of ys b] by auto
  let ?it = "it\<lparr>ichunk := c, ioffset := 0\<rparr>"
  have nr: "\<not> iregistered it" using assms(3) by (simp add: itr_def)
  have sp: "vbuffer_iterator_split h it = Some (True, ?it, h')"
    using iterator_check_ok [OF assms(1-3)] s(1) cn iterator_update_ok [OF nr cn]
    by (simp add: vbuffer_iterator_split_def)
  have at: "itr h' b (xs @ ys) ?it p"
  proof (cases ys)
    case Nil
    then show ?thesis using s(3) nr lx iter_at_endI [of h' b xs] by (simp add: itr_def)
  next
    case (Cons y zs)
    then show ?thesis using s(3) nr lx iter_at_chunkI [of p h' xs 0 y zs b] by (simp add: itr_def)
  qed
  show ?thesis
    by (intro exI [of _ ?it] exI [of _ h'] exI [of _ xs] exI [of _ ys] conjI allI impI)
      (use sp R(1,2,4) s(3,4) dr at R(6) in simp_all)
qed

theorem iterator_split_keeps_witness:
  "\<exists>h b c it it' h' xs ys. content h [c] = [7, 8, 9] \<and> vbuffer_iterator_split h it = Some (True, it', h') \<and>
     content h' xs = [7] \<and> content h' ys = [8, 9]"
proof -
  obtain h b c m d where h: "heap_ok h" "vbuf h b [c]" "content h [c] = [7, 8, 9]" "budget h = 1"
    using two_buffers [of "[7, 8, 9]" "[]" 1] by auto
  have o: "(1 :: nat) \<noteq> SIZE_ALL" by (simp add: SIZE_ALL_def)
  obtain it where "itr h b [c] it (min 1 (szs h [c]))" using h(1,2) o by (rule vbuffer_position_ok)
  then have "itr h b [c] it 1" using length_content_all [OF h(2)] h(3) by simp
  from iterator_split_keeps [OF h(1,2) this] h(4) obtain it' h' xs ys where
    "vbuffer_iterator_split h it = Some (True, it', h')" "content h' xs = take 1 (content h [c])"
    "content h' ys = drop 1 (content h [c])" by auto
  then have "vbuffer_iterator_split h it = Some (True, it', h') \<and> content h' xs = [7] \<and> content h' ys = [8, 9]"
    using h(3) by simp
  with h(3) show ?thesis by blast
qed

text \<open>C21.  Setting a byte of a read-only chunk: at the start of the chunk the function reports
  \<open>read only buffer\<close> and returns false, but at any other offset it does not complete, because
  \<open>vbuffer_iterator_mmap\<close> adds the offset to the null pointer before the caller tests it.\<close>

theorem setbyte_readonly:
  assumes "heap_ok h" "vbuf h b (xs @ c # ys)" "chunks h c = Some x" "\<not> f_writable (cflags x)"
    and "\<not> iregistered it" "ichunk it = c" "ioffset it < csize x"
  shows "if ioffset it = 0
    then \<exists>it'. vbuffer_iterator_setbyte h it v = Some (False, it', raise_error h ''read only buffer'')
    else vbuffer_iterator_setbyte h it v = None"
proof -
  let ?n = "ioffset it"
  obtain xw where "chunks h c = Some xw" "chunk_wf h xw" "\<not> f_end (cflags xw)" "csz h c = csize xw"
    using vbuf_chunk [OF assms(2)] by blast
  then have xc: "\<not> f_end (cflags x)" "csz h c = csize x" "chunk_wf h x" using assms(3) by auto
  have ctl: "\<not> f_ctl (cflags x)" using xc(3) assms(7) by (auto simp: chunk_wf_def)
  have it: "itr h b (xs @ c # ys) it (szs h xs + ?n)"
    using assms(5-7) xc(2) by (auto simp: itr_def intro!: iter_at_chunkI)
  have ck: "vbuffer_iterator_check h it = Some (True, h)" by (rule iterator_check_ok [OF assms(1,2) it])
  have fx: "vbuffer_iterator_fix h it = Some (c, ?n)" using assms(3,6,7) by (simp add: vbuffer_iterator_fix_def)
  have gd: "vbuffer_chunk_get_data h c True = Some (NULL_ptr, raise_error h ''read only buffer'')"
    using assms(3,4) by (simp add: vbuffer_chunk_get_data_def vbuffer_chunk_check_writeable_def)
  have cn: "c \<noteq> NULL" "hd (ys @ [b]) \<noteq> NULL"
    using vbufD(2,3) [OF assms(2)] hd_snoc_in [of ys b] by auto
  obtain it' where mm: "vbuffer_iterator_mmap h it 1 True =
      Some ((0, ?n), Some 1, it', raise_error h ''read only buffer'')"
  proof (cases "csize x - ?n > 1")
    case True
    then show ?thesis
      using ck fx assms(3,7) xc ctl gd iterator_update_ok [OF assms(5) cn(1)] that
      by (simp add: vbuffer_iterator_mmap_def iterator_mmap_loop.simps [of h it c] ptr_add_def SIZE_ALL_def)
  next
    case False
    then have l1: "csize x - ?n = 1" using assms(7) by simp
    then show ?thesis
      using ck fx assms(3,7) xc ctl gd iterator_update_ok [OF assms(5) cn(2)] vbuf_next [OF assms(2)] that
      by (simp add: vbuffer_iterator_mmap_def iterator_mmap_loop.simps [of h it c] ptr_add_def SIZE_ALL_def)
  qed
  have "store (raise_error h ''read only buffer'') (0, ?n) [v] = None"
    using heap_okD(10) [OF assms(1)] by (simp add: store_def block_def)
  then show ?thesis using ck mm by (simp add: vbuffer_iterator_setbyte_def)
qed

text \<open>A read-only buffer, for the witness.\<close>

lemma readonly_buffer:
  "\<exists>h b c x. heap_ok h \<and> vbuf h b [c] \<and> chunks h c = Some x \<and> \<not> f_writable (cflags x) \<and> csize x = 2 \<and>
     content h [c] = [1, 2] \<and> budget h = n"
proof -
  have e: "3 \<le> budget (empty_heap (n + 3))" "length [1, 2 :: u8] < 2 ^ 32" by (simp_all add: empty_heap_def)
  obtain b c h where h: "heap_ok h" "vbuf h b [c]" "content h [c] = [1, 2]"
    "budget h = budget (empty_heap (n + 3)) - 3"
    "chunks h c = Some (data_chunk (fresh (empty_heap (n + 3))) 0 (length [1, 2 :: u8]))"
    using heap_ok_empty_heap e by (rule vbuffer_create_from_ok)
  let ?x = "data_chunk (fresh (empty_heap (n + 3))) 0 (length [1, 2 :: u8])"
  let ?y = "set_writable False ?x"
  note sh = same_shape_upd [OF h(5) same_shape_flags(2) [of ?x False]]
  show ?thesis
    by (intro exI [of _ "h\<lparr>chunks := (chunks h)(c \<mapsto> ?y)\<rparr>"] exI [of _ b] exI [of _ c] exI [of _ ?y] conjI)
      (use sh(2,5) sh(6) [OF h(1)] h in \<open>simp_all add: set_writable_def empty_heap_def\<close>)
qed

theorem setbyte_readonly_witness:
  "\<exists>h it. vbuffer_iterator_setbyte h it 5 = None \<and> (\<exists>b c. vbuf h b [c] \<and> content h [c] = [1, 2] \<and> itr h b [c] it 1)"
proof -
  obtain h b c x where h: "heap_ok h" "vbuf h b ([] @ c # [])" "chunks h c = Some x" "\<not> f_writable (cflags x)"
    "csize x = 2" "content h [c] = [1, 2]"
    using readonly_buffer [of 0] by auto
  let ?it = "vbuffer_iterator_init\<lparr>ichunk := c, ioffset := 1\<rparr>"
  have "vbuffer_iterator_setbyte h ?it 5 = None"
    using setbyte_readonly [OF h(1-4), of ?it 5] h(5) by (simp add: vbuffer_iterator_init_def)
  moreover have "itr h b [c] ?it 1"
    using h(3,5) iter_at_chunkI [of 1 h "[]" 1 c "[]" b] by (simp add: itr_def vbuffer_iterator_init_def csz_def)
  ultimately show ?thesis using h by auto
qed

text \<open>C22.  A registered iterator survives the removal of its chunk: after the chunk is cleared the
  iterator is reported as invalid (no freed memory is touched), and clearing the iterator frees the
  chunk.  An iterator that was not registered is left dangling: using it does not complete.\<close>

theorem registered_iterator_safe:
  assumes "heap_ok h" "vbuf h b (xs @ c # ys)" "chunks h c = Some x" "cref x = 1"
    and "\<not> iregistered it" "ichunk it = c" "ioffset it \<le> csize x"
  shows "\<exists>it' h1 h2 h3 it3 h4. vbuffer_iterator_register h it = Some (True, it', h1) \<and>
    vbuffer_chunk_clear h1 c = Some h2 \<and> heap_ok h2 \<and>
    vbuffer_iterator_check h2 it' = Some (False, raise_error h2 ''invalid buffer iterator'') \<and>
    vbuffer_iterator_clear h2 it' = Some (it3, h3) \<and> chunks h3 c = None \<and>
    vbuffer_chunk_clear h c = Some h4 \<and> vbuffer_iterator_check h4 it = None"
proof -
  have cb: "c \<noteq> b" "c \<noteq> NULL" using vbufD(3,4) [OF assms(2)] by auto
  obtain xw where "chunks h c = Some xw" "chunk_wf h xw" "\<not> f_end (cflags xw)" "csz h c = csize xw"
    using vbuf_chunk [OF assms(2)] by blast
  then have xc: "\<not> f_end (cflags x)" "csz h c = csize x" "chunk_wf h x" using assms(3) by auto
  have it: "itr h b (xs @ c # ys) it (szs h xs + ioffset it)"
    using assms(5-7) xc(2) by (auto simp: itr_def intro!: iter_at_chunkI)
  let ?x = "x\<lparr>cref := 2\<rparr>" and ?it = "it\<lparr>iregistered := True\<rparr>"
  let ?h1 = "h\<lparr>chunks := (chunks h)(c \<mapsto> ?x)\<rparr>"
  have rg: "vbuffer_iterator_register h it = Some (True, ?it, ?h1)"
    using iterator_check_ok [OF assms(1,2) it] assms(3-6)
    by (simp add: vbuffer_iterator_register_def vbuffer_chunk_addref_def)
  have ok1: "heap_ok ?h1" by (rule heap_ok_upd_chunk [OF assms(1,3)]) auto
  have v1: "vbuf ?h1 b (xs @ c # ys)"
    by (rule vbuf_upd_chunk [OF assms(2) cb(1)]) (use xc(3) in \<open>auto simp: chunk_wf_def\<close>)
  have x1: "chunks ?h1 c = Some ?x" by simp
  obtain lk where c1: "vbuffer_chunk_clear ?h1 c = Some (drop_chunk ?h1 c ?x lk)"
    "heap_ok (drop_chunk ?h1 c ?x lk)" "vbuf (drop_chunk ?h1 c ?x lk) b (xs @ ys)"
    using ok1 v1 x1 by (rule vbuf_clear_chunk)
  let ?h2 = "drop_chunk ?h1 c ?x lk"
  have x2: "chunks ?h2 c = Some (?x\<lparr>cdata := NULL, cref := 1\<rparr>)" by (simp add: drop_chunk_def)
  obtain e2 where e2: "links ?h2 c = Some e2"
    using heap_okD(2) [OF c1(2)] x2 by (metis domD domI)
  obtain lk4 where c4: "vbuffer_chunk_clear h c = Some (drop_chunk h c x lk4)"
    using assms(1-3) by (rule vbuf_clear_chunk)
  have det: "\<not> (lnext e2 \<noteq> NULL \<and> lprev e2 \<noteq> NULL)"
    using detached_after_clear [OF ok1 v1 x1 c1(1)] e2 by (auto simp: drop_chunk_def detached_def)
  have ck2: "vbuffer_iterator_check ?h2 ?it = Some (False, raise_error ?h2 ''invalid buffer iterator'')"
    using x2 e2 assms(6) cb xc(1) by (simp add: vbuffer_iterator_check_def vbuffer_iterator_isvalid_def)
  have cl: "vbuffer_iterator_clear ?h2 ?it = Some (?it\<lparr>iregistered := False, ichunk := NULL\<rparr>,
      free_chunk (?h2\<lparr>chunks := (chunks ?h2)(c \<mapsto> ?x\<lparr>cdata := NULL, cref := 0\<rparr>)\<rparr>) c)"
    using x2 e2 det assms(6) cb
    by (simp add: vbuffer_iterator_clear_def vbuffer_chunk_release_def list2_elem_check_def)
  have ck4: "vbuffer_iterator_check (drop_chunk h c x lk4) it = None"
    using assms(4,6) cb by (simp add: vbuffer_iterator_check_def vbuffer_iterator_isvalid_def drop_chunk_def)
  show ?thesis
    using rg c1(1,2) ck2 cl c4 ck4 by (intro exI conjI) (assumption | simp add: free_chunk_def)+
qed

theorem registered_iterator_safe_witness:
  "\<exists>h it it' h1 h2 c. vbuffer_iterator_register h it = Some (True, it', h1) \<and>
     vbuffer_chunk_clear h1 c = Some h2 \<and> ichunk it = c \<and>
     vbuffer_iterator_check h2 it' = Some (False, raise_error h2 ''invalid buffer iterator'')"
proof -
  have e: "3 \<le> budget (empty_heap 3)" "length [1, 2 :: u8] < 2 ^ 32" by (simp_all add: empty_heap_def)
  obtain b c h where h: "heap_ok h" "vbuf h b [c]"
    "chunks h c = Some (data_chunk (fresh (empty_heap 3)) 0 (length [1, 2 :: u8]))"
    using heap_ok_empty_heap e by (rule vbuffer_create_from_ok)
  have v: "vbuf h b ([] @ c # [])" using h(2) by simp
  let ?it = "vbuffer_iterator_init\<lparr>ichunk := c\<rparr>"
  have "\<exists>it' h1 h2 h3 it3 h4. vbuffer_iterator_register h ?it = Some (True, it', h1) \<and>
    vbuffer_chunk_clear h1 c = Some h2 \<and> heap_ok h2 \<and>
    vbuffer_iterator_check h2 it' = Some (False, raise_error h2 ''invalid buffer iterator'') \<and>
    vbuffer_iterator_clear h2 it' = Some (it3, h3) \<and> chunks h3 c = None \<and>
    vbuffer_chunk_clear h c = Some h4 \<and> vbuffer_iterator_check h4 ?it = None"
    by (rule registered_iterator_safe [OF h(1) v h(3)]) (simp_all add: vbuffer_iterator_init_def)
  moreover have "ichunk ?it = c" by simp
  ultimately show ?thesis by blast
qed

end
