(* ===== verification/VBuffer_Sub.thy ===== *)
theory VBuffer_Sub
  imports VBuffer_Iterator
begin

text \<open>
  Sub-buffers: the third part of \<open>lib/haka/vbuffer.c\<close> (insertion, extraction, selection,
  replacement, flattening and cloning of a range of a buffer).

  A sub-buffer is a begin iterator and either an end iterator or a length, which C keeps in a union
  selected by \<open>use_size\<close>.  The union is a datatype; reading the length while it holds an iterator
  gives the low 32 bits of its first field, the chunk pointer.
\<close>

datatype sub_union = Sub_end vbuffer_iterator | Sub_length nat

record vbuffer_sub =
  sbegin :: vbuffer_iterator
  use_size :: bool
  sunion :: sub_union

definition vbuffer_sub_init :: vbuffer_sub where
  "vbuffer_sub_init =
     \<lparr>sbegin = vbuffer_iterator_init, use_size = False, sunion = Sub_end vbuffer_iterator_init\<rparr>"

definition slength :: "vbuffer_sub \<Rightarrow> nat" where
  "slength data = (case sunion data of Sub_length n \<Rightarrow> n | Sub_end e \<Rightarrow> to_u32 (ichunk e))"

definition send :: "vbuffer_sub \<Rightarrow> vbuffer_iterator option" where
  "send data = (case sunion data of Sub_end e \<Rightarrow> Some e | Sub_length _ \<Rightarrow> None)"

definition vbuffer_sub_check :: "vheap \<Rightarrow> vbuffer_sub \<Rightarrow> (bool \<times> vheap) option" where
  "vbuffer_sub_check h data = do {
     (ok, h) \<leftarrow> vbuffer_iterator_check h (sbegin data);
     if \<not> ok then Some (False, h)
     else if \<not> use_size data then do {
       e \<leftarrow> send data;
       vbuffer_iterator_check h e
     } else Some (True, h)
   }"

definition vbuffer_sub_clear :: "vheap \<Rightarrow> vbuffer_sub \<Rightarrow> (vbuffer_sub \<times> vheap) option" where
  "vbuffer_sub_clear h data = do {
     (b, h) \<leftarrow> vbuffer_iterator_clear h (sbegin data);
     let data = data\<lparr>sbegin := b\<rparr>;
     if \<not> use_size data then do {
       e \<leftarrow> send data;
       (e, h) \<leftarrow> vbuffer_iterator_clear h e;
       Some (data\<lparr>sunion := Sub_end e\<rparr>, h)
     } else Some (data, h)
   }"

definition vbuffer_sub_register :: "vheap \<Rightarrow> vbuffer_sub \<Rightarrow> (bool \<times> vbuffer_sub \<times> vheap) option" where
  "vbuffer_sub_register h data = do {
     (r, b, h) \<leftarrow> vbuffer_iterator_register h (sbegin data);
     let data = data\<lparr>sbegin := b\<rparr>;
     if \<not> use_size data then do {
       e \<leftarrow> send data;
       (r', e, h) \<leftarrow> vbuffer_iterator_register h e;
       Some (r \<and> r', data\<lparr>sunion := Sub_end e\<rparr>, h)
     } else Some (r, data, h)
   }"

definition vbuffer_sub_unregister :: "vheap \<Rightarrow> vbuffer_sub \<Rightarrow> (bool \<times> vbuffer_sub \<times> vheap) option" where
  "vbuffer_sub_unregister h data = do {
     (r, b, h) \<leftarrow> vbuffer_iterator_unregister h (sbegin data);
     let data = data\<lparr>sbegin := b\<rparr>;
     if \<not> use_size data then do {
       e \<leftarrow> send data;
       (r', e, h) \<leftarrow> vbuffer_iterator_unregister h e;
       Some (r \<and> r', data\<lparr>sunion := Sub_end e\<rparr>, h)
     } else Some (r, data, h)
   }"

definition vbuffer_sub_create :: "vheap \<Rightarrow> addr \<Rightarrow> nat \<Rightarrow> nat \<Rightarrow> (vbuffer_sub \<times> vheap) option" where
  "vbuffer_sub_create h buffer offset len = do {
     (b, h) \<leftarrow> vbuffer_begin h buffer (sbegin vbuffer_sub_init);
     (b, h) \<leftarrow> (if offset \<noteq> 0 then do {
          (_, b, h) \<leftarrow> vbuffer_iterator_advance h b offset;
          Some (b, h)
        } else Some (b, h));
     (e, h) \<leftarrow> (if len = SIZE_ALL then vbuffer_end h buffer vbuffer_iterator_init
        else do {
          (e, h) \<leftarrow> vbuffer_iterator_copy h b;
          (_, e, h) \<leftarrow> vbuffer_iterator_advance h e len;
          Some (e, h)
        });
     Some (\<lparr>sbegin = b, use_size = False, sunion = Sub_end e\<rparr>, h)
   }"

definition vbuffer_sub_create_from_position ::
    "vheap \<Rightarrow> vbuffer_iterator \<Rightarrow> nat \<Rightarrow> (vbuffer_sub \<times> vheap) option" where
  "vbuffer_sub_create_from_position h position len = do {
     (b, h) \<leftarrow> vbuffer_iterator_copy h position;
     Some (\<lparr>sbegin = b, use_size = True, sunion = Sub_length (to_u32 len)\<rparr>, h)
   }"

definition vbuffer_sub_create_between_position ::
    "vheap \<Rightarrow> vbuffer_iterator \<Rightarrow> vbuffer_iterator \<Rightarrow> (vbuffer_sub \<times> vheap) option" where
  "vbuffer_sub_create_between_position h b e = do {
     (b', h) \<leftarrow> vbuffer_iterator_copy h b;
     (e', h) \<leftarrow> vbuffer_iterator_copy h e;
     Some (\<lparr>sbegin = b', use_size = False, sunion = Sub_end e'\<rparr>, h)
   }"

definition vbuffer_iterator_insert ::
    "vheap \<Rightarrow> vbuffer_iterator \<Rightarrow> addr \<Rightarrow> (bool \<times> vbuffer_iterator \<times> vbuffer_sub option \<times> vheap) option" where
  "vbuffer_iterator_insert h position buffer = do {
     (ok, h) \<leftarrow> vbuffer_iterator_check h position;
     if \<not> ok then Some (False, position, None, h)
     else do {
       assert_that (vbuffer_isvalid buffer);
       list \<leftarrow> vbuffer_chunk_list buffer;
       emp \<leftarrow> list2_empty (links h) list;
       if emp then do {
         (sub, h) \<leftarrow> vbuffer_sub_create_between_position h position position;
         Some (True, position, Some sub, h)
       } else do {
         (ins, h) \<leftarrow> vbuffer_iterator_split_chunk h position True;
         if ins = NULL then Some (False, position, None, h)
         else do {
           (bg, h) \<leftarrow> vbuffer_begin h buffer (iterator_uninit h);
           first \<leftarrow> list2_begin (links h) list;
           (_, h) \<leftarrow> with_links h (list2_insert_list (links h) ins first (list2_end list));
           (position, h) \<leftarrow> vbuffer_iterator_update h position ins 0;
           x \<leftarrow> chunks h (ichunk bg);
           (sub, h) \<leftarrow> vbuffer_sub_create_between_position h
                        (if f_end (cflags x) then position else bg) position;
           emp \<leftarrow> list2_empty (links h) list;
           assert_that emp;
           Some (True, position, Some sub, h)
         }
       }
     }
   }"

definition vbuffer_iterator_sub ::
    "vheap \<Rightarrow> vbuffer_iterator \<Rightarrow> nat \<Rightarrow> bool \<Rightarrow>
     (nat \<times> vbuffer_iterator \<times> vbuffer_sub option \<times> vheap) option" where
  "vbuffer_iterator_sub h position len split = do {
     (ok, h) \<leftarrow> vbuffer_iterator_check h position;
     if \<not> ok then Some (SIZE_ALL, position, None, h)
     else do {
       (bg, h) \<leftarrow> vbuffer_iterator_copy h position;
       (len, position, h) \<leftarrow> vbuffer_iterator_advance h position len;
       (failed, position, h) \<leftarrow> (if split then do {
           (iter, h) \<leftarrow> vbuffer_iterator_split_chunk h position False;
           if iter = NULL then do {
             let (e, h) = has_error h;
             assert_that e;
             (position, h) \<leftarrow> vbuffer_iterator_update h position (ichunk bg) (ioffset bg);
             Some (True, position, h)
           } else do {
             (position, h) \<leftarrow> vbuffer_iterator_update h position iter 0;
             Some (False, position, h)
           }
         } else Some (False, position, h));
       if failed then Some (SIZE_ALL, position, None, h)
       else do {
         (sub, h) \<leftarrow> vbuffer_sub_create_from_position h bg len;
         Some (len, position, Some sub, h)
       }
     }
   }"

definition vbuffer_sub_begin :: "vheap \<Rightarrow> vbuffer_sub \<Rightarrow> (vbuffer_iterator \<times> vheap) option" where
  "vbuffer_sub_begin h data = vbuffer_iterator_copy h (sbegin data)"

definition vbuffer_sub_end :: "vheap \<Rightarrow> vbuffer_sub \<Rightarrow> (vbuffer_iterator \<times> vheap) option" where
  "vbuffer_sub_end h data =
     (if use_size data then do {
        (e, h) \<leftarrow> vbuffer_iterator_copy h (sbegin data);
        (_, e, h) \<leftarrow> vbuffer_iterator_advance h e (slength data);
        Some (e, h)
      } else do {
        e \<leftarrow> send data;
        vbuffer_iterator_copy h e
      })"

definition vbuffer_sub_position :: "vheap \<Rightarrow> vbuffer_sub \<Rightarrow> nat \<Rightarrow> (vbuffer_iterator \<times> vheap) option" where
  "vbuffer_sub_position h data offset =
     (if offset = SIZE_ALL then vbuffer_sub_end h data
      else do {
        (iter, h) \<leftarrow> vbuffer_iterator_copy h (sbegin data);
        if offset > 0 then do {
          (_, iter, h) \<leftarrow> vbuffer_iterator_advance h iter offset;
          Some (iter, h)
        } else Some (iter, h)
      })"

definition vbuffer_sub_sub :: "vheap \<Rightarrow> vbuffer_sub \<Rightarrow> nat \<Rightarrow> nat \<Rightarrow> (vbuffer_sub \<times> vheap) option" where
  "vbuffer_sub_sub h data offset len = do {
     (b, h) \<leftarrow> vbuffer_sub_position h data offset;
     if len = SIZE_ALL then do {
       (e, h) \<leftarrow> vbuffer_sub_position h data SIZE_ALL;
       Some (\<lparr>sbegin = b, use_size = False, sunion = Sub_end e\<rparr>, h)
     } else Some (\<lparr>sbegin = b, use_size = True, sunion = Sub_length (to_u32 len)\<rparr>, h)
   }"

definition vbuffer_sub_check_size ::
    "vheap \<Rightarrow> vbuffer_sub \<Rightarrow> nat \<Rightarrow> (bool \<times> nat option \<times> vheap) option" where
  "vbuffer_sub_check_size h data minsize = do {
     (ok, h) \<leftarrow> vbuffer_sub_check h data;
     if \<not> ok then Some (False, None, h)
     else if use_size data then
       vbuffer_iterator_check_available h (sbegin data)
         (if minsize = SIZE_ALL then slength data else minsize)
     else do {
       e \<leftarrow> send data;
       vbuffer_iterator_check_available_end h (sbegin data) (Some e) minsize
     }
   }"

definition vbuffer_sub_size :: "vheap \<Rightarrow> vbuffer_sub \<Rightarrow> (nat \<times> vheap) option" where
  "vbuffer_sub_size h data = do {
     (_, sz, h) \<leftarrow> vbuffer_sub_check_size h data SIZE_ALL;
     Some (case sz of Some n \<Rightarrow> n | None \<Rightarrow> SIZE_ALL, h)
   }"

section \<open>Walking over a range\<close>

record vbuffer_sub_mmap =
  mdata :: addr
  mlen :: nat
  mmeter :: nat

definition vbuffer_mmap_init :: vbuffer_sub_mmap where
  "vbuffer_mmap_init = \<lparr>mdata = NULL, mlen = 0, mmeter = 0\<rparr>"

text \<open>The result is the chunk (or null), the first byte of the range in it, and the number of bytes.\<close>

definition vbuffer_sub_iterate ::
    "vheap \<Rightarrow> vbuffer_sub \<Rightarrow> vbuffer_sub_mmap \<Rightarrow>
     (addr \<times> nat \<times> nat \<times> vbuffer_sub_mmap \<times> vheap) option" where
  "vbuffer_sub_iterate h data iter = do {
     (offset, iter, h) \<leftarrow> (if mdata iter = NULL then do {
          (bg, h) \<leftarrow> vbuffer_sub_begin h data;
          (c, offset) \<leftarrow> vbuffer_iterator_fix h bg;
          Some (offset, iter\<lparr>mdata := c, mlen := (if use_size data then slength data else 2 ^ 32 - 1)\<rparr>, h)
        } else Some (0, iter, h));
     x \<leftarrow> chunks h (mdata iter);
     if f_end (cflags x) \<or> mlen iter = 0 then Some (NULL, 0, 0, iter, h)
     else do {
       let chunk = mdata iter;
       nx \<leftarrow> vbuffer_chunk_next h chunk;
       let iter = iter\<lparr>mdata := nx\<rparr>;
       assert_that (offset \<le> csize x);
       let len = csize x - offset;
       if use_size data then
         (if mlen iter \<ge> len then Some (chunk, offset, len, iter\<lparr>mlen := mlen iter - len\<rparr>, h)
          else Some (chunk, offset, mlen iter, iter\<lparr>mlen := 0\<rparr>, h))
       else do {
         e \<leftarrow> send data;
         (ec, eo) \<leftarrow> vbuffer_iterator_fix h e;
         if chunk = ec then
           (if eo < offset then Some (NULL, offset, len, iter, raise_error h ''invalid buffer end'')
            else Some (chunk, offset, eo - offset, iter\<lparr>mlen := 0\<rparr>, h))
         else Some (chunk, offset, len, iter, h)
       }
     }
   }"

partial_function (option) mmap_loop ::
    "vheap \<Rightarrow> vbuffer_sub \<Rightarrow> bool \<Rightarrow> vbuffer_sub_mmap \<Rightarrow>
     (bptr \<times> nat \<times> vbuffer_sub_mmap \<times> vbuffer_iterator option \<times> vheap) option" where
  "mmap_loop h data write it = do {
     (chunk, offset, len, it, h) \<leftarrow> vbuffer_sub_iterate h data it;
     if chunk = NULL then Some (NULL_ptr, len, it, None, h)
     else do {
       x \<leftarrow> chunks h chunk;
       if f_ctl (cflags x) \<or> len = 0 then mmap_loop h data write it
       else do {
         (ptr, h) \<leftarrow> vbuffer_chunk_get_data h chunk write;
         if ptr = NULL_ptr then Some (NULL_ptr, len, it, None, h)
         else do {
           assert_that (offset \<le> csize x);
           Some (ptr_add ptr offset, len,
                 it\<lparr>mmeter := to_u32 (mmeter it + len)\<rparr>,
                 Some (vbuffer_iterator_build vbuffer_iterator_init chunk offset (mmeter it)), h)
         }
       }
     }
   }"

definition vbuffer_mmap ::
    "vheap \<Rightarrow> vbuffer_sub \<Rightarrow> bool \<Rightarrow> vbuffer_sub_mmap \<Rightarrow>
     (bptr \<times> nat \<times> vbuffer_sub_mmap \<times> vbuffer_iterator option \<times> vheap) option" where
  "vbuffer_mmap h data write it =
     mmap_loop h data write (if mdata it = NULL then it\<lparr>mmeter := imeter (sbegin data)\<rparr> else it)"

partial_function (option) read_loop ::
    "vheap \<Rightarrow> vbuffer_sub \<Rightarrow> nat \<Rightarrow> vbuffer_sub_mmap \<Rightarrow> u8 list \<Rightarrow> (u8 list \<times> vheap) option" where
  "read_loop h data sz it acc =
     (if sz > 0 then do {
        (ptr, len, it, _, h) \<leftarrow> vbuffer_mmap h data False it;
        if ptr = NULL_ptr then Some (acc, h)
        else do {
          let len = min len sz;
          bs \<leftarrow> load h ptr len;
          read_loop h data (sz - len) it (acc @ bs)
        }
      } else Some (acc, h))"

text \<open>The bytes written to the destination; the C function returns their number.\<close>

definition vbuffer_sub_read :: "vheap \<Rightarrow> vbuffer_sub \<Rightarrow> nat \<Rightarrow> (u8 list \<times> vheap) option" where
  "vbuffer_sub_read h data sz = do {
     (ok, h) \<leftarrow> vbuffer_sub_check h data;
     if \<not> ok then Some ([], h)
     else read_loop h data sz vbuffer_mmap_init []
   }"

partial_function (option) write_loop ::
    "vheap \<Rightarrow> vbuffer_sub \<Rightarrow> u8 list \<Rightarrow> vbuffer_sub_mmap \<Rightarrow> nat \<Rightarrow> (nat \<times> vheap) option" where
  "write_loop h data src it ret =
     (if src \<noteq> [] then do {
        (ptr, len, it, _, h) \<leftarrow> vbuffer_mmap h data True it;
        if ptr = NULL_ptr then Some (ret, h)
        else do {
          let len = min len (length src);
          h \<leftarrow> store h ptr (take len src);
          write_loop h data (drop len src) it (ret + len)
        }
      } else Some (ret, h))"

definition vbuffer_sub_write :: "vheap \<Rightarrow> vbuffer_sub \<Rightarrow> u8 list \<Rightarrow> (nat \<times> vheap) option" where
  "vbuffer_sub_write h data src = do {
     (ok, h) \<leftarrow> vbuffer_sub_check h data;
     if \<not> ok then Some (0, h)
     else write_loop h data src vbuffer_mmap_init 0
   }"

partial_function (option) zero_loop :: "vheap \<Rightarrow> vbuffer_sub \<Rightarrow> vbuffer_sub_mmap \<Rightarrow> vheap option" where
  "zero_loop h data it = do {
     (ptr, len, it, _, h) \<leftarrow> vbuffer_mmap h data True it;
     if ptr = NULL_ptr then Some h
     else do {
       h \<leftarrow> store h ptr (replicate len 0);
       zero_loop h data it
     }
   }"

definition vbuffer_zero :: "vheap \<Rightarrow> vbuffer_sub \<Rightarrow> (bool \<times> vheap) option" where
  "vbuffer_zero h data = do {
     (ok, h) \<leftarrow> vbuffer_sub_check h data;
     if \<not> ok then Some (False, h)
     else do {
       h \<leftarrow> zero_loop h data vbuffer_mmap_init;
       Some (has_error h)
     }
   }"

section \<open>Insertion\<close>

lemma iterator_insert_ok:
  assumes ok: "heap_ok h" and v: "vbuf h b cs" and w: "vbuf h m ds" and ne: "ds \<noteq> []"
    and disj: "insert b (set cs) \<inter> insert m (set ds) = {}"
    and it: "itr h b cs it p" and bud: "0 < budget h" and wr: "writable_all h (cs @ [b])"
  obtains it' sub h' cs' where "vbuffer_iterator_insert h it m = Some (True, it', Some sub, h')"
    "heap_ok h'" "vbuf h' b cs'" "vbuf h' m []"
    "content h' cs' = take p (content h cs) @ content h ds @ drop p (content h cs)"
    "itr h' b cs' it' (p + length (content h ds))"
    "frame_off (insert b (set cs) \<union> insert m (set ds)) h h'"
proof -
  obtain c h1 xs ys where s: "vbuffer_iterator_split_chunk h it True = Some (c, h1)"
    "refined h b cs h1 (xs @ ys)" "c = hd (ys @ [b])" "content h1 xs = take p (content h cs)"
    using split_chunk_ok [OF ok v it bud wr] by metis
  note R = refinedD [OF s(2)]
  have p: "p \<le> length (content h cs)" using it iter_at_le [of h b cs] v by (auto simp: itr_def)
  have dr: "content h1 ys = drop p (content h cs)"
    by (rule append_take_drop_eq [OF _ s(4)]) (use R(3) in simp)
  have w1: "vbuf h1 m ds" "content h1 ds = content h ds"
    using vbuf_frame [OF ok w R(4)] disj by blast+
  have lt: "a < fresh h" if "a \<in> insert m (set ds)" for a
    using that vbuf_linked [OF ok w that] heap_okD(4) [OF ok] by blast
  have dj: "insert b (set (xs @ ys)) \<inter> insert m (set ([] @ ds @ [])) = {}"
  proof -
    have "a \<notin> insert m (set ds)" if "a \<in> set (xs @ ys)" for a
      using R(8) [OF that] lt [of a] disj by fastforce
    then show ?thesis using disj by auto
  qed
  have w1': "vbuf h1 m ([] @ ds @ [])" using w1 by simp
  obtain lk where lk:
    "list2_insert_list (links h1) (hd (ys @ [b])) (hd (ds @ [] @ [m])) (hd ([] @ [m])) = Some (hd (ys @ [b]), lk)"
    "vbuf (h1\<lparr>links := lk\<rparr>) b (xs @ ds @ ys)" "vbuf (h1\<lparr>links := lk\<rparr>) m ([] @ [])" "heap_ok (h1\<lparr>links := lk\<rparr>)"
    "frame_off (insert b (set (xs @ ys)) \<union> insert m (set ([] @ ds @ []))) h1 (h1\<lparr>links := lk\<rparr>)"
    using R(1,2) w1' dj by (rule vbuf_splice)
  let ?h2 = "h1\<lparr>links := lk\<rparr>"
  have cn: "c \<noteq> NULL" using s(3) vbufD(2,3) [OF R(2)] hd_snoc_in [of ys b] by auto
  have nr: "\<not> iregistered it" using it by (simp add: itr_def)
  let ?it = "it\<lparr>ichunk := c, ioffset := 0\<rparr>"
  let ?bg = "iterator_uninit h1\<lparr>ichunk := hd (ds @ [m]), ioffset := 0, iregistered := False\<rparr>"
  have bg: "vbuffer_begin h1 m (iterator_uninit h1) = Some (?bg, h1)" by (rule vbuffer_begin_ok [OF w1(1)])
  have lx: "szs h1 xs = p"
  proof -
    have "length (content h1 xs) = szs h1 xs" by (rule length_content [OF R(2)]) auto
    then show ?thesis using s(4) p by simp
  qed
  have ld: "szs h1 ds = length (content h ds)" using length_content_all [OF w1(1)] w1(2) by simp
  have at: "itr ?h2 b (xs @ ds @ ys) ?it (p + length (content h ds))"
  proof (cases ys)
    case Nil
    then show ?thesis using s(3) nr lx ld iter_at_endI [of ?h2 b "xs @ ds"] by (simp add: itr_def)
  next
    case (Cons y zs)
    then show ?thesis using s(3) nr lx ld iter_at_chunkI [of "p + length (content h ds)" ?h2 "xs @ ds" 0 y zs b]
      by (simp add: itr_def)
  qed
  obtain d ds' where ds: "ds = d # ds'" using ne by (cases ds) auto
  have atb: "itr ?h2 b (xs @ ds @ ys) ?bg p"
    using iter_at_chunkI [of p ?h2 xs 0 d "ds' @ ys" b] lx ds by (simp add: itr_def)
  obtain xd where xd: "chunks h1 d = Some xd" "\<not> f_end (cflags xd)"
    using vbuf_chunk [of h1 m "[]" d ds'] w1(1) ds by auto
  let ?sub = "\<lparr>sbegin = ?bg, use_size = False, sunion = Sub_end ?it\<rparr>"
  have sub: "vbuffer_sub_create_between_position ?h2 ?bg ?it = Some (?sub, ?h2)"
    using iterator_copy_ok [OF lk(4,2) atb] iterator_copy_ok [OF lk(4,2) at]
    by (simp add: vbuffer_sub_create_between_position_def)
  have em: "list2_empty (links h) m = Some False"
    using seq_begin [OF vbufD(1) [OF w]] vbufD(4) [OF w] ds by (simp add: list2_empty_def list2_end_def)
  have em2: "list2_empty lk m = Some True"
    using seq_begin [OF vbufD(1) [OF lk(3)]] by (simp add: list2_empty_def list2_end_def)
  have b1: "list2_begin (links h1) m = Some (hd (ds @ [m]))" by (rule seq_begin [OF vbufD(1) [OF w1(1)]])
  have ins: "vbuffer_iterator_insert h it m = Some (True, ?it, Some ?sub, ?h2)"
    using iterator_check_ok [OF ok v it] vbufD(2) [OF w] em s(1,3) cn bg b1 lk(1) ds xd sub em2
      iterator_update_ok [OF nr cn]
    by (simp add: vbuffer_iterator_insert_def vbuffer_isvalid_def vbuffer_chunk_list_def list2_end_def)
  have fr: "frame_off (insert b (set cs) \<union> insert m (set ds)) h ?h2"
  proof (rule frame_off_trans [OF ok _ lk(5)])
    show "frame_off (insert b (set cs) \<union> insert m (set ds)) h h1"
      by (rule frame_off_mono [OF R(4)]) auto
    fix a assume "a \<in> insert b (set (xs @ ys)) \<union> insert m (set ([] @ ds @ []))" "a < fresh h"
    then show "a \<in> insert b (set cs) \<union> insert m (set ds)" using R(8) [of a] by fastforce
  qed
  have ct: "content ?h2 (xs @ ds @ ys) = take p (content h cs) @ content h ds @ drop p (content h cs)"
    using s(4) w1(2) dr by simp
  show ?thesis
    by (rule that [OF ins lk(4,2) _ ct at fr]) (use lk(3) in simp)
qed

section \<open>Ranges\<close>

text \<open>
  \<open>range_at h b cs data p q\<close>: the sub-buffer is the range of positions \<open>p\<close> to \<open>q\<close> of the buffer.
  When it is given by an end iterator, the chunk of the end must not come before the chunk of the
  beginning.
\<close>

definition range_at :: "vheap \<Rightarrow> addr \<Rightarrow> addr list \<Rightarrow> vbuffer_sub \<Rightarrow> nat \<Rightarrow> nat \<Rightarrow> bool" where
  "range_at h b cs data p q \<longleftrightarrow> itr h b cs (sbegin data) p \<and>
     (if use_size data then slength data < 2 ^ 32 \<and> q = min (p + slength data) (szs h cs)
      else \<exists>e c n ec en. sunion data = Sub_end e \<and> itr h b cs e q \<and> p \<le> q \<and>
        vbuffer_iterator_fix h (sbegin data) = Some (c, n) \<and> vbuffer_iterator_fix h e = Some (ec, en) \<and>
        not_before (cs @ [b]) c ec)"

lemma range_atD:
  assumes "range_at h b cs data p q"
  shows "itr h b cs (sbegin data) p" "p \<le> q" "q \<le> szs h cs"
  using assms iter_at_le [of h b cs]
  by (auto simp: range_at_def itr_def split: if_splits)

lemma sub_check_ok:
  assumes "heap_ok h" "vbuf h b cs" "range_at h b cs data p q"
  shows "vbuffer_sub_check h data = Some (True, h)"
  using iterator_check_ok [OF assms(1,2) range_atD(1) [OF assms(3)]] assms(3)
    iterator_check_ok [OF assms(1,2)]
  by (auto simp: vbuffer_sub_check_def range_at_def send_def split: if_splits)

text \<open>
  The state of a walk over a range: the next chunk is the first of \<open>ys\<close> (at offset \<open>n\<close>, which is 0
  unless the walk has not begun), and \<open>r\<close> bytes of the range are left.
\<close>

definition walk :: "vheap \<Rightarrow> addr \<Rightarrow> addr list \<Rightarrow> vbuffer_sub \<Rightarrow> vbuffer_sub_mmap \<Rightarrow> addr list \<Rightarrow> nat \<Rightarrow> nat \<Rightarrow> bool" where
  "walk h b cs data it ys n r \<longleftrightarrow>
     (\<exists>xs len. cs = xs @ ys \<and> n \<le> csz h (hd (ys @ [b])) \<and> r \<le> szs h ys - n \<and>
       (if mdata it = NULL
        then itr h b cs (sbegin data) (szs h xs + n) \<and>
             vbuffer_iterator_fix h (sbegin data) = Some (hd (ys @ [b]), n) \<and>
             len = (if use_size data then slength data else 2 ^ 32 - 1)
        else mdata it = hd (ys @ [b]) \<and> n = 0 \<and> len = mlen it) \<and>
       (if use_size data then r = min len (szs h ys - n)
        else len = 0 \<and> r = 0 \<or>
          len \<noteq> 0 \<and> (\<exists>e ec en. sunion data = Sub_end e \<and> vbuffer_iterator_fix h e = Some (ec, en) \<and>
            ec \<in> set (ys @ [b]) \<and> fixed h b cs ec en (szs h xs + n + r))))"

lemma walk_start:
  assumes v: "vbuf h b cs" and r: "range_at h b cs data p q"
  obtains ys n where "walk h b cs data (vbuffer_mmap_init\<lparr>mmeter := m\<rparr>) ys n (q - p)"
    "drop n (content h ys) = drop p (content h cs)" "n \<le> szs h ys" "q - p \<le> szs h ys - n"
    "\<exists>xs. cs = xs @ ys \<and> p = szs h xs + n"
proof -
  have b: "itr h b cs (sbegin data) p" by (rule range_atD(1) [OF r])
  obtain c n where f: "vbuffer_iterator_fix h (sbegin data) = Some (c, n)" "fixed h b cs c n p"
    using v b [unfolded itr_def, THEN conjunct2] by (rule iterator_fix_ok)
  obtain xs ys where s: "cs = xs @ ys" "c = hd (ys @ [b])" "p = szs h xs + n" "n \<le> csz h c" "n \<le> szs h ys"
    using v f(2) by (rule fixed_split)
  have lx: "length (content h xs) = szs h xs" by (rule length_content [OF v]) (use s in auto)
  have qs: "q \<le> szs h cs" by (rule range_atD(3) [OF r])
  have "walk h b cs data (vbuffer_mmap_init\<lparr>mmeter := m\<rparr>) ys n (q - p)"
  proof (cases "use_size data")
    case True
    then have "q = min (p + slength data) (szs h cs)" using r by (simp add: range_at_def)
    then have "q - p = min (slength data) (szs h ys - n)" using s by auto
    then show ?thesis
      unfolding walk_def using s f b True
      by (intro exI [of _ xs] exI [of _ "slength data"]) (auto simp: vbuffer_mmap_init_def)
  next
    case False
    then obtain e ec en where e: "sunion data = Sub_end e" "itr h b cs e q" "p \<le> q"
      "vbuffer_iterator_fix h e = Some (ec, en)" "not_before (cs @ [b]) c ec"
      using r f(1) by (auto simp: range_at_def)
    obtain ec' en' where fe: "vbuffer_iterator_fix h e = Some (ec', en')" "fixed h b cs ec' en' q"
      using v e(2) [unfolded itr_def, THEN conjunct2] by (rule iterator_fix_ok)
    have fx: "fixed h b cs ec en q" using fe e(4) by simp
    obtain pre post where nb: "cs @ [b] = pre @ c # post" "ec \<in> set (c # post)"
      using e(5) by (auto simp: not_before_def)
    have "distinct (cs @ [b])" using vbufD(4,5) [OF v] by simp
    moreover have "cs @ [b] = xs @ c # tl (ys @ [b])" using s by (cases ys) auto
    ultimately have "c # post = c # tl (ys @ [b])" using nb(1)
      by (metis distinct_append_Cons_unique)
    then have ecin: "ec \<in> set (ys @ [b])" using nb(2) s(2) by (cases ys) auto
    have "szs h xs + n + (q - p) = q" using s(3) e(3) by simp
    then show ?thesis
      unfolding walk_def using s f b False e fx ecin qs
      by (intro exI [of _ xs] exI [of _ "2 ^ 32 - 1"]) (auto simp: vbuffer_mmap_init_def)
  qed
  then show ?thesis
    by (rule that) (use s lx qs in auto)
qed

lemma iter_at_unique:
  assumes "distinct (cs @ [b])" "iter_at h b cs c n p" "cs @ [b] = pre @ c # post"
  shows "p = szs h pre + n"
proof -
  obtain pre' post' where "cs @ [b] = pre' @ c # post'" "p = szs h pre' + n"
    using assms(2) by (auto simp: iter_at_def)
  moreover have "pre = pre'"
    using distinct_append_Cons_unique [of pre c post pre' post'] assms(1,3) calculation(1) by metis
  ultimately show ?thesis by simp
qed

lemma sub_iterate_ok:
  assumes ok: "heap_ok h" and v: "vbuf h b cs" and w: "walk h b cs data it ys n r"
  shows "(\<exists>it'. vbuffer_sub_iterate h data it = Some (NULL, 0, 0, it', h) \<and> r = 0) \<or>
    (\<exists>y ys' it'. ys = y # ys' \<and>
       vbuffer_sub_iterate h data it = Some (y, n, min r (csz h y - n), it', h) \<and>
       mdata it' \<noteq> NULL \<and> mmeter it' = mmeter it \<and> walk h b cs data it' ys' 0 (r - min r (csz h y - n)))"
proof -
  obtain xs len where xs: "cs = xs @ ys" "n \<le> csz h (hd (ys @ [b]))" "r \<le> szs h ys - n"
    and md: "if mdata it = NULL
        then itr h b cs (sbegin data) (szs h xs + n) \<and>
             vbuffer_iterator_fix h (sbegin data) = Some (hd (ys @ [b]), n) \<and>
             len = (if use_size data then slength data else 2 ^ 32 - 1)
        else mdata it = hd (ys @ [b]) \<and> n = 0 \<and> len = mlen it"
    and rr: "if use_size data then r = min len (szs h ys - n)
        else len = 0 \<and> r = 0 \<or>
          len \<noteq> 0 \<and> (\<exists>e ec en. sunion data = Sub_end e \<and> vbuffer_iterator_fix h e = Some (ec, en) \<and>
            ec \<in> set (ys @ [b]) \<and> fixed h b cs ec en (szs h xs + n + r))"
    using w unfolding walk_def by blast
  let ?it = "it\<lparr>mdata := hd (ys @ [b]), mlen := len\<rparr>"
  have start: "(if mdata it = NULL then do {
          (bg, h) \<leftarrow> vbuffer_sub_begin h data;
          (c, offset) \<leftarrow> vbuffer_iterator_fix h bg;
          Some (offset, it\<lparr>mdata := c, mlen := (if use_size data then slength data else 2 ^ 32 - 1)\<rparr>, h)
        } else Some (0, it, h)) = Some (n, ?it, h)"
    using md iterator_copy_ok [OF ok v] by (auto simp: vbuffer_sub_begin_def split: if_splits)
  show ?thesis
  proof (cases ys)
    case Nil
    then have "vbuffer_sub_iterate h data it = Some (NULL, 0, 0, ?it, h)"
      using vbuf_end [OF v] start by (auto simp: vbuffer_sub_iterate_def)
    then show ?thesis using Nil xs by auto
  next
    case (Cons y ys')
    obtain x where x: "chunks h y = Some x" "\<not> f_end (cflags x)"
      using vbuf_chunk [of h b xs y ys'] v xs Cons by auto
    have csy: "csz h y = csize x" using x by (simp add: csz_def)
    have nx: "vbuffer_chunk_next h y = Some (hd (ys' @ [b]))"
      by (rule vbuf_next [of h b xs y ys']) (use v xs Cons in simp)
    have nn: "hd (ys' @ [b]) \<noteq> NULL" using vbufD(2,3) [OF v] hd_snoc_in [of ys' b] xs Cons by auto
    have n: "n \<le> csize x" using xs Cons csy by simp
    let ?it' = "\<lambda>l. ?it\<lparr>mdata := hd (ys' @ [b]), mlen := l\<rparr>"
    have wk: "walk h b cs data (?it' l) ys' 0 r'"
      if "r' \<le> szs h ys'" "if use_size data then r' = min l (szs h ys')
        else l = 0 \<and> r' = 0 \<or>
          l \<noteq> 0 \<and> (\<exists>e ec en. sunion data = Sub_end e \<and> vbuffer_iterator_fix h e = Some (ec, en) \<and>
            ec \<in> set (ys' @ [b]) \<and> fixed h b cs ec en (szs h (xs @ [y]) + r'))" for l r'
      unfolding walk_def using that nn xs Cons
      by (intro exI [of _ "xs @ [y]"] exI [of _ l]) auto
    show ?thesis
    proof (cases "len = 0")
      case True
      then have "vbuffer_sub_iterate h data it = Some (NULL, 0, 0, ?it, h)"
        using x start Cons by (auto simp: vbuffer_sub_iterate_def)
      moreover have "r = 0" using rr True by (auto split: if_splits)
      ultimately show ?thesis by blast
    next
      case len: False
      show ?thesis
      proof (cases "use_size data")
        case True
        let ?l = "if csize x - n \<le> len then len - (csize x - n) else 0"
        have r: "r = min len (szs h ys - n)" using rr True by simp
        have "vbuffer_sub_iterate h data it = Some (y, n, min r (csz h y - n), ?it' ?l, h)"
          using x start Cons nx n True len r csy
          by (auto simp: vbuffer_sub_iterate_def assert_that_def)
        moreover have "walk h b cs data (?it' ?l) ys' 0 (r - min r (csz h y - n))"
          by (rule wk) (use r True Cons csy n in auto)
        ultimately show ?thesis using Cons nn by auto
      next
        case False
        then obtain e ec en where e: "sunion data = Sub_end e" "vbuffer_iterator_fix h e = Some (ec, en)"
          "ec \<in> set (ys @ [b])" "fixed h b cs ec en (szs h xs + n + r)"
          using rr len by auto
        have dis: "distinct (cs @ [b])" using vbufD(4,5) [OF v] by simp
        have at: "iter_at h b cs ec en (szs h xs + n + r)" and enl: "en \<le> csz h ec"
          using e(4) by (auto simp: fixed_def)
        show ?thesis
        proof (cases "ec = y")
          case True
          have "szs h xs + n + r = szs h xs + en"
            by (rule iter_at_unique [OF dis at [unfolded True], of xs "ys' @ [b]"]) (use xs Cons True in simp)
          then have en: "en = n + r" by simp
          have "vbuffer_sub_iterate h data it = Some (y, n, min r (csz h y - n), ?it' 0, h)"
            using x start Cons nx n False len e en csy True enl
            by (auto simp: vbuffer_sub_iterate_def assert_that_def send_def)
          moreover have "walk h b cs data (?it' 0) ys' 0 (r - min r (csz h y - n))"
            by (rule wk) (use False enl en True in auto)
          ultimately show ?thesis using Cons nn by auto
        next
          case ne: False
          then obtain u v' where uv: "ys' @ [b] = u @ ec # v'" using e(3) Cons by (auto dest: split_list)
          have "szs h xs + n + r = szs h (xs @ y # u) + en"
            by (rule iter_at_unique [OF dis at, of _ v']) (use xs Cons uv in simp)
          then have r: "csize x - n \<le> r" "szs h xs + csize x + (r - (csize x - n)) = szs h xs + n + r"
            using csy n by auto
          have "vbuffer_sub_iterate h data it = Some (y, n, min r (csz h y - n), ?it' len, h)"
            using x start Cons nx n False len e r csy ne
            by (auto simp: vbuffer_sub_iterate_def assert_that_def send_def)
          moreover have "walk h b cs data (?it' len) ys' 0 (r - min r (csz h y - n))"
            by (rule wk) (use False len e r csy ne Cons xs in \<open>auto simp: ac_simps\<close>)
          ultimately show ?thesis using Cons nn by auto
        qed
      qed
    qed
  qed
qed

section \<open>Mapping a range in memory\<close>

text \<open>What the walk depends on: the links, the sizes of the chunks and their end marks.\<close>

definition layout :: "vheap \<Rightarrow> addr \<Rightarrow> list2_elem option \<times> (bool \<times> nat) option" where
  "layout h a = (links h a, map_option (\<lambda>x. (f_end (cflags x), csize x)) (chunks h a))"

lemma layoutD:
  assumes "layout h' = layout h"
  shows "links h' = links h" "csz h' = csz h" "szs h' = szs h"
    "chunks h a = Some x \<Longrightarrow> \<exists>y. chunks h' a = Some y \<and> f_end (cflags y) = f_end (cflags x) \<and> csize y = csize x"
    "vbuffer_chunk_next h' = vbuffer_chunk_next h"
proof -
  have l: "links h' a = links h a"
    "map_option (\<lambda>x. (f_end (cflags x), csize x)) (chunks h' a) = map_option (\<lambda>x. (f_end (cflags x), csize x)) (chunks h a)" for a
    using fun_cong [OF assms, of a] by (simp_all add: layout_def)
  show lk: "links h' = links h" using l by (simp add: fun_eq_iff)
  show cz: "csz h' = csz h"
  proof
    fix a show "csz h' a = csz h a" using l(2) [of a]
      by (cases "chunks h a"; cases "chunks h' a") (auto simp: csz_def)
  qed
  show "szs h' = szs h" by (simp add: fun_eq_iff szs_def cz)
  show "\<exists>y. chunks h' a = Some y \<and> f_end (cflags y) = f_end (cflags x) \<and> csize y = csize x" if "chunks h a = Some x"
    using l(2) [of a] that by (cases "chunks h' a") auto
  show "vbuffer_chunk_next h' = vbuffer_chunk_next h"
  proof
    fix a show "vbuffer_chunk_next h' a = vbuffer_chunk_next h a" using l(2) [of a] lk
      by (cases "chunks h a"; cases "chunks h' a") (auto simp: vbuffer_chunk_next_def)
  qed
qed

lemma fix_loop_layout:
  assumes "fix_loop h a n = Some r"
  shows "layout h' = layout h \<longrightarrow> fix_loop h' a n = Some r"
  using assms
proof (rule fix_loop.raw_induct [rotated])
  fix f :: "vheap \<Rightarrow> addr \<Rightarrow> nat \<Rightarrow> (addr \<times> nat) option" and h a n r
  assume IH: "\<And>h a n r. f h a n = Some r \<Longrightarrow> layout h' = layout h \<longrightarrow> fix_loop h' a n = Some r"
    and step: "do {
     x \<leftarrow> chunks h a;
     if f_end (cflags x) then Some (a, n)
     else if n > csize x then do {
       nx \<leftarrow> vbuffer_chunk_next h a;
       f h nx (n - csize x)
     }
     else Some (a, n)
   } = Some r"
  show "layout h' = layout h \<longrightarrow> fix_loop h' a n = Some r"
  proof
    assume l: "layout h' = layout h"
    obtain x where x: "chunks h a = Some x" using step by (auto simp: bind_eq_Some_conv)
    obtain y where y: "chunks h' a = Some y" "f_end (cflags y) = f_end (cflags x)" "csize y = csize x"
      using layoutD(4) [OF l x] by blast
    show "fix_loop h' a n = Some r"
      using step x y l layoutD(5) [OF l] IH [of h]
      by (cases r) (subst fix_loop.simps, auto simp: bind_eq_Some_conv split: if_splits)
  qed
qed

lemma fix_layout:
  assumes l: "layout h' = layout h"
  shows "vbuffer_iterator_fix h' it = vbuffer_iterator_fix h it"
proof -
  have "fix_loop h' a n = fix_loop h a n" for a n
  proof (cases "fix_loop h a n")
    case None
    then show ?thesis using fix_loop_layout [of h' a n _ h] l by (cases "fix_loop h' a n") auto
  next
    case (Some r)
    then show ?thesis using fix_loop_layout [of h a n r h'] l by simp
  qed
  moreover have "chunks h (ichunk it) = None \<Longrightarrow> chunks h' (ichunk it) = None"
    using layoutD(4) [of h h' "ichunk it"] l by (cases "chunks h' (ichunk it)") auto
  ultimately show ?thesis using layoutD(4) [OF l, of "ichunk it"]
    by (cases "chunks h (ichunk it)") (auto simp: vbuffer_iterator_fix_def)
qed

lemma walk_layout:
  assumes l: "layout h' = layout h"
  shows "walk h' b cs data it ys n r = walk h b cs data it ys n r"
  by (simp add: walk_def layoutD(2,3) [OF l] fix_layout [OF l] itr_def iter_at_def fixed_def)

lemma walk_meter [simp]: "walk h b cs data (it\<lparr>mmeter := m\<rparr>) ys n r = walk h b cs data it ys n r"
  by (simp add: walk_def)

lemma get_data_ok:
  assumes "chunks h c = Some x" "chunk_wf h x" "\<not> f_ctl (cflags x)" "w \<Longrightarrow> f_writable (cflags x)"
  shows "vbuffer_chunk_get_data h c w =
    Some ((cdata x, coffset x), if w then h\<lparr>chunks := (chunks h)(c \<mapsto> set_modified True x)\<rparr> else h)"
  using assms
  by (auto simp: vbuffer_chunk_get_data_def vbuffer_chunk_check_writeable_def chunk_wf_def assert_that_def
      data_ops_get_def block_def vbuffer_chunk_mark_modified_def upd_chunk_def ptr_add_def
      split: option.splits data_kind.splits)

text \<open>
  One step of the mapping returns the next non-empty piece of the range, and for writing marks its
  chunk as modified.
\<close>

abbreviation touch :: "bool \<Rightarrow> addr \<Rightarrow> vbuffer_chunk \<Rightarrow> vheap \<Rightarrow> vheap" where
  "touch w c x h \<equiv> (if w then h\<lparr>chunks := (chunks h)(c \<mapsto> set_modified True x)\<rparr> else h)"

lemma layout_touch: "chunks h c = Some x \<Longrightarrow> layout (touch w c x h) = layout h"
  by (auto simp: layout_def fun_eq_iff set_modified_def)

lemma mmap_loop_ok:
  assumes ok: "heap_ok h" and v: "vbuf h b cs" and w: "walk h b cs data it ys n r"
    and wr: "w \<longrightarrow> writable_all h ys" and su: "set ys \<subseteq> set cs"
  shows "(\<exists>it'. mmap_loop h data w it = Some (NULL_ptr, 0, it', None, h) \<and> r = 0) \<or>
    (\<exists>us y ys' x it' itp m k. ys = us @ y # ys' \<and> chunks h y = Some x \<and> chunk_wf h x \<and> \<not> f_ctl (cflags x) \<and>
       mmap_loop h data w it = Some ((cdata x, coffset x + m), k, it', itp, touch w y x h) \<and>
       cdata x \<noteq> NULL \<and> szs h us + m = n \<and> 0 < k \<and> k = min r (csize x - m) \<and> m \<le> csize x \<and>
       mdata it' \<noteq> NULL \<and> walk h b cs data it' ys' 0 (r - k))"
  using w wr su
proof (induction ys arbitrary: it n r)
  case Nil
  from sub_iterate_ok [OF ok v Nil(1)] show ?case
    by (subst mmap_loop.simps, subst mmap_loop.simps) auto
next
  case (Cons y ys)
  let ?k = "min r (csz h y - n)"
  from sub_iterate_ok [OF ok v Cons.prems(1)] show ?case
  proof (elim disjE exE conjE)
    fix it' assume "vbuffer_sub_iterate h data it = Some (NULL, 0, 0, it', h)" "r = 0"
    then show ?thesis by (subst mmap_loop.simps, subst mmap_loop.simps) auto
  next
    fix y' ys' it'
    assume "y # ys = y' # ys'" "vbuffer_sub_iterate h data it = Some (y', n, min r (csz h y' - n), it', h)"
      "mdata it' \<noteq> NULL" "mmeter it' = mmeter it" "walk h b cs data it' ys' 0 (r - min r (csz h y' - n))"
    then have s: "vbuffer_sub_iterate h data it = Some (y, n, ?k, it', h)" "mdata it' \<noteq> NULL"
      "walk h b cs data it' ys 0 (r - ?k)" by simp_all
    obtain x where x: "chunks h y = Some x" "chunk_wf h x" using vbufD(7) [OF v] Cons.prems(3) by auto
    have yn: "y \<noteq> NULL" using vbufD(3) [OF v] Cons.prems(3) by auto
    have cz: "csz h y = csize x" using x by (simp add: csz_def)
    have n: "n \<le> csize x" using Cons.prems(1) cz by (auto simp: walk_def)
    show ?thesis
    proof (cases "f_ctl (cflags x) \<or> ?k = 0")
      case True
      then have k0: "?k = 0" using x(2) cz by (auto simp: chunk_wf_def)
      have eq: "mmap_loop h data w it = mmap_loop h data w it'"
        using s(1) yn x True by (subst mmap_loop.simps) simp
      have wk: "walk h b cs data it' ys 0 r" using s(3) k0 by simp
      have wr': "w \<longrightarrow> writable_all h ys" using Cons.prems(2) by (simp add: writable_all_def)
      have su': "set ys \<subseteq> set cs" using Cons.prems(3) by simp
      from Cons.IH [OF wk wr' su'] show ?thesis
      proof (elim disjE exE conjE)
        fix it'' assume "mmap_loop h data w it' = Some (NULL_ptr, 0, it'', None, h)" "r = 0"
        then show ?thesis using eq by simp
      next
        fix us z ys' x' it'' itp m k
        assume a: "ys = us @ z # ys'" "chunks h z = Some x'" "chunk_wf h x'" "\<not> f_ctl (cflags x')"
          "mmap_loop h data w it' = Some ((cdata x', coffset x' + m), k, it'', itp, touch w z x' h)"
          "cdata x' \<noteq> NULL" "szs h us + m = 0" "0 < k" "k = min r (csize x' - m)" "m \<le> csize x'" "mdata it'' \<noteq> NULL"
          "walk h b cs data it'' ys' 0 (r - k)"
        then have "n = csz h y" using k0 n cz by auto
        then have "szs h (y # us) + m = n" using a(7) by simp
        moreover have "y # ys = (y # us) @ z # ys'" using a(1) by simp
        ultimately show ?thesis using a(2-6,8-12) eq by metis
      qed
    next
      case False
      have "w \<Longrightarrow> f_writable (cflags x)" using Cons.prems(2) x by (simp add: writable_all_def)
      then have g: "vbuffer_chunk_get_data h y w = Some ((cdata x, coffset x), touch w y x h)"
        using get_data_ok [OF x] False by blast
      have cn: "cdata x \<noteq> NULL" using x(2) by (simp add: chunk_wf_def)
      have "mmap_loop h data w it = Some ((cdata x, coffset x + n), ?k, it'\<lparr>mmeter := to_u32 (mmeter it' + ?k)\<rparr>,
          Some (vbuffer_iterator_build vbuffer_iterator_init y n (mmeter it')), touch w y x h)"
        using s(1) yn x False g cn n
        by (subst mmap_loop.simps) (simp add: assert_that_def ptr_add_def)
      moreover have "y # ys = [] @ y # ys" "szs h [] + n = n" "0 < ?k" using False by (auto simp: min_def)
      moreover have "walk h b cs data (it'\<lparr>mmeter := to_u32 (mmeter it' + ?k)\<rparr>) ys 0 (r - ?k)"
        "mdata (it'\<lparr>mmeter := to_u32 (mmeter it' + ?k)\<rparr>) \<noteq> NULL" using s(2,3) by simp_all
      ultimately show ?thesis using x False cn n cz by metis
    qed
  qed
qed

lemma vbuffer_mmap_ok:
  assumes "heap_ok h" "vbuf h b cs" "walk h b cs data it ys n r"
    and "w \<longrightarrow> writable_all h ys" "set ys \<subseteq> set cs"
  shows "(\<exists>it'. vbuffer_mmap h data w it = Some (NULL_ptr, 0, it', None, h) \<and> r = 0) \<or>
    (\<exists>us y ys' x it' itp m k. ys = us @ y # ys' \<and> chunks h y = Some x \<and> chunk_wf h x \<and> \<not> f_ctl (cflags x) \<and>
       vbuffer_mmap h data w it = Some ((cdata x, coffset x + m), k, it', itp, touch w y x h) \<and>
       cdata x \<noteq> NULL \<and> szs h us + m = n \<and> 0 < k \<and> k = min r (csize x - m) \<and> m \<le> csize x \<and>
       mdata it' \<noteq> NULL \<and> walk h b cs data it' ys' 0 (r - k))"
  using mmap_loop_ok [OF assms(1,2) _ assms(4,5), of data _ n r] assms(3)
  by (auto simp: vbuffer_mmap_def)

lemma take_pieces:
  assumes "k = min r (length xs)"
  shows "take (min k sz) xs @ take (min (sz - min k sz) (r - k)) ys = take (min sz r) (xs @ ys)"
proof (cases "sz \<le> length xs \<or> r \<le> length xs")
  case True
  then have "min k sz = min sz r" "min (sz - min k sz) (r - k) = 0" "min sz r \<le> length xs" using assms by auto
  then show ?thesis by (simp only:) simp
next
  case False
  then have "min k sz = length xs" "min (sz - min k sz) (r - k) = min sz r - length xs" "length xs \<le> min sz r"
    using assms by auto
  then show ?thesis by (simp only:) simp
qed

lemma read_loop_ok:
  assumes ok: "heap_ok h" and v: "vbuf h b cs"
  shows "walk h b cs data it ys n r \<Longrightarrow> set ys \<subseteq> set cs \<Longrightarrow>
    read_loop h data sz it acc = Some (acc @ take (min sz r) (drop n (content h ys)), h)"
proof (induction "length ys" arbitrary: it ys n r sz acc rule: less_induct)
  case less
  show ?case
  proof (cases "sz = 0")
    case True
    then show ?thesis by (subst read_loop.simps) simp
  next
    case False
    have wr: "False \<longrightarrow> writable_all h ys" by simp
    from vbuffer_mmap_ok [OF ok v less.prems(1) wr less.prems(2)] show ?thesis
    proof (elim disjE exE conjE)
      fix it' assume "vbuffer_mmap h data False it = Some (NULL_ptr, 0, it', None, h)" "r = 0"
      then show ?thesis using False by (subst read_loop.simps) simp
    next
      fix us y ys' x it' itp m k
      assume a: "ys = us @ y # ys'" "chunks h y = Some x" "chunk_wf h x" "\<not> f_ctl (cflags x)"
        "vbuffer_mmap h data False it = Some ((cdata x, coffset x + m), k, it', itp, touch False y x h)"
        "cdata x \<noteq> NULL" "szs h us + m = n" "0 < k" "k = min r (csize x - m)" "m \<le> csize x"
        "walk h b cs data it' ys' 0 (r - k)"
      let ?l = "min k sz"
      have ld: "load h (cdata x, coffset x + m) ?l = Some (take ?l (drop m (chunk_bytes h y)))"
        by (rule load_chunk [OF a(2-4)]) (use a(9,10) in auto)
      have lu: "length (content h us) = szs h us"
        by (rule length_content [OF v]) (use a(1) less.prems(2) in auto)
      have ly: "length (chunk_bytes h y) = csize x" using chunk_wf_bytes [OF a(2,3)] a(2) by (simp add: csz_def)
      have n: "n = length (content h us) + m" using a(7) lu by simp
      have d: "drop n (content h ys) = drop m (chunk_bytes h y) @ content h ys'"
        using ly a(10) by (simp add: a(1) n)
      have pc: "take ?l (drop m (chunk_bytes h y)) @ take (min (sz - ?l) (r - k)) (content h ys') =
          take (min sz r) (drop n (content h ys))"
        unfolding d by (rule take_pieces) (use a(9) ly in simp)
      have "read_loop h data (sz - ?l) it' (acc @ take ?l (drop m (chunk_bytes h y))) =
          Some ((acc @ take ?l (drop m (chunk_bytes h y))) @ take (min (sz - ?l) (r - k)) (drop 0 (content h ys')), h)"
        by (rule less.hyps) (use a(1,11) less.prems(2) in auto)
      then have "read_loop h data (sz - ?l) it' (acc @ take ?l (drop m (chunk_bytes h y))) =
          Some (acc @ take (min sz r) (drop n (content h ys)), h)"
        using pc by simp
      then show ?thesis using False a(5,6) ld by (subst read_loop.simps) (simp add: Let_def)
    qed
  qed
qed

section \<open>Writing to a range\<close>

text \<open>No two chunks of the list share bytes of a data block.\<close>

definition disjoint_slices :: "vheap \<Rightarrow> addr list \<Rightarrow> bool" where
  "disjoint_slices h cs \<longleftrightarrow> (\<forall>a \<in> set cs. \<forall>c \<in> set cs. a \<noteq> c \<longrightarrow>
     (\<forall>x z. chunks h a = Some x \<longrightarrow> chunks h c = Some z \<longrightarrow> f_ctl (cflags x) \<or> f_ctl (cflags z) \<or>
        cdata z \<noteq> cdata x \<or> coffset z + csize z \<le> coffset x \<or> coffset x + csize x \<le> coffset z))"

text \<open>
  \<open>rewritten Y h h'\<close>: the heaps differ only in the bytes of the blocks of the chunks \<open>Y\<close> and in the
  modified marks of these chunks.
\<close>

definition slice_of :: "vbuffer_chunk \<Rightarrow> addr \<times> nat \<times> nat \<times> int \<times> bool \<times> bool \<times> bool" where
  "slice_of x = (cdata x, coffset x, csize x, cref x, f_end (cflags x), f_ctl (cflags x), f_writable (cflags x))"

definition rewritten :: "addr set \<Rightarrow> vheap \<Rightarrow> vheap \<Rightarrow> bool" where
  "rewritten Y h h' \<longleftrightarrow>
     links h' = links h \<and> fresh h' = fresh h \<and> junk h' = junk h \<and> budget h' = budget h \<and> errs h' = errs h \<and>
     (\<forall>a. map_option slice_of (chunks h' a) = map_option slice_of (chunks h a)) \<and>
     (\<forall>a. a \<notin> Y \<longrightarrow> chunks h' a = chunks h a) \<and>
     (\<forall>d. map_option dref (datas h' d) = map_option dref (datas h d)) \<and>
     (\<forall>d. map_option length (block h' d) = map_option length (block h d)) \<and>
     (\<forall>d. (\<forall>a \<in> Y. \<forall>x. chunks h a = Some x \<longrightarrow> cdata x \<noteq> d) \<longrightarrow> datas h' d = datas h d)"

lemma rewritten_refl [simp]: "rewritten Y h h"
  by (simp add: rewritten_def)

lemma rewritten_chunk:
  assumes "rewritten Y h h'" "chunks h a = Some x"
  obtains y where "chunks h' a = Some y" "slice_of y = slice_of x"
proof -
  have "map_option slice_of (chunks h' a) = Some (slice_of x)" using assms by (simp add: rewritten_def)
  then show ?thesis using that by auto
qed

lemma rewritten_chunk':
  assumes "rewritten Y h h'" "chunks h' a = Some y"
  obtains x where "chunks h a = Some x" "slice_of y = slice_of x"
proof -
  have "map_option slice_of (chunks h a) = Some (slice_of y)"
    using assms spec [of "\<lambda>a. map_option slice_of (chunks h' a) = map_option slice_of (chunks h a)" a]
    by (simp add: rewritten_def)
  then show ?thesis using that by (metis map_option_eq_Some)
qed

lemma rewritten_trans:
  assumes 1: "rewritten Y h h1" and 2: "rewritten Y h1 h2"
  shows "rewritten Y h h2"
proof -
  have "datas h2 d = datas h d" if d: "\<forall>a \<in> Y. \<forall>x. chunks h a = Some x \<longrightarrow> cdata x \<noteq> d" for d
  proof -
    have "cdata y \<noteq> d" if "a \<in> Y" "chunks h1 a = Some y" for a y
      using rewritten_chunk' [OF 1 that(2)] d that(1) by (metis prod.inject slice_of_def)
    then have "datas h2 d = datas h1 d" using 2 unfolding rewritten_def by blast
    also have "\<dots> = datas h d" using 1 d unfolding rewritten_def by blast
    finally show ?thesis .
  qed
  then show ?thesis using 1 2 by (simp add: rewritten_def)
qed

lemma rewritten_mono: "rewritten Y h h' \<Longrightarrow> Y \<subseteq> Z \<Longrightarrow> rewritten Z h h'"
  unfolding rewritten_def by blast

lemma rewritten_layout: "rewritten Y h h' \<Longrightarrow> layout h' = layout h"
proof
  fix a assume r: "rewritten Y h h'"
  show "layout h' a = layout h a"
  proof (cases "chunks h a")
    case None
    then have "chunks h' a = None" using rewritten_chunk' [OF r, of a] by (cases "chunks h' a") auto
    then show ?thesis using None r by (simp add: layout_def rewritten_def)
  next
    case (Some x)
    then obtain y where "chunks h' a = Some y" "slice_of y = slice_of x" using rewritten_chunk [OF r] by metis
    then show ?thesis using Some r by (simp add: layout_def rewritten_def slice_of_def)
  qed
qed

lemma rewritten_vbuf:
  assumes r: "rewritten Y h h'" and v: "vbuf h b cs"
  shows "vbuf h' b cs"
proof -
  have bl: "map_option length (block h' d) = map_option length (block h d)" for d
    using r by (simp add: rewritten_def)
  have wf: "chunk_wf h' y" if "chunk_wf h x" "slice_of y = slice_of x" for x y
    using that bl [of "cdata x"] by (auto simp: chunk_wf_def slice_of_def)
  obtain e where e: "chunks h b = Some e" "end_wf e" using vbufD(6) [OF v] by blast
  obtain e' where e': "chunks h' b = Some e'" "slice_of e' = slice_of e" using rewritten_chunk [OF r e(1)] .
  have "\<exists>y. chunks h' c = Some y \<and> chunk_wf h' y" if c: "c \<in> set cs" for c
  proof -
    obtain x where x: "chunks h c = Some x" "chunk_wf h x" using vbufD(7) [OF v c] by blast
    obtain y where "chunks h' c = Some y" "slice_of y = slice_of x" using rewritten_chunk [OF r x(1)] .
    then show ?thesis using wf x(2) by blast
  qed
  moreover have "end_wf e'" using e(2) e'(2) by (simp add: end_wf_def slice_of_def)
  moreover have "seq (links h') b cs" using vbufD(1) [OF v] r by (simp add: rewritten_def)
  ultimately show ?thesis using e'(1) unfolding vbuf_def by blast
qed

lemma rewritten_heap_ok:
  assumes r: "rewritten Y h h'" and ok: "heap_ok h"
  shows "heap_ok h'"
proof -
  have dc: "chunks h' a = None \<longleftrightarrow> chunks h a = None" for a
    using r map_option_is_None [of slice_of "chunks h' a"] unfolding rewritten_def by simp
  have dd: "datas h' d = None \<longleftrightarrow> datas h d = None" for d
    using r map_option_is_None [of dref "datas h' d"] unfolding rewritten_def by simp
  have dom: "dom (chunks h') = dom (chunks h)" "dom (datas h') = dom (datas h)"
    using dc dd by (auto simp: dom_def)
  have ow: "owners h' = owners h"
  proof
    fix d
    have "(\<exists>x. chunks h' c = Some x \<and> cdata x = d) = (\<exists>x. chunks h c = Some x \<and> cdata x = d)" for c
      using rewritten_chunk [OF r, of c] rewritten_chunk' [OF r, of c] by (metis prod.inject slice_of_def)
    then show "owners h' d = owners h d" by (simp add: owners_def)
  qed
  have "cref y \<ge> 1 \<and> (cdata y \<noteq> NULL \<longrightarrow> cdata y \<in> dom (datas h))" if y: "chunks h' c = Some y" for c y
  proof -
    obtain x where "chunks h c = Some x" "slice_of y = slice_of x" using rewritten_chunk' [OF r y] .
    then show ?thesis using heap_okD(4) [OF ok, of c x] by (auto simp: slice_of_def)
  qed
  moreover have "dref y = int (card (owners h d))" if y: "datas h' d = Some y" for d y
  proof -
    have "map_option dref (datas h d) = Some (dref y)"
      using r y unfolding rewritten_def by (metis option.simps(9))
    then obtain x where "datas h d = Some x" "dref y = dref x" by auto
    then show ?thesis using heap_okD(5) [OF ok] by simp
  qed
  moreover have "links h' = links h" "fresh h' = fresh h" using r by (simp_all add: rewritten_def)
  ultimately show ?thesis
    using ok unfolding heap_ok_def dom ow by simp
qed

lemma slice_overwrite:
  assumes "o1 + z1 \<le> length bs" "m + length vs \<le> z1"
  shows "take z1 (drop o1 (take (o1 + m) bs @ vs @ drop (o1 + m + length vs) bs)) =
    take m (take z1 (drop o1 bs)) @ vs @ drop (m + length vs) (take z1 (drop o1 bs))"
proof -
  have 1: "drop o1 (take (o1 + m) bs @ vs @ drop (o1 + m + length vs) bs) =
      take m (drop o1 bs) @ vs @ drop (m + length vs) (drop o1 bs)"
    using assms by (simp add: drop_take add.assoc add.commute [of o1])
  show ?thesis unfolding 1 using assms
    by (simp add: min_absorb1 drop_take)
qed

lemma slice_unaffected:
  assumes "o2 + z2 \<le> p \<or> p + length vs \<le> o2" "p + length vs \<le> length bs"
  shows "take z2 (drop o2 (take p bs @ vs @ drop (p + length vs) bs)) = take z2 (drop o2 bs)"
  using assms(1)
proof
  assume "o2 + z2 \<le> p"
  then show ?thesis using assms(2) by (simp add: drop_take)
next
  assume o: "p + length vs \<le> o2"
  then have "drop o2 (take p bs @ vs @ drop (p + length vs) bs) = drop o2 bs"
    using assms(2) by (simp add: min_absorb2)
  then show ?thesis by simp
qed

lemma store_slice:
  assumes x: "chunks h y = Some x" "chunk_wf h x" "\<not> f_ctl (cflags x)" and m: "m + length vs \<le> csize x"
  obtains h' where "store h (cdata x, coffset x + m) vs = Some h'" "rewritten {y} h h'" "chunks h' = chunks h"
    "chunk_bytes h' y = take m (chunk_bytes h y) @ vs @ drop (m + length vs) (chunk_bytes h y)"
    "\<And>a z. chunks h a = Some z \<Longrightarrow> chunk_wf h z \<Longrightarrow> f_ctl (cflags x) \<or> f_ctl (cflags z) \<or> cdata z \<noteq> cdata x \<or>
      coffset z + csize z \<le> coffset x \<or> coffset x + csize x \<le> coffset z \<Longrightarrow> chunk_bytes h' a = chunk_bytes h a"
proof -
  obtain bs where bs: "block h (cdata x) = Some bs" "coffset x + csize x \<le> length bs"
    using x(2,3) by (auto simp: chunk_wf_def)
  obtain dx where dx: "datas h (cdata x) = Some dx" "dkind dx = Data_basic bs"
    using bs(1) by (auto simp: block_def split: option.splits data_kind.splits)
  let ?bs = "take (coffset x + m) bs @ vs @ drop (coffset x + m + length vs) bs"
  let ?h = "h\<lparr>datas := (datas h)(cdata x \<mapsto> dx\<lparr>dkind := Data_basic ?bs\<rparr>)\<rparr>"
  have st: "store h (cdata x, coffset x + m) vs = Some ?h"
    using bs dx m by (simp add: store_def assert_that_def upd_data_def)
  have bl: "block ?h d = (if d = cdata x then Some ?bs else block h d)" for d by (simp add: block_def)
  have lbs: "length ?bs = length bs" using bs(2) m by simp
  have rw: "rewritten {y} h ?h"
    unfolding rewritten_def using bs(1) dx(1) x(1) lbs by (simp add: bl)
  have cy: "chunk_bytes ?h y = take m (chunk_bytes h y) @ vs @ drop (m + length vs) (chunk_bytes h y)"
    using x(1,3) bs(1) slice_overwrite [OF bs(2) m] by (simp add: chunk_bytes_def bl)
  have ca: "chunk_bytes ?h a = chunk_bytes h a"
    if a: "chunks h a = Some z" "chunk_wf h z" "f_ctl (cflags x) \<or> f_ctl (cflags z) \<or> cdata z \<noteq> cdata x \<or>
      coffset z + csize z \<le> coffset x \<or> coffset x + csize x \<le> coffset z" for a z
  proof (cases "f_ctl (cflags z) \<or> cdata z \<noteq> cdata x")
    case True
    then show ?thesis using a(1) by (auto simp: chunk_bytes_def bl)
  next
    case False
    then have "coffset z + csize z \<le> coffset x + m \<or> coffset x + m + length vs \<le> coffset z"
      using a(3) x(3) m by auto
    from slice_unaffected [OF this] bs m have
      "take (csize z) (drop (coffset z) ?bs) = take (csize z) (drop (coffset z) bs)" by simp
    then show ?thesis using False a(1) bs(1) by (simp add: chunk_bytes_def bl)
  qed
  show ?thesis by (rule that [OF st rw _ cy ca]) simp_all
qed

lemma min_pieces:
  fixes k l r len c :: nat
  assumes "k = min r c" "l = min k len"
  shows "min len r = l + min (len - l) (r - k)"
proof (cases "len \<le> k")
  case True
  then show ?thesis using assms by (simp add: min_absorb1 min_absorb2)
next
  case False
  then have "l = k" "k \<le> r" using assms by linarith+
  then show ?thesis using False by linarith
qed

lemma overwrite_pieces:
  assumes kk: "kk = min r (length xs - m)" and m: "m \<le> length xs" and l: "l = min kk (length src)"
  shows "take m xs @ take l src @ drop (m + l) xs @ take (min (length src - l) (r - kk)) (drop l src) @
      drop (min (length src - l) (r - kk)) ys =
    take m xs @ take (min (length src) r) src @ drop (m + min (length src) r) (xs @ ys)"
proof -
  let ?k = "min (length src - l) (r - kk)"
  have k: "min (length src) r = l + ?k" by (rule min_pieces [OF kk l])
  have ll: "m + l \<le> length xs" using kk l m by simp
  have full: "m + l = length xs" if "?k \<noteq> 0"
  proof -
    have "l < length src" "kk < r" using that by simp_all
    then show ?thesis using kk l m by linarith
  qed
  show ?thesis
  proof (cases "?k = 0")
    case True
    then show ?thesis unfolding k using ll by simp
  next
    case False
    have "take l src @ take ?k (drop l src) = take (l + ?k) src" by (simp add: take_add)
    moreover have "drop (m + l) xs = []" "m + (l + ?k) = length xs + ?k" using full [OF False] by auto
    moreover have "drop (length xs + ?k) (xs @ ys) = drop ?k ys" by simp
    ultimately show ?thesis unfolding k by (metis append.assoc append_Nil)
  qed
qed

lemma rewritten_touch:
  assumes "chunks h y = Some x"
  shows "rewritten {y} h (touch w y x h)"
proof -
  have "block (h\<lparr>chunks := c\<rparr>) = block h" for c by (simp add: fun_eq_iff block_def)
  then show ?thesis using assms by (simp add: rewritten_def slice_of_def set_modified_def)
qed

lemma rewritten_disjoint:
  assumes r: "rewritten Y h h'" and d: "disjoint_slices h cs"
  shows "disjoint_slices h' cs"
  unfolding disjoint_slices_def
proof (intro ballI impI allI)
  fix a c x z assume a: "a \<in> set cs" "c \<in> set cs" "a \<noteq> c" "chunks h' a = Some x" "chunks h' c = Some z"
  obtain x' where x: "chunks h a = Some x'" "slice_of x = slice_of x'" using rewritten_chunk' [OF r a(4)] .
  obtain z' where z: "chunks h c = Some z'" "slice_of z = slice_of z'" using rewritten_chunk' [OF r a(5)] .
  have "f_ctl (cflags x') \<or> f_ctl (cflags z') \<or>
        cdata z' \<noteq> cdata x' \<or> coffset z' + csize z' \<le> coffset x' \<or> coffset x' + csize x' \<le> coffset z'"
    using d a(1-3) x(1) z(1) unfolding disjoint_slices_def by blast
  then show "f_ctl (cflags x) \<or> f_ctl (cflags z) \<or>
        cdata z \<noteq> cdata x \<or> coffset z + csize z \<le> coffset x \<or> coffset x + csize x \<le> coffset z"
    using x(2) z(2) by (simp add: slice_of_def)
qed

lemma rewritten_writable:
  assumes r: "rewritten Y h h'" and w: "writable_all h cs"
  shows "writable_all h' cs"
  unfolding writable_all_def
proof
  fix c assume "c \<in> set cs"
  then obtain x where x: "chunks h c = Some x" "f_writable (cflags x)" using w unfolding writable_all_def by blast
  obtain y where "chunks h' c = Some y" "slice_of y = slice_of x" using rewritten_chunk [OF r x(1)] .
  then show "\<exists>x. chunks h' c = Some x \<and> f_writable (cflags x)" using x(2) by (simp add: slice_of_def)
qed

text \<open>Marking and overwriting one piece: the step that writing and zeroing a range share.\<close>

lemma touch_store_ok:
  assumes ok: "heap_ok h" and v: "vbuf h b cs" and y: "y \<in> set cs" and d: "disjoint_slices h cs"
    and x: "chunks h y = Some x" "chunk_wf h x" "\<not> f_ctl (cflags x)" and m: "m + length vs \<le> csize x"
  obtains h' where "store (touch w y x h) (cdata x, coffset x + m) vs = Some h'" "rewritten {y} h h'"
    "chunk_bytes h' y = take m (chunk_bytes h y) @ vs @ drop (m + length vs) (chunk_bytes h y)"
    "\<forall>a \<in> set cs. a \<noteq> y \<longrightarrow> chunk_bytes h' a = chunk_bytes h a"
proof -
  let ?h1 = "touch w y x h" let ?x = "if w then set_modified True x else x"
  have rw: "rewritten {y} h ?h1" by (rule rewritten_touch [OF x(1)])
  have sh: "same_shape x (set_modified True x)" by simp
  have cb: "chunk_bytes ?h1 = chunk_bytes h" using same_shape_upd(1) [OF x(1) sh] by simp
  have x1: "chunks ?h1 y = Some ?x" using x(1) by simp
  have f: "cdata ?x = cdata x" "coffset ?x = coffset x" "csize ?x = csize x" "f_ctl (cflags ?x) = f_ctl (cflags x)"
    by (simp_all add: set_modified_def)
  have v1: "vbuf ?h1 b cs" by (rule rewritten_vbuf [OF rw v])
  have wf1: "chunk_wf ?h1 ?x" using vbufD(7) [OF v1 y] x1 by simp
  have ct: "\<not> f_ctl (cflags ?x)" using x(3) f(4) by blast
  obtain h' where h': "store ?h1 (cdata ?x, coffset ?x + m) vs = Some h'" "rewritten {y} ?h1 h'"
    "chunk_bytes h' y = take m (chunk_bytes ?h1 y) @ vs @ drop (m + length vs) (chunk_bytes ?h1 y)"
    "\<And>a z. chunks ?h1 a = Some z \<Longrightarrow> chunk_wf ?h1 z \<Longrightarrow> f_ctl (cflags ?x) \<or> f_ctl (cflags z) \<or> cdata z \<noteq> cdata ?x \<or>
      coffset z + csize z \<le> coffset ?x \<or> coffset ?x + csize ?x \<le> coffset z \<Longrightarrow> chunk_bytes h' a = chunk_bytes ?h1 a"
    using store_slice [OF x1 wf1 ct, of m vs] m f(3) by metis
  have "chunk_bytes h' a = chunk_bytes h a" if a: "a \<in> set cs" "a \<noteq> y" for a
  proof -
    obtain z where z: "chunks ?h1 a = Some z" "chunk_wf ?h1 z" using vbufD(7) [OF v1 a(1)] by blast
    have "f_ctl (cflags ?x) \<or> f_ctl (cflags z) \<or> cdata z \<noteq> cdata ?x \<or>
      coffset z + csize z \<le> coffset ?x \<or> coffset ?x + csize ?x \<le> coffset z"
      using rewritten_disjoint [OF rw d] y a x1 z(1) unfolding disjoint_slices_def by metis
    from h'(4) [OF z this] show ?thesis by (simp only: cb)
  qed
  then show ?thesis
    using that [of h'] h'(1-3) f(1,2) rewritten_trans [OF rw h'(2)] by (simp only: cb) blast
qed

lemma walk_distinct: "vbuf h b cs \<Longrightarrow> walk h b cs data it ys n r \<Longrightarrow> distinct ys"
  using vbufD(5) [of h b cs] by (auto simp: walk_def)

lemma write_loop_ok:
  "heap_ok h \<Longrightarrow> vbuf h b cs \<Longrightarrow> walk h b cs data it ys n r \<Longrightarrow> set ys \<subseteq> set cs \<Longrightarrow>
   writable_all h ys \<Longrightarrow> disjoint_slices h cs \<Longrightarrow>
   \<exists>h'. write_loop h data src it ret = Some (ret + min (length src) r, h') \<and> rewritten (set ys) h h' \<and>
     content h' ys = take n (content h ys) @ take (min (length src) r) src @
       drop (n + min (length src) r) (content h ys) \<and>
     (\<forall>a \<in> set cs. a \<notin> set ys \<longrightarrow> chunk_bytes h' a = chunk_bytes h a)"
proof (induction "length ys" arbitrary: h it ys n r src ret rule: less_induct)
  case less
  note ok = less.prems(1) and v = less.prems(2) and wk = less.prems(3) and su = less.prems(4)
    and wr = less.prems(5) and dj = less.prems(6)
  show ?case
  proof (cases "src = []")
    case True
    then show ?thesis by (intro exI [of _ h]) (subst write_loop.simps, simp)
  next
    case False
    have "True \<longrightarrow> writable_all h ys" using wr by simp
    from vbuffer_mmap_ok [OF ok v wk this su] show ?thesis
    proof (elim disjE exE conjE)
      fix it' assume "vbuffer_mmap h data True it = Some (NULL_ptr, 0, it', None, h)" "r = 0"
      then show ?thesis using False by (intro exI [of _ h]) (subst write_loop.simps, simp)
    next
      fix us y ys' x it' itp m k
      assume a: "ys = us @ y # ys'" "chunks h y = Some x" "chunk_wf h x" "\<not> f_ctl (cflags x)"
        "vbuffer_mmap h data True it = Some ((cdata x, coffset x + m), k, it', itp, touch True y x h)"
        "cdata x \<noteq> NULL" "szs h us + m = n" "0 < k" "k = min r (csize x - m)" "m \<le> csize x"
        "walk h b cs data it' ys' 0 (r - k)"
      let ?l = "min k (length src)" and ?k' = "min (length src - min k (length src)) (r - k)"
      have yin: "y \<in> set cs" using a(1) su by auto
      have dis: "y \<notin> set ys'" "y \<notin> set us" "set us \<inter> set ys' = {}" using walk_distinct [OF v wk] a(1) by auto
      have ml: "m + length (take ?l src) \<le> csize x" using a(9,10) by auto
      obtain h2 where h2: "store (touch True y x h) (cdata x, coffset x + m) (take ?l src) = Some h2" "rewritten {y} h h2"
        "chunk_bytes h2 y = take m (chunk_bytes h y) @ take ?l src @ drop (m + length (take ?l src)) (chunk_bytes h y)"
        "\<forall>a \<in> set cs. a \<noteq> y \<longrightarrow> chunk_bytes h2 a = chunk_bytes h a"
        using ok v yin dj a(2-4) ml by (rule touch_store_ok)
      have ok2: "heap_ok h2" and v2: "vbuf h2 b cs" and dj2: "disjoint_slices h2 cs"
        using h2(2) ok v dj by (auto intro: rewritten_heap_ok rewritten_vbuf rewritten_disjoint)
      have wk2: "walk h2 b cs data it' ys' 0 (r - k)"
        using a(11) walk_layout [OF rewritten_layout [OF h2(2)]] by simp
      have wr2: "writable_all h2 ys'"
        by (rule rewritten_writable [OF h2(2)]) (use wr a(1) in \<open>simp add: writable_all_def\<close>)
      have su2: "set ys' \<subseteq> set cs" "length ys' < length ys" using su a(1) by auto
      obtain h3 where h3: "write_loop h2 data (drop ?l src) it' (ret + ?l) = Some (ret + ?l + min (length (drop ?l src)) (r - k), h3)"
        "rewritten (set ys') h2 h3"
        "content h3 ys' = take 0 (content h2 ys') @ take (min (length (drop ?l src)) (r - k)) (drop ?l src) @
          drop (0 + min (length (drop ?l src)) (r - k)) (content h2 ys')"
        "\<forall>a \<in> set cs. a \<notin> set ys' \<longrightarrow> chunk_bytes h3 a = chunk_bytes h2 a"
        using less.hyps [OF su2(2) ok2 v2 wk2 su2(1) wr2 dj2, of "drop ?l src" "ret + ?l"] by blast
      have kk: "min (length src) r = ?l + ?k'" by (rule min_pieces [OF a(9) refl])
      have e: "write_loop h data src it ret = Some (ret + min (length src) r, h3)"
        using False a(5,6) h2(1) h3(1) kk by (subst write_loop.simps) (simp add: Let_def)
      have r3: "rewritten (set ys) h h3"
        by (rule rewritten_trans [OF rewritten_mono [OF h2(2)] rewritten_mono [OF h3(2)]]) (use a(1) in auto)
      have lu: "length (content h us) = szs h us" by (rule length_content [OF v]) (use a(1) su in auto)
      have ly: "length (chunk_bytes h y) = csize x" using chunk_wf_bytes [OF a(2,3)] a(2) by (simp add: csz_def)
      have nn: "n = length (content h us) + m" using a(7) lu by simp
      have y3: "chunk_bytes h3 y = take m (chunk_bytes h y) @ take ?l src @ drop (m + ?l) (chunk_bytes h y)"
        using h3(4) h2(3) yin dis(1) by simp
      have u3: "content h3 us = content h us"
      proof (rule content_cong)
        fix a' assume "a' \<in> set us"
        then have "a' \<in> set cs" "a' \<notin> set ys'" "a' \<noteq> y" using a(1) su dis by auto
        then show "chunk_bytes h3 a' = chunk_bytes h a'" using h3(4) h2(4) by simp
      qed
      have z3: "content h2 ys' = content h ys'"
      proof (rule content_cong)
        fix a' assume "a' \<in> set ys'"
        then have "a' \<in> set cs" "a' \<noteq> y" using su2(1) dis by auto
        then show "chunk_bytes h2 a' = chunk_bytes h a'" using h2(4) by simp
      qed
      have c3: "content h3 ys = content h us @ take m (chunk_bytes h y) @ take ?l src @ drop (m + ?l) (chunk_bytes h y) @
          take ?k' (drop ?l src) @ drop ?k' (content h ys')"
        using u3 y3 z3 h3(3) by (simp add: a(1))
      have op: "take m (chunk_bytes h y) @ take ?l src @ drop (m + ?l) (chunk_bytes h y) @
          take ?k' (drop ?l src) @ drop ?k' (content h ys') =
        take m (chunk_bytes h y) @ take (min (length src) r) src @ drop (m + min (length src) r) (chunk_bytes h y @ content h ys')"
        by (rule overwrite_pieces) (use a(9,10) ly in simp_all)
      have "content h3 ys = take n (content h ys) @ take (min (length src) r) src @
          drop (n + min (length src) r) (content h ys)"
        unfolding c3 op using nn ly a(10) by (simp add: a(1))
      moreover have "\<forall>a \<in> set cs. a \<notin> set ys \<longrightarrow> chunk_bytes h3 a = chunk_bytes h a"
        using h3(4) h2(4) a(1) by auto
      ultimately show ?thesis using e r3 by blast
    qed
  qed
qed

text \<open>Zeroing a range is writing zeroes to all of it.\<close>

lemma zero_loop_write:
  "heap_ok h \<Longrightarrow> vbuf h b cs \<Longrightarrow> walk h b cs data it ys n r \<Longrightarrow> set ys \<subseteq> set cs \<Longrightarrow>
   writable_all h ys \<Longrightarrow> disjoint_slices h cs \<Longrightarrow>
   zero_loop h data it = map_option snd (write_loop h data (replicate r 0) it ret)"
proof (induction "length ys" arbitrary: h it ys n r ret rule: less_induct)
  case less
  note ok = less.prems(1) and v = less.prems(2) and wk = less.prems(3) and su = less.prems(4)
    and wr = less.prems(5) and dj = less.prems(6)
  have "True \<longrightarrow> writable_all h ys" using wr by simp
  from vbuffer_mmap_ok [OF ok v wk this su] show ?case
  proof (elim disjE exE conjE)
    fix it' assume "vbuffer_mmap h data True it = Some (NULL_ptr, 0, it', None, h)" "r = 0"
    then show ?thesis by (subst zero_loop.simps, subst write_loop.simps) simp
  next
    fix us y ys' x it' itp m k
    assume a: "ys = us @ y # ys'" "chunks h y = Some x" "chunk_wf h x" "\<not> f_ctl (cflags x)"
      "vbuffer_mmap h data True it = Some ((cdata x, coffset x + m), k, it', itp, touch True y x h)"
      "cdata x \<noteq> NULL" "0 < k" "k = min r (csize x - m)" "m \<le> csize x"
      "walk h b cs data it' ys' 0 (r - k)"
    have kr: "k \<le> r" "0 < r" using a(7,8) by auto
    have yin: "y \<in> set cs" using a(1) su by auto
    have ml: "m + length (replicate k (0 :: u8)) \<le> csize x" using a(8,9) by auto
    obtain h2 where h2: "store (touch True y x h) (cdata x, coffset x + m) (replicate k 0) = Some h2" "rewritten {y} h h2"
      using ok v yin dj a(2-4) ml by (rule touch_store_ok)
    have 2: "heap_ok h2" "vbuf h2 b cs" "disjoint_slices h2 cs"
      using h2(2) ok v dj by (auto intro: rewritten_heap_ok rewritten_vbuf rewritten_disjoint)
    have wk2: "walk h2 b cs data it' ys' 0 (r - k)"
      using a(10) walk_layout [OF rewritten_layout [OF h2(2)]] by simp
    have wr2: "writable_all h2 ys'"
      by (rule rewritten_writable [OF h2(2)]) (use wr a(1) in \<open>simp add: writable_all_def\<close>)
    have su2: "length ys' < length ys" "set ys' \<subseteq> set cs" using su a(1) by auto
    have rest: "zero_loop h2 data it' = map_option snd (write_loop h2 data (replicate (r - k) 0) it' (ret + k))"
      by (rule less.hyps [OF su2(1) 2(1,2) wk2 su2(2) wr2 2(3)])
    have "write_loop h data (replicate r 0) it ret = write_loop h2 data (replicate (r - k) 0) it' (ret + k)"
      using a(5,6) h2(1) kr by (subst write_loop.simps) (simp add: Let_def min_absorb1 take_replicate drop_replicate)
    moreover have "zero_loop h data it = zero_loop h2 data it'"
      using a(5,6) h2(1) by (subst zero_loop.simps) simp
    ultimately show ?thesis using rest by simp
  qed
qed

section \<open>Reading and writing ranges\<close>

lemma range_layout:
  assumes l: "layout h' = layout h"
  shows "range_at h' b cs data p q = range_at h b cs data p q"
  by (simp add: range_at_def layoutD(3) [OF l] fix_layout [OF l] itr_def iter_at_def)

lemma sub_read_ok:
  assumes ok: "heap_ok h" and v: "vbuf h b cs" and r: "range_at h b cs data p q"
  shows "vbuffer_sub_read h data sz = Some (take (min sz (q - p)) (drop p (content h cs)), h)"
proof -
  obtain ys n where w: "walk h b cs data (vbuffer_mmap_init\<lparr>mmeter := 0\<rparr>) ys n (q - p)"
    "drop n (content h ys) = drop p (content h cs)" "\<exists>xs. cs = xs @ ys \<and> p = szs h xs + n"
    using v r by (rule walk_start)
  have w': "walk h b cs data vbuffer_mmap_init ys n (q - p)" using w(1) by simp
  have "set ys \<subseteq> set cs" using w(3) by auto
  then show ?thesis
    using sub_check_ok [OF ok v r] read_loop_ok [OF ok v w', of sz "[]"] w(2)
    by (simp add: vbuffer_sub_read_def)
qed

lemma writable_all_sub: "writable_all h cs \<Longrightarrow> set ys \<subseteq> set cs \<Longrightarrow> writable_all h ys"
  unfolding writable_all_def by blast

lemma write_range_ok:
  assumes ok: "heap_ok h" and v: "vbuf h b cs" and r: "range_at h b cs data p q"
    and wr: "writable_all h cs" and dj: "disjoint_slices h cs"
  obtains h' where "write_loop h data src vbuffer_mmap_init 0 = Some (min (length src) (q - p), h')"
    "zero_loop h data vbuffer_mmap_init =
      map_option snd (write_loop h data (replicate (q - p) 0) vbuffer_mmap_init 0)"
    "rewritten (set cs) h h'"
    "content h' cs = take p (content h cs) @ take (min (length src) (q - p)) src @
      drop (p + min (length src) (q - p)) (content h cs)"
proof -
  let ?k = "min (length src) (q - p)"
  obtain ys n where w: "walk h b cs data (vbuffer_mmap_init\<lparr>mmeter := 0\<rparr>) ys n (q - p)"
    "n \<le> szs h ys" "\<exists>xs. cs = xs @ ys \<and> p = szs h xs + n"
    using v r by (rule walk_start)
  obtain xs where xs: "cs = xs @ ys" "p = szs h xs + n" using w(3) by blast
  have w': "walk h b cs data vbuffer_mmap_init ys n (q - p)" using w(1) by simp
  have su: "set ys \<subseteq> set cs" using xs by auto
  note wy = writable_all_sub [OF wr su]
  obtain h' where h': "write_loop h data src vbuffer_mmap_init 0 = Some (0 + ?k, h')" "rewritten (set ys) h h'"
    "content h' ys = take n (content h ys) @ take ?k src @ drop (n + ?k) (content h ys)"
    "\<forall>a \<in> set cs. a \<notin> set ys \<longrightarrow> chunk_bytes h' a = chunk_bytes h a"
    using write_loop_ok [OF ok v w' su wy dj, of src 0] by blast
  have "content h' xs = content h xs"
    by (rule content_cong) (use h'(4) xs vbufD(5) [OF v] in auto)
  moreover have "length (content h xs) = szs h xs" by (rule length_content [OF v]) (use xs in auto)
  ultimately have "content h' cs = take p (content h cs) @ take ?k src @ drop (p + ?k) (content h cs)"
    using h'(3) xs by simp
  then show ?thesis
    using that h'(1) zero_loop_write [OF ok v w' su wy dj] rewritten_mono [OF h'(2) su] by simp
qed

lemma errs_simps:
  "block (h\<lparr>errs := e\<rparr>) = block h" "chunk_bytes (h\<lparr>errs := e\<rparr>) = chunk_bytes h"
  "content (h\<lparr>errs := e\<rparr>) = content h" "vbuf (h\<lparr>errs := e\<rparr>) b cs = vbuf h b cs"
  "heap_ok (h\<lparr>errs := e\<rparr>) = heap_ok h"
proof -
  show bl: "block (h\<lparr>errs := e\<rparr>) = block h" by (simp add: fun_eq_iff block_def)
  have bl': "block (h\<lparr>errs := e\<rparr>) d = block h d" for d by (simp only: bl)
  show cb: "chunk_bytes (h\<lparr>errs := e\<rparr>) = chunk_bytes h"
    by (simp add: fun_eq_iff chunk_bytes_def bl' split: option.split)
  show "content (h\<lparr>errs := e\<rparr>) = content h" by (simp add: fun_eq_iff content_def cb)
  have "chunk_wf (h\<lparr>errs := e\<rparr>) = chunk_wf h" by (simp add: fun_eq_iff chunk_wf_def bl')
  then show "vbuf (h\<lparr>errs := e\<rparr>) b cs = vbuf h b cs" by (simp add: vbuf_def)
  have "owners (h\<lparr>errs := e\<rparr>) = owners h" by (simp add: fun_eq_iff owners_def)
  then show "heap_ok (h\<lparr>errs := e\<rparr>) = heap_ok h" by (simp add: heap_ok_def)
qed

text \<open>A buffer of three bytes and the range of its last two, for the witnesses.\<close>

lemma sample_range:
  "\<exists>h b c data. heap_ok h \<and> vbuf h b [c] \<and> content h [c] = [7, 8, 9] \<and> range_at h b [c] data 1 3 \<and>
     writable_all h [c] \<and> disjoint_slices h [c] \<and> pending (errs h) = None"
proof -
  have e: "3 \<le> budget (empty_heap 3)" "length [7, 8, 9 :: u8] < 2 ^ 32" by (simp_all add: empty_heap_def)
  obtain b c h where h: "vbuffer_create_from (empty_heap 3) NULL [7, 8, 9] = Some (True, b, h)"
    "heap_ok h" "vbuf h b [c]" "content h [c] = [7, 8, 9]"
    "chunks h c = Some (data_chunk (fresh (empty_heap 3)) 0 (length [7, 8, 9 :: u8]))"
    using heap_ok_empty_heap e by (rule vbuffer_create_from_ok)
  let ?h = "h\<lparr>errs := errs (empty_heap 3)\<rparr>"
  have v: "vbuf ?h b [c]" "heap_ok ?h" "content ?h [c] = [7, 8, 9]" using h(2-4) by (simp_all only: errs_simps)
  have o: "(1 :: nat) \<noteq> SIZE_ALL" by (simp add: SIZE_ALL_def)
  obtain it where "itr ?h b [c] it (min 1 (szs ?h [c]))" using v(2,1) o by (rule vbuffer_position_ok)
  then have it: "itr ?h b [c] it 1" "szs ?h [c] = 3" using length_content_all [OF v(1)] v(3) by simp_all
  have "range_at ?h b [c] \<lparr>sbegin = it, use_size = True, sunion = Sub_length 2\<rparr> 1 3"
    using it by (simp add: range_at_def slength_def)
  moreover have "writable_all ?h [c]" "disjoint_slices ?h [c]"
    using h(5) by (simp_all add: writable_all_def disjoint_slices_def)
  moreover have "pending (errs ?h) = None" by (simp add: empty_heap_def pending_def error_init_def)
  ultimately show ?thesis using v by blast
qed

text \<open>
  C11. Reading a range returns exactly its bytes, truncated to the size of the destination, over any
  number of chunks and control marks and for both forms of a range (a length or an end position).
\<close>

theorem vbuffer_sub_read_exact:
  assumes "heap_ok h" "vbuf h b cs" "range_at h b cs data p q"
  shows "vbuffer_sub_read h data sz = Some (take sz (take (q - p) (drop p (content h cs))), h)"
  using sub_read_ok [OF assms] by simp

theorem vbuffer_sub_read_exact_witness:
  "\<exists>h data. vbuffer_sub_read h data 5 = Some ([8, 9], h)"
proof -
  obtain h b c data where "heap_ok h" "vbuf h b [c]" "content h [c] = [7, 8, 9]" "range_at h b [c] data 1 3"
    using sample_range by blast
  then have "vbuffer_sub_read h data 5 = Some ([8, 9], h)" using vbuffer_sub_read_exact [of h b "[c]" data 1 3 5] by simp
  then show ?thesis by blast
qed

text \<open>
  C1. Writing to a writable range whose chunks do not overlap stores as many bytes as fit, leaves the
  rest of the buffer, its chunks and every other data block unchanged, and reading the range back
  returns what was written.
\<close>

theorem vbuffer_sub_write_read:
  assumes "heap_ok h" "vbuf h b cs" "range_at h b cs data p q" "writable_all h cs" "disjoint_slices h cs"
  shows "\<exists>h'. vbuffer_sub_write h data src = Some (min (length src) (q - p), h') \<and>
    heap_ok h' \<and> vbuf h' b cs \<and> rewritten (set cs) h h' \<and>
    content h' cs = take p (content h cs) @ take (q - p) src @ drop (p + min (length src) (q - p)) (content h cs) \<and>
    vbuffer_sub_read h' data (length src) = Some (take (q - p) src, h')"
proof -
  let ?k = "min (length src) (q - p)"
  obtain h' where h': "write_loop h data src vbuffer_mmap_init 0 = Some (?k, h')" "rewritten (set cs) h h'"
    "content h' cs = take p (content h cs) @ take ?k src @ drop (p + ?k) (content h cs)"
    using assms by (rule write_range_ok)
  have ok: "heap_ok h'" and v: "vbuf h' b cs"
    using h'(2) assms(1,2) by (auto intro: rewritten_heap_ok rewritten_vbuf)
  have r: "range_at h' b cs data p q" using assms(3) range_layout [OF rewritten_layout [OF h'(2)]] by simp
  have k: "take ?k src = take (q - p) src" by (simp add: min_def)
  have p: "p \<le> length (content h cs)" using range_atD [OF assms(3)] length_content_all [OF assms(2)] by simp
  have "drop p (content h' cs) = take ?k src @ drop (p + ?k) (content h cs)" using h'(3) p by simp
  then have "take ?k (drop p (content h' cs)) = take ?k src" by simp
  then have "vbuffer_sub_read h' data (length src) = Some (take (q - p) src, h')"
    using sub_read_ok [OF ok v r, of "length src"] k by simp
  then show ?thesis
    using sub_check_ok [OF assms(1-3)] h' ok v k by (auto simp: vbuffer_sub_write_def)
qed

theorem vbuffer_sub_write_read_witness:
  "\<exists>h data h' c. vbuffer_sub_write h data [1, 2, 3] = Some (2, h') \<and> content h' [c] = [7, 1, 2] \<and>
     vbuffer_sub_read h' data 3 = Some ([1, 2], h')"
proof -
  obtain h b c data where h: "heap_ok h" "vbuf h b [c]" "content h [c] = [7, 8, 9]" "range_at h b [c] data 1 3"
    "writable_all h [c]" "disjoint_slices h [c]"
    using sample_range by blast
  from vbuffer_sub_write_read [OF h(1,2,4-6), of "[1, 2, 3]"] obtain h' where
    "vbuffer_sub_write h data [1, 2, 3] = Some (min (length [1, 2, 3 :: u8]) (3 - 1), h')"
    "content h' [c] = take 1 (content h [c]) @ take (3 - 1) [1, 2, 3] @
      drop (1 + min (length [1, 2, 3 :: u8]) (3 - 1)) (content h [c])"
    "vbuffer_sub_read h' data (length [1, 2, 3 :: u8]) = Some (take (3 - 1) [1, 2, 3], h')" by blast
  then have "vbuffer_sub_write h data [1, 2, 3] = Some (2, h') \<and> content h' [c] = [7, 1, 2] \<and>
     vbuffer_sub_read h' data 3 = Some ([1, 2], h')" using h(3) by (simp add: numeral_2_eq_2 numeral_3_eq_3)
  then show ?thesis by blast
qed

text \<open>
  C23. Zeroing a writable range zeroes exactly its bytes; but the result is that of \<open>check_error()\<close>,
  so it is false after a success (and true if an error is pending), against the convention of the
  other operations.
\<close>

theorem vbuffer_zero_inverted:
  assumes "heap_ok h" "vbuf h b cs" "range_at h b cs data p q" "writable_all h cs" "disjoint_slices h cs"
    and "pending (errs h) = None"
  shows "\<exists>h'. vbuffer_zero h data = Some (False, h') \<and> heap_ok h' \<and> vbuf h' b cs \<and>
    content h' cs = take p (content h cs) @ replicate (q - p) 0 @ drop q (content h cs)"
proof -
  let ?z = "replicate (q - p) (0 :: u8)"
  obtain h' where h': "write_loop h data ?z vbuffer_mmap_init 0 = Some (min (length ?z) (q - p), h')"
    "zero_loop h data vbuffer_mmap_init =
      map_option snd (write_loop h data (replicate (q - p) 0) vbuffer_mmap_init 0)"
    "rewritten (set cs) h h'"
    "content h' cs = take p (content h cs) @ take (min (length ?z) (q - p)) ?z @
      drop (p + min (length ?z) (q - p)) (content h cs)"
    using assms(1-5) by (rule write_range_ok)
  have z: "zero_loop h data vbuffer_mmap_init = Some h'" using h'(1,2) by simp
  have "errs h' = errs h" using h'(3) by (simp add: rewritten_def)
  then obtain e where e: "has_error h' = (False, h'\<lparr>errs := e\<rparr>)"
    using check_error_pending [of "errs h"] assms(6) that [of "snd (check_error (errs h))"]
    by (cases "check_error (errs h)") (simp add: has_error_def)
  have "vbuffer_zero h data = Some (False, h'\<lparr>errs := e\<rparr>)"
    using sub_check_ok [OF assms(1-3)] z e by (simp add: vbuffer_zero_def)
  moreover have "p + (q - p) = q" using range_atD(2) [OF assms(3)] by simp
  then have "content (h'\<lparr>errs := e\<rparr>) cs = take p (content h cs) @ replicate (q - p) 0 @ drop q (content h cs)"
    using h'(4) by (simp add: errs_simps)
  ultimately show ?thesis
    using rewritten_heap_ok [OF h'(3) assms(1)] rewritten_vbuf [OF h'(3) assms(2)]
    by (intro exI [of _ "h'\<lparr>errs := e\<rparr>"]) (simp add: errs_simps)
qed

theorem vbuffer_zero_inverted_witness:
  "\<exists>h data h' c. vbuffer_zero h data = Some (False, h') \<and> content h' [c] = [7, 0, 0]"
proof -
  obtain h b c data where h: "heap_ok h" "vbuf h b [c]" "content h [c] = [7, 8, 9]" "range_at h b [c] data 1 3"
    "writable_all h [c]" "disjoint_slices h [c]" "pending (errs h) = None"
    using sample_range by blast
  from vbuffer_zero_inverted [OF h(1,2,4-7)] obtain h' where
    "vbuffer_zero h data = Some (False, h')"
    "content h' [c] = take 1 (content h [c]) @ replicate (3 - 1) 0 @ drop 3 (content h [c])" by blast
  then have "vbuffer_zero h data = Some (False, h') \<and> content h' [c] = [7, 0, 0]"
    using h(3) by (simp add: numeral_2_eq_2)
  then show ?thesis by blast
qed

text \<open>
  C24. Inserting a buffer at a position of another writable buffer puts its bytes there, empties the
  inserted buffer, moves the position behind the inserted bytes, and changes no other buffer.
\<close>

theorem vbuffer_iterator_insert_content:
  assumes "heap_ok h" "vbuf h b cs" "vbuf h m ds" "ds \<noteq> []" "insert b (set cs) \<inter> insert m (set ds) = {}"
    and "itr h b cs it p" "0 < budget h" "writable_all h (cs @ [b])"
  shows "\<exists>it' sub h' cs'. vbuffer_iterator_insert h it m = Some (True, it', Some sub, h') \<and>
    heap_ok h' \<and> vbuf h' b cs' \<and> vbuf h' m [] \<and>
    content h' cs' = take p (content h cs) @ content h ds @ drop p (content h cs) \<and>
    itr h' b cs' it' (p + length (content h ds)) \<and> frame_off (insert b (set cs) \<union> insert m (set ds)) h h'"
proof -
  obtain it' sub h' cs' where "vbuffer_iterator_insert h it m = Some (True, it', Some sub, h')"
    "heap_ok h'" "vbuf h' b cs'" "vbuf h' m []"
    "content h' cs' = take p (content h cs) @ content h ds @ drop p (content h cs)"
    "itr h' b cs' it' (p + length (content h ds))"
    "frame_off (insert b (set cs) \<union> insert m (set ds)) h h'"
    using assms by (rule iterator_insert_ok)
  then show ?thesis by blast
qed

theorem vbuffer_iterator_insert_content_witness:
  "\<exists>h it m it' sub h' cs'. vbuffer_iterator_insert h it m = Some (True, it', Some sub, h') \<and>
     content h' cs' = [7, 1, 2, 8, 9]"
proof -
  obtain h b c m d where h: "heap_ok h" "vbuf h b [c]" "vbuf h m [d]" "{b, c} \<inter> {m, d} = {}"
    "content h [c] = [7, 8, 9]" "content h [d] = [1, 2]" "budget h = 1"
    "\<exists>x. chunks h c = Some x \<and> f_writable (cflags x)" "\<exists>x. chunks h b = Some x \<and> f_writable (cflags x)"
    using two_writable_buffers [of "[7, 8, 9]" "[1, 2]" 1] by auto
  have o: "(1 :: nat) \<noteq> SIZE_ALL" by (simp add: SIZE_ALL_def)
  obtain it where "itr h b [c] it (min 1 (szs h [c]))" using h(1,2) o by (rule vbuffer_position_ok)
  then have it: "itr h b [c] it 1" using length_content_all [OF h(2)] h(5) by simp
  have "\<exists>it' sub h' cs'. vbuffer_iterator_insert h it m = Some (True, it', Some sub, h') \<and>
    heap_ok h' \<and> vbuf h' b cs' \<and> vbuf h' m [] \<and>
    content h' cs' = take 1 (content h [c]) @ content h [d] @ drop 1 (content h [c]) \<and>
    itr h' b cs' it' (1 + length (content h [d])) \<and> frame_off (insert b (set [c]) \<union> insert m (set [d])) h h'"
    by (rule vbuffer_iterator_insert_content [OF h(1-3) _ _ it]) (use h in \<open>auto simp: writable_all_def\<close>)
  then obtain it' sub h' cs' where "vbuffer_iterator_insert h it m = Some (True, it', Some sub, h')"
    "content h' cs' = take 1 (content h [c]) @ content h [d] @ drop 1 (content h [c])" by blast
  then have "vbuffer_iterator_insert h it m = Some (True, it', Some sub, h') \<and> content h' cs' = [7, 1, 2, 8, 9]"
    using h(5,6) by simp
  then show ?thesis by blast
qed

end
