(* ===== verification/VBuffer_Edit.thy ===== *)
theory VBuffer_Edit
  imports VBuffer_Sub
begin

text \<open>
  Editing a range of a buffer: extraction, selection and restoration, erasure, replacement,
  compaction, flattening and cloning (\<open>lib/haka/vbuffer.c\<close> from \<open>_vbuffer_extract\<close> to
  \<open>vbuffer_sub_clone\<close>).
\<close>

section \<open>Extraction\<close>

text \<open>
  The loop of \<open>_vbuffer_extract\<close>: it looks for the end of the range and moves the control chunks
  it meets in front of it.  The result is whether it succeeded, and \<open>begin\<close>, \<open>end\<close>, \<open>iter\<close>.
\<close>

partial_function (option) extract_loop ::
    "vheap \<Rightarrow> bool \<Rightarrow> bool \<Rightarrow> bool \<Rightarrow> addr \<Rightarrow> addr \<Rightarrow> addr \<Rightarrow> nat \<Rightarrow> addr \<Rightarrow>
     (bool \<times> addr \<times> addr \<times> addr \<times> vheap) option" where
  "extract_loop h use_sz mark_modified insert_ctl bg en iter sz ctl_insert = do {
     x \<leftarrow> chunks h iter;
     if f_end (cflags x) then Some (True, bg, en, iter, h)
     else if use_sz \<and> \<not> sz > csize x then do {
       (en, h) \<leftarrow> vbuffer_iterator_split_chunk h
                    (vbuffer_iterator_init\<lparr>ichunk := iter, ioffset := to_u32 sz\<rparr>) mark_modified;
       Some (en \<noteq> NULL, bg, en, iter, h)
     }
     else if \<not> use_sz \<and> iter = en then Some (True, bg, en, iter, h)
     else do {
       let sz = (if use_sz then sz - csize x else sz);
       if f_ctl (cflags x) \<and> \<not> insert_ctl then
         (if iter = bg then do {
            bg \<leftarrow> vbuffer_chunk_next h bg;
            extract_loop h use_sz mark_modified insert_ctl bg en bg sz ctl_insert
          } else do {
            (erased, h) \<leftarrow> with_links h (list2_erase (links h) iter);
            ci \<leftarrow> list2_next (links h) ctl_insert;
            (ctl_insert, h) \<leftarrow> with_links h (list2_insert (links h) ci iter);
            extract_loop h use_sz mark_modified insert_ctl bg en erased sz ctl_insert
          })
       else do {
         nx \<leftarrow> vbuffer_chunk_next h iter;
         extract_loop h use_sz mark_modified insert_ctl bg en nx sz ctl_insert
       }
     }
   }"

definition vbuffer_extract_chunks ::
    "vheap \<Rightarrow> vbuffer_sub \<Rightarrow> addr \<Rightarrow> bool \<Rightarrow> bool \<Rightarrow> (addr \<times> addr \<times> vheap) option" where
  "vbuffer_extract_chunks h data buffer mark_modified insert_ctl = do {
     (ok, h) \<leftarrow> vbuffer_sub_check h data;
     if \<not> ok then Some (NULL, buffer, h)
     else do {
       (ok, en, h) \<leftarrow> (if \<not> use_size data then do {
            (iter, h) \<leftarrow> vbuffer_sub_end h data;
            (en, h) \<leftarrow> vbuffer_iterator_split_chunk h iter mark_modified;
            Some (en \<noteq> NULL, en, h)
          } else Some (True, NULL, h));
       if \<not> ok then Some (NULL, buffer, h)
       else do {
         (iter, h) \<leftarrow> vbuffer_sub_begin h data;
         (bg, h) \<leftarrow> vbuffer_iterator_split_chunk h iter mark_modified;
         if bg = NULL then Some (NULL, buffer, h)
         else do {
           x \<leftarrow> chunks h bg;
           (_, buffer, h) \<leftarrow> vbuffer_init_end h (f_writable (cflags x));
           (ok, bg, en, h) \<leftarrow> (if use_size data \<or> \<not> insert_ctl then do {
                ci \<leftarrow> list2_prev (links h) bg;
                (ok, bg, en, iter, h) \<leftarrow> extract_loop h (use_size data) mark_modified insert_ctl bg en bg
                   (if use_size data then slength data else 0) ci;
                Some (ok, bg, if en = NULL then iter else en, h)
              } else Some (True, bg, en, h));
           if \<not> ok then Some (NULL, buffer, h)
           else do {
             h \<leftarrow> (if bg \<noteq> en then do {
                     e \<leftarrow> vbuffer_chunk_end buffer;
                     (_, h) \<leftarrow> with_links h (list2_insert_list (links h) e bg en);
                     Some h
                   } else Some h);
             if insert_ctl then do {
               let (ctl, h) = vbuffer_data_ctl_select h;
               if ctl = NULL then do {
                 (buffer, h) \<leftarrow> vbuffer_clear h buffer;
                 Some (NULL, buffer, h)
               } else do {
                 (mark, h) \<leftarrow> vbuffer_chunk_insert_ctl h en ctl;
                 if mark = NULL then do {
                   (buffer, h) \<leftarrow> vbuffer_clear h buffer;
                   Some (NULL, buffer, h)
                 } else Some (mark, buffer, h)
               }
             } else Some (en, buffer, h)
           }
         }
       }
     }
   }"

definition vbuffer_extract ::
    "vheap \<Rightarrow> vbuffer_sub \<Rightarrow> addr \<Rightarrow> (bool \<times> vbuffer_sub \<times> addr \<times> vheap) option" where
  "vbuffer_extract h data buffer = do {
     (c, buffer, h) \<leftarrow> vbuffer_extract_chunks h data buffer True False;
     (data, h) \<leftarrow> vbuffer_sub_clear h data;
     Some (c \<noteq> NULL, data, buffer, h)
   }"

definition vbuffer_select ::
    "vheap \<Rightarrow> vbuffer_sub \<Rightarrow> addr \<Rightarrow>
     (bool \<times> vbuffer_sub \<times> addr \<times> vbuffer_iterator option \<times> vheap) option" where
  "vbuffer_select h data buffer = do {
     (iter, buffer, h) \<leftarrow> vbuffer_extract_chunks h data buffer False True;
     if iter = NULL then Some (False, data, buffer, None, h)
     else do {
       let ref = vbuffer_iterator_init\<lparr>ichunk := iter, ioffset := 0\<rparr>;
       (data, h) \<leftarrow> vbuffer_sub_clear h data;
       Some (True, data, buffer, Some ref, h)
     }
   }"

definition vbuffer_erase :: "vheap \<Rightarrow> vbuffer_sub \<Rightarrow> (bool \<times> vheap) option" where
  "vbuffer_erase h data = do {
     (iter, buffer, h) \<leftarrow> vbuffer_extract_chunks h data vbuffer_init True False;
     if iter = NULL then Some (False, h)
     else do { (_, h) \<leftarrow> vbuffer_release h buffer; Some (True, h) }
   }"

definition vbuffer_replace ::
    "vheap \<Rightarrow> vbuffer_sub \<Rightarrow> addr \<Rightarrow> (bool \<times> vbuffer_sub \<times> addr \<times> vheap) option" where
  "vbuffer_replace h data buffer = do {
     (iter, erased, h) \<leftarrow> vbuffer_extract_chunks h data vbuffer_init True False;
     if iter = NULL then Some (False, data, buffer, h)
     else do {
       (_, h) \<leftarrow> vbuffer_release h erased;
       (new, h) \<leftarrow> vbuffer_sub_create h buffer 0 SIZE_ALL;
       h \<leftarrow> upd_chunk h iter (set_modified True);
       b \<leftarrow> vbuffer_chunk_begin h buffer;
       e \<leftarrow> vbuffer_chunk_end buffer;
       (_, h) \<leftarrow> with_links h (list2_insert_list (links h) iter b e);
       (buffer, h) \<leftarrow> vbuffer_clear h buffer;
       (bi, h) \<leftarrow> vbuffer_iterator_update h (sbegin data) (ichunk (sbegin new)) (ioffset (sbegin new));
       let data = data\<lparr>sbegin := bi\<rparr>;
       if use_size data then Some (True, data\<lparr>sunion := Sub_length (slength new)\<rparr>, buffer, h)
       else do {
         ei \<leftarrow> send data;
         (ei, h) \<leftarrow> vbuffer_iterator_update h ei iter 0;
         Some (True, data\<lparr>sunion := Sub_end ei\<rparr>, buffer, h)
       }
     }
   }"

section \<open>Flattening\<close>

definition vbuffer_sub_isflat :: "vheap \<Rightarrow> vbuffer_sub \<Rightarrow> (bool \<times> vheap) option" where
  "vbuffer_sub_isflat h data = do {
     (ok, h) \<leftarrow> vbuffer_sub_check h data;
     if \<not> ok then Some (False, h)
     else do {
       (iter, offset) \<leftarrow> vbuffer_iterator_fix h (sbegin data);
       if use_size data then do {
         x \<leftarrow> chunks h iter;
         Some (csize x \<le> to_u64 (offset + slength data), h)
       } else do {
         e \<leftarrow> send data;
         (enditer, endoffset) \<leftarrow> vbuffer_iterator_fix h e;
         if iter = enditer then Some (True, h)
         else if endoffset = 0 then do {
           nx \<leftarrow> vbuffer_chunk_next h iter;
           Some (nx = enditer, h)
         } else Some (False, h)
       }
     }
   }"

partial_function (option) compact_loop ::
    "vheap \<Rightarrow> vbuffer_sub \<Rightarrow> vbuffer_sub_mmap \<Rightarrow> addr \<Rightarrow> nat \<Rightarrow> bool \<Rightarrow>
     (vbuffer_sub \<times> nat \<times> bool \<times> vheap) option" where
  "compact_loop h data it prev sz has_ctl = do {
     (chunk, _, len, it, h) \<leftarrow> vbuffer_sub_iterate h data it;
     if chunk = NULL then Some (data, sz, has_ctl, h)
     else do {
       x \<leftarrow> chunks h chunk;
       let sz = to_u64 (sz + len);
       let has_ctl = (has_ctl \<or> f_ctl (cflags x));
       merge \<leftarrow> (if prev \<noteq> NULL then do {
                 p \<leftarrow> chunks h prev;
                 Some (cdata p = cdata x \<and> to_u32 (coffset p + csize p) = coffset x)
               } else Some False);
       if merge then do {
         p \<leftarrow> chunks h prev;
         (data, h) \<leftarrow> (if \<not> use_size data then do {
              e \<leftarrow> send data;
              if chunk = ichunk e then do {
                (e, h) \<leftarrow> vbuffer_iterator_update h e prev (to_u32 (csize p + ioffset e));
                Some (data\<lparr>sunion := Sub_end e\<rparr>, h)
              } else Some (data, h)
            } else Some (data, h));
         h \<leftarrow> upd_chunk h prev (\<lambda>p. set_writable (f_writable (cflags p) \<and> f_writable (cflags x))
                (set_modified (f_modified (cflags p) \<or> f_modified (cflags x))
                   (p\<lparr>csize := to_u32 (csize p + csize x)\<rparr>)));
         h \<leftarrow> vbuffer_chunk_clear h chunk;
         compact_loop h data it prev sz has_ctl
       } else compact_loop h data it chunk sz has_ctl
     }
   }"

text \<open>
  Whether the walk could be done, the updated range, the number of bytes walked over, and whether a
  control chunk was met.
\<close>

definition vbuffer_compact ::
    "vheap \<Rightarrow> vbuffer_sub \<Rightarrow> (bool \<times> vbuffer_sub \<times> nat \<times> bool \<times> vheap) option" where
  "vbuffer_compact h data = do {
     (ok, h) \<leftarrow> vbuffer_sub_check h data;
     if \<not> ok then Some (False, data, 0, False, h)
     else do {
       (data, sz, has_ctl, h) \<leftarrow> compact_loop h data vbuffer_mmap_init NULL 0 False;
       Some (True, data, sz, has_ctl, h)
     }
   }"

definition vbuffer_sub_compact :: "vheap \<Rightarrow> vbuffer_sub \<Rightarrow> (bool \<times> vbuffer_sub \<times> vheap) option" where
  "vbuffer_sub_compact h data = do {
     (ok, data, _, _, h) \<leftarrow> vbuffer_compact h data;
     Some (ok, data, h)
   }"

partial_function (option) flatten_loop ::
    "vheap \<Rightarrow> vbuffer_sub \<Rightarrow> vbuffer_sub_mmap \<Rightarrow> bptr \<Rightarrow> nat \<Rightarrow> vheap option" where
  "flatten_loop h data it dst sz = do {
     (chunk, offset, len, it, h) \<leftarrow> vbuffer_sub_iterate h data it;
     if chunk = NULL then Some h
     else do {
       x \<leftarrow> chunks h chunk;
       assert_that (\<not> f_ctl (cflags x));
       assert_that (sz \<ge> len);
       (ptr, h) \<leftarrow> vbuffer_chunk_get_data h chunk False;
       assert_that (ptr \<noteq> NULL_ptr);
       assert_that (offset \<le> csize x);
       bs \<leftarrow> load h (ptr_add ptr offset) len;
       h \<leftarrow> store h dst bs;
       flatten_loop h data it (ptr_add dst len) (sz - len)
     }
   }"

definition vbuffer_sub_flatten_copy ::
    "vheap \<Rightarrow> vbuffer_sub \<Rightarrow> nat \<Rightarrow> (bptr \<times> vbuffer_sub \<times> vheap) option" where
  "vbuffer_sub_flatten_copy h data sz = do {
     (ok, flat, h) \<leftarrow> vbuffer_create_new h vbuffer_init sz False;
     if \<not> ok then Some (NULL_ptr, data, h)
     else do {
       (fb, h) \<leftarrow> vbuffer_begin h flat (iterator_uninit h);
       x \<leftarrow> chunks h (ichunk fb);
       dst \<leftarrow> data_ops_get h (cdata x) True;
       assert_that (dst \<noteq> NULL_ptr);
       h \<leftarrow> flatten_loop h data vbuffer_mmap_init dst sz;
       (_, data, flat, h) \<leftarrow> vbuffer_replace h data flat;
       (_, h) \<leftarrow> vbuffer_release h flat;
       Some (dst, data, h)
     }
   }"

text \<open>The pointer, the size when it is written, and the updated range.\<close>

definition vbuffer_sub_flatten ::
    "vheap \<Rightarrow> vbuffer_sub \<Rightarrow> (bptr \<times> nat option \<times> vbuffer_sub \<times> vheap) option" where
  "vbuffer_sub_flatten h data = do {
     (ok, h) \<leftarrow> vbuffer_sub_check h data;
     if \<not> ok then Some (NULL_ptr, None, data, h)
     else do {
       (flat, h) \<leftarrow> vbuffer_sub_isflat h data;
       (res, data, h) \<leftarrow> (if \<not> flat then do {
            (ok, data, sz, has_ctl, h) \<leftarrow> vbuffer_compact h data;
            if \<not> ok \<or> has_ctl
            then Some (Some (NULL_ptr, None), data, raise_error h ''buffer cannot be flatten'')
            else do {
              (flat, h) \<leftarrow> vbuffer_sub_isflat h data;
              if \<not> flat then do {
                (dst, data, h) \<leftarrow> vbuffer_sub_flatten_copy h data sz;
                Some (Some (dst, Some sz), data, h)
              } else Some (None, data, h)
            }
          } else Some (None, data, h));
       case res of
         Some (dst, sz) \<Rightarrow> Some (dst, sz, data, h)
       | None \<Rightarrow> do {
           (iter, h) \<leftarrow> vbuffer_iterator_copy h (sbegin data);
           (flat, h) \<leftarrow> vbuffer_sub_isflat h data;
           assert_that flat;
           (ptr, sz, _, h) \<leftarrow> vbuffer_iterator_mmap h iter SIZE_ALL False;
           Some (ptr, sz, data, h)
         }
     }
   }"

section \<open>Cloning\<close>

datatype clone_mode = CLONE_COPY | CLONE_RW | CLONE_RO_ORIG | CLONE_RO_CLONE

partial_function (option) clone_loop ::
    "vheap \<Rightarrow> vbuffer_sub \<Rightarrow> clone_mode \<Rightarrow> addr \<Rightarrow> vbuffer_sub_mmap \<Rightarrow> nat \<Rightarrow> (nat \<times> vheap) option" where
  "clone_loop h data mode en it sz = do {
     (chunk, _, _, it, h) \<leftarrow> vbuffer_sub_iterate h data it;
     if chunk = NULL then Some (sz, h)
     else do {
       x \<leftarrow> chunks h chunk;
       if \<not> f_ctl (cflags x) then do {
         (clone, h) \<leftarrow> vbuffer_chunk_clone h chunk;
         (_, h) \<leftarrow> with_links h (list2_insert (links h) en clone);
         h \<leftarrow> (case mode of
                CLONE_COPY \<Rightarrow> Some h
              | CLONE_RO_CLONE \<Rightarrow> upd_chunk h clone (set_writable False)
              | CLONE_RO_ORIG \<Rightarrow> do {
                  h \<leftarrow> upd_chunk h chunk (set_writable False);
                  y \<leftarrow> chunks h clone;
                  upd_chunk h en (set_writable (f_writable (cflags y)))
                }
              | CLONE_RW \<Rightarrow> do {
                  y \<leftarrow> chunks h clone;
                  upd_chunk h en (set_writable (f_writable (cflags y)))
                });
         y \<leftarrow> chunks h clone;
         clone_loop h data mode en it (to_u64 (sz + csize y))
       } else clone_loop h data mode en it sz
     }
   }"

definition vbuffer_sub_clone ::
    "vheap \<Rightarrow> vbuffer_sub \<Rightarrow> addr \<Rightarrow> clone_mode \<Rightarrow> (bool \<times> vbuffer_sub \<times> addr \<times> vheap) option" where
  "vbuffer_sub_clone h data buffer mode = do {
     (ok, h) \<leftarrow> vbuffer_sub_check h data;
     if \<not> ok then Some (False, data, buffer, h)
     else do {
       (_, buffer, h) \<leftarrow> vbuffer_init_end h True;
       en \<leftarrow> vbuffer_chunk_end buffer;
       (sz, h) \<leftarrow> clone_loop h data mode en vbuffer_mmap_init 0;
       (data, h) \<leftarrow> (case mode of
            CLONE_COPY \<Rightarrow> do {
              h \<leftarrow> upd_chunk h en (set_writable True);
              (_, data, h) \<leftarrow> vbuffer_sub_flatten_copy h data sz;
              Some (data, h)
            }
          | CLONE_RO_CLONE \<Rightarrow> do {
              h \<leftarrow> upd_chunk h en (set_writable False);
              Some (data, h)
            }
          | _ \<Rightarrow> Some (data, h));
       Some (True, data, buffer, h)
     }
   }"

text \<open>The buffer (when one is given) is emptied, unless a clone of it is inserted.\<close>

definition vbuffer_restore ::
    "vheap \<Rightarrow> vbuffer_iterator \<Rightarrow> addr option \<Rightarrow> bool \<Rightarrow>
     (bool \<times> vbuffer_iterator \<times> addr option \<times> vheap) option" where
  "vbuffer_restore h position data clone = do {
     (ok, h) \<leftarrow> vbuffer_iterator_check h position;
     if \<not> ok then Some (False, position, data, h)
     else do {
       x \<leftarrow> chunks h (ichunk position);
       ctl \<leftarrow> is_ctl_select h (cdata x);
       if \<not> ctl then Some (False, position, data, raise_error h ''invalid restore iterator'')
       else do {
         (data, h) \<leftarrow> (case data of
              None \<Rightarrow> Some (None, h)
            | Some buf \<Rightarrow> do {
                (src, h) \<leftarrow> (if clone then do {
                     (b, h) \<leftarrow> vbuffer_begin h buf (iterator_uninit h);
                     (e, h) \<leftarrow> vbuffer_end h buf (iterator_uninit h);
                     (sub, h) \<leftarrow> vbuffer_sub_create_between_position h b e;
                     (_, _, cb, h) \<leftarrow> vbuffer_sub_clone h sub NULL CLONE_RO_ORIG;
                     Some (cb, h)
                   } else Some (buf, h));
                b \<leftarrow> vbuffer_chunk_begin h src;
                e \<leftarrow> vbuffer_chunk_end src;
                (_, h) \<leftarrow> with_links h (list2_insert_list (links h) (ichunk position) b e);
                (src, h) \<leftarrow> vbuffer_clear h src;
                Some (Some (if clone then buf else src), h)
              });
         (_, h) \<leftarrow> vbuffer_chunk_remove_ctl h (ichunk position);
         (position, h) \<leftarrow> vbuffer_iterator_clear h position;
         Some (True, position, data, h)
       }
     }
   }"

section \<open>Whole buffers\<close>

definition vbuffer_check_size :: "vheap \<Rightarrow> addr \<Rightarrow> nat \<Rightarrow> (bool \<times> nat option \<times> vheap) option" where
  "vbuffer_check_size h buf minsize = do {
     (sub, h) \<leftarrow> vbuffer_sub_create h buf 0 SIZE_ALL;
     vbuffer_sub_check_size h sub minsize
   }"

definition vbuffer_isflat :: "vheap \<Rightarrow> addr \<Rightarrow> (bool \<times> vheap) option" where
  "vbuffer_isflat h buf = do {
     (sub, h) \<leftarrow> vbuffer_sub_create h buf 0 SIZE_ALL;
     vbuffer_sub_isflat h sub
   }"

definition vbuffer_flatten :: "vheap \<Rightarrow> addr \<Rightarrow> (bptr \<times> nat option \<times> vheap) option" where
  "vbuffer_flatten h buf = do {
     (sub, h) \<leftarrow> vbuffer_sub_create h buf 0 SIZE_ALL;
     (ptr, sz, _, h) \<leftarrow> vbuffer_sub_flatten h sub;
     Some (ptr, sz, h)
   }"

text \<open>\<open>copy\<close> is passed where a \<open>clone_mode\<close> is expected: false is 0, true is 1.\<close>

definition mode_of_bool :: "bool \<Rightarrow> clone_mode" where
  "mode_of_bool copy = (if copy then CLONE_RW else CLONE_COPY)"

definition vbuffer_clone :: "vheap \<Rightarrow> addr \<Rightarrow> addr \<Rightarrow> bool \<Rightarrow> (bool \<times> addr \<times> vheap) option" where
  "vbuffer_clone h data buffer copy = do {
     (sub, h) \<leftarrow> vbuffer_sub_create h data 0 SIZE_ALL;
     (r, _, buffer, h) \<leftarrow> vbuffer_sub_clone h sub buffer (mode_of_bool copy);
     Some (r, buffer, h)
   }"

end
