(* ===== verification/VBuffer_Number.thy ===== *)
theory VBuffer_Number
  imports VBuffer_Edit
begin

unbundle bit_operations_syntax

text \<open>
  Numbers, bit fields and strings in a range of a buffer: the last part of \<open>lib/haka/vbuffer.c\<close>.

  The model is that of a little-endian host, where \<open>SWAP_TO_BE\<close> and \<open>SWAP_FROM_BE\<close> swap the bytes and
  \<open>SWAP_TO_LE\<close> and \<open>SWAP_FROM_LE\<close> do nothing.  The byte swaps have an unsigned result, and the type of
  a conditional expression is the common type of its branches: a number of four bytes is unsigned in both
  byte orders, a number of two bytes is unsigned in big-endian order only.  A shift by a negative amount
  or by the width of the type or more is undefined, and the model returns \<open>None\<close> there.
\<close>

section \<open>Integers in memory\<close>

text \<open>The byte swap of an unsigned integer of \<open>n\<close> bytes.\<close>

definition bswap :: "nat \<Rightarrow> nat \<Rightarrow> nat" where
  "bswap n x = le_nat (rev (le_bytes n x))"

text \<open>The conversions to a signed and to an unsigned integer of \<open>n\<close> bytes.\<close>

definition to_signed :: "nat \<Rightarrow> nat \<Rightarrow> int" where
  "to_signed n x = (if x < 2 ^ (8 * n - 1) then int x else int x - 2 ^ (8 * n))"

definition to_unsigned :: "nat \<Rightarrow> int \<Rightarrow> nat" where
  "to_unsigned n x = nat (x mod 2 ^ (8 * n))"

text \<open>Reading and writing a number; \<open>None\<close> is the default case of the switch.\<close>

definition read_number :: "u8 list \<Rightarrow> bool \<Rightarrow> int option" where
  "read_number bs bigendian =
     (let n = length bs; x = le_nat bs; y = (if bigendian then bswap n x else x) in
      if n = 1 then Some (int x)
      else if n = 2 then Some (if bigendian then int y else to_signed 2 y)
      else if n = 4 then Some (int y)
      else if n = 8 then Some (to_signed 8 y)
      else None)"

definition write_number :: "nat \<Rightarrow> bool \<Rightarrow> int \<Rightarrow> u8 list option" where
  "write_number n bigendian num =
     (let x = to_unsigned n num in
      if n = 1 then Some (le_bytes 1 x)
      else if n = 2 \<or> n = 4 \<or> n = 8 then Some (le_bytes n (if bigendian then bswap n x else x))
      else None)"

section \<open>Numbers\<close>

definition vbuffer_asnumber :: "vheap \<Rightarrow> vbuffer_sub \<Rightarrow> bool \<Rightarrow> (int \<times> vheap) option" where
  "vbuffer_asnumber h data bigendian = do {
     (length, h) \<leftarrow> vbuffer_sub_size h data;
     if length = SIZE_ALL then Some (0, h)
     else if length > 8 then Some (0, raise_error h ''asnumber: unsupported size'')
     else do {
       (flat, h) \<leftarrow> vbuffer_sub_isflat h data;
       (bs, h) \<leftarrow> (if flat then do {
           (ptr, mmaplen, _, _, h) \<leftarrow> vbuffer_mmap h data False vbuffer_mmap_init;
           if ptr = NULL_ptr then Some (None, h)
           else do {
             assert_that (mmaplen = length);
             bs \<leftarrow> load h ptr length;
             Some (Some bs, h)
           }
         } else do {
           (bs, h) \<leftarrow> vbuffer_sub_read h data length;
           assert_that (List.length bs = length);
           Some (Some bs, h)
         });
       Some (case bs of
           None \<Rightarrow> (0, h)
         | Some bs \<Rightarrow> (case read_number bs bigendian of
               Some n \<Rightarrow> (n, h)
             | None \<Rightarrow> (0, raise_error h ''asnumber: unsupported size'')))
     }
   }"

text \<open>
  Whether a number fits in some bits: \<open>-num\<close> overflows for the smallest number, and \<open>1ULL << bits\<close> is
  undefined for 64 bits.
\<close>

definition number_fits :: "nat \<Rightarrow> int \<Rightarrow> bool option" where
  "number_fits bits num =
     (if num = - (2 ^ 63) \<or> bits \<ge> 64 then None
      else Some (\<bar>num\<bar> mod 2 ^ bits = \<bar>num\<bar>))"

definition vbuffer_setnumber :: "vheap \<Rightarrow> vbuffer_sub \<Rightarrow> bool \<Rightarrow> int \<Rightarrow> (bool \<times> vheap) option" where
  "vbuffer_setnumber h data bigendian num = do {
     (length, h) \<leftarrow> vbuffer_sub_size h data;
     if length = SIZE_ALL then Some (False, h)
     else if length > 8 then Some (False, raise_error h ''setnumber: unsupported size'')
     else do {
       fits \<leftarrow> number_fits (length * 8) num;
       if \<not> fits then Some (False, raise_error h ''setnumber: invalid number, value does not fit'')
       else do {
         (flat, h) \<leftarrow> vbuffer_sub_isflat h data;
         if flat then do {
           (ptr, mmaplen, _, _, h) \<leftarrow> vbuffer_mmap h data True vbuffer_mmap_init;
           if ptr = NULL_ptr then Some (False, h)
           else (case write_number length bigendian num of
               None \<Rightarrow> Some (False, raise_error h ''setnumber: unsupported size'')
             | Some bs \<Rightarrow> do {
                 h \<leftarrow> store h ptr bs;
                 Some (True, h)
               })
         } else (case write_number length bigendian num of
             None \<Rightarrow> Some (False, raise_error h ''setnumber: unsupported size'')
           | Some bs \<Rightarrow> do {
               (_, h) \<leftarrow> vbuffer_sub_write h data bs;
               Some (True, h)
             })
       }
     }
   }"

section \<open>Bit fields\<close>

text \<open>The shifts are on \<open>int\<close> (32 bits).\<close>

definition getbits :: "u8 \<Rightarrow> int \<Rightarrow> int \<Rightarrow> bool \<Rightarrow> u8 option" where
  "getbits x off sz bigendian =
     (let off = (if bigendian then 8 - off - sz else off) in
      if off < 0 \<or> off \<ge> 32 \<or> sz < 0 \<or> sz \<ge> 31 then None
      else Some (drop_bit (nat off) x AND mask (nat sz)))"

definition setbits :: "u8 \<Rightarrow> int \<Rightarrow> int \<Rightarrow> u8 \<Rightarrow> bool \<Rightarrow> u8 option" where
  "setbits x off sz v bigendian =
     (let off = (if bigendian then 8 - off - sz else off) in
      if off < 0 \<or> off \<ge> 32 \<or> sz < 0 \<or> sz \<ge> 31 \<or> off + sz \<ge> 32 then None
      else Some ((x AND NOT (push_bit (nat off) (mask (nat sz)))) OR push_bit (nat off) (v AND mask (nat sz))))"

text \<open>
  The number of bits taken from one byte: the comparison is of unsigned 64-bit values, so that the
  difference \<open>8-off\<close> wraps around when \<open>off\<close> is more than 8.
\<close>

definition bits_size :: "nat \<Rightarrow> int \<Rightarrow> int" where
  "bits_size bits off = (if int bits > (8 - off) mod 2 ^ 64 then 8 - off else int bits)"

text \<open>
  The loops over the bytes; the result is a signed 64-bit integer.  In little-endian order the bits of
  a byte are shifted as an \<open>int\<close>.
\<close>

fun asbits_loop :: "u8 list \<Rightarrow> int \<Rightarrow> nat \<Rightarrow> nat \<Rightarrow> bool \<Rightarrow> int \<Rightarrow> int option" where
  "asbits_loop [] off bits shiftbits bigendian ret = Some ret"
| "asbits_loop (b # bs) off bits shiftbits bigendian ret = do {
     let sz = bits_size bits off;
     v \<leftarrow> getbits b off sz bigendian;
     ret \<leftarrow> (if bigendian
         then (if 0 \<le> ret \<and> ret * 2 ^ nat sz < 2 ^ 63 then Some (ret * 2 ^ nat sz OR int (unat v)) else None)
         else (if int (unat v) * 2 ^ shiftbits < 2 ^ 31 \<and> shiftbits < 32
               then Some (ret OR (int (unat v) * 2 ^ shiftbits)) else None));
     asbits_loop bs 0 (bits - nat sz) (if bigendian then shiftbits else shiftbits + nat sz) bigendian ret
   }"

definition vbuffer_asbits ::
    "vheap \<Rightarrow> vbuffer_sub \<Rightarrow> nat \<Rightarrow> nat \<Rightarrow> bool \<Rightarrow> (int \<times> vheap) option" where
  "vbuffer_asbits h data offset bits bigendian = do {
     (length, h) \<leftarrow> vbuffer_sub_size h data;
     let first = offset div 8;
     let stop = to_u64 (offset + bits + 7) div 8;
     if length = SIZE_ALL then Some (0, h)
     else if first \<ge> length then Some (-1, raise_error h ''asbits: invalid bit offset'')
     else if stop > length then Some (-1, raise_error h ''asbits: invalid bit size'')
     else if stop > 8 then Some (-1, raise_error h ''asbits: unsupported size'')
     else do {
       (temp, h) \<leftarrow> vbuffer_sub_read h data stop;
       assert_that (List.length temp = stop);
       r \<leftarrow> asbits_loop (drop first temp) (int offset) bits 0 bigendian 0;
       Some (r, h)
     }
   }"

fun setbits_loop :: "u8 list \<Rightarrow> int \<Rightarrow> nat \<Rightarrow> bool \<Rightarrow> int \<Rightarrow> u8 list option" where
  "setbits_loop [] off bits bigendian num = Some []"
| "setbits_loop (b # bs) off bits bigendian num = do {
     let sz = bits_size bits off;
     let bits = nat (int bits - sz);
     if bigendian then do {
       assert_that (bits < 64);
       b \<leftarrow> setbits b off sz (word_of_int (num div 2 ^ bits)) True;
       bs \<leftarrow> setbits_loop bs 0 bits bigendian num;
       Some (b # bs)
     } else do {
       b \<leftarrow> setbits b off sz (word_of_int num) False;
       bs \<leftarrow> setbits_loop bs 0 bits bigendian (num div 2 ^ nat sz);
       Some (b # bs)
     }
   }"

text \<open>The result of some errors is \<open>-1\<close>, which is true.\<close>

definition vbuffer_setbits ::
    "vheap \<Rightarrow> vbuffer_sub \<Rightarrow> nat \<Rightarrow> nat \<Rightarrow> bool \<Rightarrow> int \<Rightarrow> (bool \<times> vheap) option" where
  "vbuffer_setbits h data offset bits bigendian num =
     (if bits > 64 then Some (False, raise_error h ''setbits: unsupported size'')
      else do {
        fits \<leftarrow> number_fits bits num;
        if \<not> fits then Some (False, raise_error h ''setbits: invalid number, value does not fit'')
        else do {
          (length, h) \<leftarrow> vbuffer_sub_size h data;
          let first = offset div 8;
          let stop = to_u64 (offset + bits + 7) div 8;
          if length = SIZE_ALL then Some (False, h)
          else if first \<ge> length then Some (True, raise_error h ''setbits: invalid bit offset'')
          else if stop > length then Some (True, raise_error h ''setbits: invalid bit size'')
          else if stop > 8 then Some (False, raise_error h ''setbits: unsupported size'')
          else do {
            (temp, h) \<leftarrow> vbuffer_sub_read h data stop;
            assert_that (List.length temp = stop);
            bs \<leftarrow> setbits_loop (drop first temp) (int offset) bits bigendian num;
            (_, h) \<leftarrow> vbuffer_sub_write h data (take first temp @ bs);
            Some (True, h)
          }
        }
      })"

section \<open>Strings and bytes\<close>

text \<open>
  The destination of \<open>vbuffer_asstring\<close> is a buffer of \<open>len\<close> bytes; the result is its contents up to the
  terminating zero, or \<open>None\<close> on an error.  An empty buffer makes the code write before its beginning.
\<close>

definition vbuffer_asstring :: "vheap \<Rightarrow> vbuffer_sub \<Rightarrow> nat \<Rightarrow> (u8 list option \<times> vheap) option" where
  "vbuffer_asstring h data len = do {
     (str, h) \<leftarrow> vbuffer_sub_read h data len;
     let (e, h) = has_error h;
     if e then Some (None, h)
     else if length str = len then do {
       assert_that (len > 0);
       Some (Some (butlast str), h)
     } else Some (Some str, h)
   }"

definition vbuffer_setfixedstring :: "vheap \<Rightarrow> vbuffer_sub \<Rightarrow> u8 list \<Rightarrow> (nat \<times> vheap) option" where
  "vbuffer_setfixedstring h data str = vbuffer_sub_write h data str"

definition vbuffer_setstring :: "vheap \<Rightarrow> vbuffer_sub \<Rightarrow> u8 list \<Rightarrow> (bool \<times> vbuffer_sub \<times> vheap) option" where
  "vbuffer_setstring h data str = do {
     (ok, newbuf, h) \<leftarrow> vbuffer_create_from h vbuffer_init str;
     if \<not> ok then Some (False, data, h)
     else do {
       (ret, data, newbuf, h) \<leftarrow> vbuffer_replace h data newbuf;
       (_, h) \<leftarrow> vbuffer_release h newbuf;
       Some (ret, data, h)
     }
   }"

definition vbuffer_getbyte :: "vheap \<Rightarrow> vbuffer_sub \<Rightarrow> nat \<Rightarrow> (u8 \<times> vheap) option" where
  "vbuffer_getbyte h data offset = do {
     (iter, h) \<leftarrow> vbuffer_iterator_copy h (sbegin data);
     (_, iter, h) \<leftarrow> vbuffer_iterator_advance h iter offset;
     (b, _, h) \<leftarrow> vbuffer_iterator_getbyte h iter;
     Some (b, h)
   }"

definition vbuffer_setbyte :: "vheap \<Rightarrow> vbuffer_sub \<Rightarrow> nat \<Rightarrow> u8 \<Rightarrow> (bool \<times> vheap) option" where
  "vbuffer_setbyte h data offset byte = do {
     (iter, h) \<leftarrow> vbuffer_iterator_copy h (sbegin data);
     (_, iter, h) \<leftarrow> vbuffer_iterator_advance h iter offset;
     (ok, _, h) \<leftarrow> vbuffer_iterator_setbyte h iter byte;
     Some (ok, h)
   }"

section \<open>Bytes and integers\<close>

lemma bswap_bytes: "bswap (length bs) (le_nat bs) = le_nat (rev bs)"
  by (simp add: bswap_def le_bytes_le_nat)

lemma bswap_bswap: "bswap n (bswap n x) = x mod 256 ^ n"
proof -
  have "bswap n (bswap n x) = bswap (length (rev (le_bytes n x))) (le_nat (rev (le_bytes n x)))"
    by (simp add: bswap_def)
  then show ?thesis unfolding bswap_bytes by (simp add: le_nat_le_bytes)
qed

text \<open>The number that is read back after a number was written to \<open>n\<close> bytes.\<close>

definition number_as :: "nat \<Rightarrow> bool \<Rightarrow> int \<Rightarrow> int" where
  "number_as n bigendian num =
     (if n = 2 \<and> \<not> bigendian then to_signed 2 (to_unsigned 2 num) else int (to_unsigned n num))"

lemma write_read_number:
  assumes "n = 1 \<or> n = 2 \<or> n = 4"
  obtains bs where "write_number n bigendian num = Some bs" "length bs = n"
    "read_number bs bigendian = Some (number_as n bigendian num)"
proof -
  let ?x = "to_unsigned n num"
  let ?y = "if bigendian \<and> n \<noteq> 1 then bswap n ?x else ?x"
  have x: "?x < 256 ^ n"
  proof -
    have "(256 :: int) ^ n = 2 ^ (8 * n)" by (simp add: power_mult)
    then show ?thesis by (simp add: to_unsigned_def nat_less_iff)
  qed
  then have "le_nat (le_bytes n ?x) = ?x" by (simp add: le_nat_le_bytes)
  moreover have "bswap n (le_nat (le_bytes n (bswap n ?x))) = ?x"
    using bswap_bswap [of n ?x] x bswap_bytes [of "le_bytes n ?x"]
    by (simp add: le_nat_le_bytes) (metis bswap_def le_nat_le_bytes length_le_bytes length_rev le_bytes_le_nat)
  ultimately have "read_number (le_bytes n ?y) bigendian = Some (number_as n bigendian num)"
    using assms by (auto simp: read_number_def number_as_def Let_def simp del: le_bytes.simps le_nat.simps One_nat_def)
  moreover have "write_number n bigendian num = Some (le_bytes n ?y)"
    using assms by (auto simp: write_number_def Let_def simp del: le_bytes.simps One_nat_def)
  ultimately show ?thesis using that by simp
qed

lemma number_as_id:
  assumes "0 \<le> num" "num < 2 ^ (8 * n)" "n = 2 \<and> \<not> bigendian \<longrightarrow> num < 2 ^ 15"
  shows "number_as n bigendian num = num"
  using assms by (auto simp: number_as_def to_unsigned_def to_signed_def)

section \<open>The size of a range\<close>

lemma available_end_ok:
  "vbuf h b (xs @ ys) \<Longrightarrow> n \<le> csz h (hd (ys @ [b])) \<Longrightarrow> ec \<in> set (ys @ [b]) \<Longrightarrow>
   fixed h b (xs @ ys) ec en (szs h xs + n + r) \<Longrightarrow> cur < minsize \<Longrightarrow> cur + szs h ys < 2 ^ 64 \<Longrightarrow>
   available_loop h (hd (ys @ [b])) n ec en minsize cur =
     Some (minsize \<le> cur + r, Some (min minsize (cur + r)), h)"
proof (induction ys arbitrary: xs n r cur)
  case Nil
  obtain e where "chunks h b = Some e" "f_end (cflags e)" using vbuf_end [OF Nil.prems(1)] by blast
  moreover have "r = 0" using Nil.prems(4) iter_at_le [of h b xs ec en "szs h xs + n + r"] by (simp add: fixed_def)
  ultimately show ?case using Nil.prems(5) by (subst available_loop.simps) simp
next
  case (Cons y ys)
  obtain x where x: "chunks h y = Some x" "\<not> f_end (cflags x)" "csz h y = csize x"
    using vbuf_chunk [OF Cons.prems(1)] by blast
  have dis: "distinct ((xs @ y # ys) @ [b])" using vbufD(4,5) [OF Cons.prems(1)] by auto
  have n: "n \<le> csize x" using Cons.prems(2) x(3) by simp
  have y0: "y \<noteq> NULL" using vbufD(3) [OF Cons.prems(1)] by auto
  have at: "iter_at h b (xs @ y # ys) ec en (szs h xs + n + r)" "en \<le> csz h ec"
    using Cons.prems(4) by (simp_all add: fixed_def)
  show ?case
  proof (cases "ec = y")
    case True
    have "szs h xs + n + r = szs h xs + en"
      by (rule iter_at_unique [OF dis at(1) [unfolded True], of xs "ys @ [b]"]) simp
    then have "en = n + r" by simp
    moreover have "cur + r < 2 ^ 64" using calculation at(2) True Cons.prems(6) by simp
    ultimately show ?thesis using True x y0 Cons.prems(5)
      by (subst available_loop.simps) (auto simp: Let_def min_def)
  next
    case False
    then obtain u v where uv: "ys @ [b] = u @ ec # v" using Cons.prems(3) by (auto dest: split_list)
    have "szs h xs + n + r = szs h (xs @ y # u) + en"
      by (rule iter_at_unique [OF dis at(1), of _ v]) (use uv in simp)
    then have r: "csize x - n \<le> r" using x(3) n by simp
    let ?cur = "cur + (csize x - n)"
    have lt: "?cur < 2 ^ 64" "?cur + szs h ys < 2 ^ 64" using Cons.prems(6) x(3) by simp_all
    show ?thesis
    proof (cases "minsize \<le> ?cur")
      case True
      then show ?thesis using x False n lt r by (subst available_loop.simps) (auto simp: Let_def min_def)
    next
      case less: False
      have v: "vbuf h b ((xs @ [y]) @ ys)" using Cons.prems(1) by simp
      have "szs h (xs @ [y]) + 0 + (r - (csize x - n)) = szs h xs + n + r" using r n x(3) by simp
      then have f: "fixed h b ((xs @ [y]) @ ys) ec en (szs h (xs @ [y]) + 0 + (r - (csize x - n)))"
        using Cons.prems(4) by (metis append.assoc append_Cons append_Nil)
      have "ec \<in> set (ys @ [b])" using Cons.prems(3) False by simp
      from Cons.IH [OF v _ this f _ lt(2), of] less
      have "available_loop h (hd (ys @ [b])) 0 ec en minsize ?cur =
          Some (minsize \<le> cur + r, Some (min minsize (cur + r)), h)" using r by simp
      then show ?thesis using x False n lt less vbuf_next [OF Cons.prems(1)]
        by (subst available_loop.simps) (simp add: Let_def)
    qed
  qed
qed

lemma range_end:
  assumes "vbuf h b cs" "range_at h b cs data p q" "\<not> use_size data"
  obtains e xs ys n ec en where "sunion data = Sub_end e" "itr h b cs e q"
    "vbuffer_iterator_fix h (sbegin data) = Some (hd (ys @ [b]), n)" "vbuffer_iterator_fix h e = Some (ec, en)"
    "cs = xs @ ys" "p = szs h xs + n" "n \<le> csz h (hd (ys @ [b]))" "ec \<in> set (ys @ [b])"
    "fixed h b cs ec en (szs h xs + n + (q - p))"
    "walk h b cs data vbuffer_mmap_init ys n (q - p)"
proof -
  have b: "itr h b cs (sbegin data) p" by (rule range_atD(1) [OF assms(2)])
  obtain ys n where w: "walk h b cs data (vbuffer_mmap_init\<lparr>mmeter := 0\<rparr>) ys n (q - p)"
    "\<exists>xs. cs = xs @ ys \<and> p = szs h xs + n"
    using assms(1,2) by (rule walk_start)
  obtain xs where xs: "cs = xs @ ys" "p = szs h xs + n" using w(2) by blast
  have w': "walk h b cs data vbuffer_mmap_init ys n (q - p)" using w(1) by simp
  obtain e where e: "sunion data = Sub_end e" "itr h b cs e q" using assms(2,3) by (auto simp: range_at_def)
  have md: "mdata vbuffer_mmap_init = NULL" by (simp add: vbuffer_mmap_init_def)
  obtain xs' ec en where f: "cs = xs' @ ys" "n \<le> csz h (hd (ys @ [b]))"
    "vbuffer_iterator_fix h (sbegin data) = Some (hd (ys @ [b]), n)"
    "vbuffer_iterator_fix h e = Some (ec, en)" "ec \<in> set (ys @ [b])" "fixed h b cs ec en (szs h xs' + n + (q - p))"
    using w' assms(3) e(1) unfolding walk_def by (auto simp: md split: if_splits)
  have "xs' = xs" using f(1) xs(1) by simp
  then show ?thesis using that [OF e f(3,4) xs f(2,5) _ w'] f(6) by simp
qed

lemma sub_size_ok:
  assumes ok: "heap_ok h" and v: "vbuf h b cs" and r: "range_at h b cs data p q" "\<not> use_size data"
    and sz: "szs h cs < SIZE_ALL"
  shows "vbuffer_sub_size h data = Some (q - p, h)"
proof -
  obtain e xs ys n ec en where e: "sunion data = Sub_end e" "itr h b cs e q"
    "vbuffer_iterator_fix h (sbegin data) = Some (hd (ys @ [b]), n)" "vbuffer_iterator_fix h e = Some (ec, en)"
    "cs = xs @ ys" "p = szs h xs + n" "n \<le> csz h (hd (ys @ [b]))" "ec \<in> set (ys @ [b])"
    "fixed h b cs ec en (szs h xs + n + (q - p))"
    using v r by (rule range_end)
  have "available_loop h (hd (ys @ [b])) n ec en SIZE_ALL 0 =
      Some (SIZE_ALL \<le> 0 + (q - p), Some (min SIZE_ALL (0 + (q - p))), h)"
    by (rule available_end_ok [of h b xs]) (use v e sz in \<open>auto simp: SIZE_ALL_def\<close>)
  moreover have "q - p < SIZE_ALL" using range_atD(3) [OF r(1)] sz by simp
  ultimately show ?thesis
    using sub_check_ok [OF ok v r(1)] r(2) e(1,3,4) iterator_check_ok [OF ok v e(2)]
      iterator_check_ok [OF ok v range_atD(1) [OF r(1)]]
    by (simp add: vbuffer_sub_size_def vbuffer_sub_check_size_def send_def
        vbuffer_iterator_check_available_end_def SIZE_ALL_def)
qed

section \<open>Flat ranges\<close>

text \<open>
  A range that is flat lies in one chunk: its mapping is a single piece.
\<close>

lemma isflat_total:
  assumes ok: "heap_ok h" and v: "vbuf h b cs" and r: "range_at h b cs data p q" "\<not> use_size data"
  obtains flat where "vbuffer_sub_isflat h data = Some (flat, h)"
proof -
  obtain e xs ys n ec en where e: "sunion data = Sub_end e"
    "vbuffer_iterator_fix h (sbegin data) = Some (hd (ys @ [b]), n)" "vbuffer_iterator_fix h e = Some (ec, en)"
    "cs = xs @ ys"
    using v r by (rule range_end)
  obtain nx where "vbuffer_chunk_next h (hd (ys @ [b])) = Some nx"
  proof (cases ys)
    case Nil
    then show ?thesis using that vbuf_next_end [OF v] by simp
  next
    case (Cons y zs)
    then show ?thesis using that vbuf_next [of h b xs y zs] v e(4) by simp
  qed
  then show ?thesis using that r(2) e(1-3) sub_check_ok [OF ok v r(1)]
    by (cases "hd (ys @ [b]) = ec"; cases "en = 0") (auto simp: vbuffer_sub_isflat_def send_def)
qed

lemma flat_piece:
  assumes ok: "heap_ok h" and v: "vbuf h b cs" and r: "range_at h b cs data p q" "\<not> use_size data" "p < q"
    and flat: "vbuffer_sub_isflat h data = Some (True, h)" and wr: "w \<longrightarrow> writable_all h cs"
  obtains zs y ws x it itp m where "cs = zs @ y # ws" "chunks h y = Some x" "chunk_wf h x" "\<not> f_ctl (cflags x)"
    "vbuffer_mmap h data w vbuffer_mmap_init = Some ((cdata x, coffset x + m), q - p, it, itp, touch w y x h)"
    "cdata x \<noteq> NULL" "p = szs h zs + m" "m + (q - p) \<le> csize x"
proof -
  obtain e xs ys n ec en where e: "sunion data = Sub_end e" "itr h b cs e q"
    "vbuffer_iterator_fix h (sbegin data) = Some (hd (ys @ [b]), n)" "vbuffer_iterator_fix h e = Some (ec, en)"
    "cs = xs @ ys" "p = szs h xs + n" "n \<le> csz h (hd (ys @ [b]))" "ec \<in> set (ys @ [b])"
    "fixed h b cs ec en (szs h xs + n + (q - p))" "walk h b cs data vbuffer_mmap_init ys n (q - p)"
    using v r(1,2) by (rule range_end)
  have at: "iter_at h b cs ec en (szs h xs + n + (q - p))" "en \<le> csz h ec" using e(9) by (simp_all add: fixed_def)
  have dis: "distinct (cs @ [b])" using vbufD(4,5) [OF v] by auto
  obtain y ys' where ys: "ys = y # ys'"
  proof (cases ys)
    case Nil
    then show ?thesis using at(1) e(5) r(3) iter_at_le [OF at(1)] by simp
  qed
  have nx: "vbuffer_chunk_next h y = Some (hd (ys' @ [b]))" using vbuf_next [of h b xs y ys'] v e(5) ys by simp
  have len: "n + (q - p) \<le> csz h y"
  proof (cases "ec = y")
    case True
    have "szs h xs + n + (q - p) = szs h xs + en"
      by (rule iter_at_unique [OF dis at(1), of _ "ys' @ [b]"]) (use True e(5) ys in simp)
    then show ?thesis using at(2) True by simp
  next
    case False
    then have "en = 0" "ec = hd (ys' @ [b])"
      using flat r(2) e(1,3,4) ys nx sub_check_ok [OF ok v r(1)]
      by (auto simp: vbuffer_sub_isflat_def send_def split: if_splits)
    moreover have "ys' @ [b] = ec # tl (ys' @ [b])" using calculation(2) by (cases ys') auto
    ultimately have "szs h xs + n + (q - p) = szs h (xs @ [y]) + 0"
      by (intro iter_at_unique [OF dis at(1) [unfolded \<open>en = 0\<close>], of _ "tl (ys' @ [b])"]) (use e(5) ys in simp)
    then show ?thesis by simp
  qed
  have "w \<longrightarrow> writable_all h ys" using wr writable_all_sub [of h cs ys] e(5) by auto
  moreover have "set ys \<subseteq> set cs" using e(5) by auto
  ultimately obtain us z zs x it itp m k where z: "ys = us @ z # zs" "chunks h z = Some x" "chunk_wf h x"
    "\<not> f_ctl (cflags x)" "vbuffer_mmap h data w vbuffer_mmap_init = Some ((cdata x, coffset x + m), k, it, itp, touch w z x h)"
    "cdata x \<noteq> NULL" "szs h us + m = n" "0 < k" "k = min (q - p) (csize x - m)"
    using vbuffer_mmap_ok [OF ok v e(10), of w] r(3) by auto
  have "us = []"
  proof (rule ccontr)
    assume "us \<noteq> []"
    then obtain us' where "us = y # us'" using z(1) ys by (cases us) auto
    then show False using z(7) len r(3) by simp
  qed
  then have "z = y" "m = n" using z(1,7) ys by simp_all
  moreover have "csz h y = csize x" using z(2) calculation by (simp add: csz_def)
  ultimately show ?thesis
    using that [of xs y ys' x m it itp] e(5,6) ys z(2-6,9) len by simp
qed

lemma slice_content:
  assumes "vbuf h b (zs @ y # ws)" "m + k \<le> csz h y"
  shows "take k (drop (szs h zs + m) (content h (zs @ y # ws))) = take k (drop m (chunk_bytes h y))"
proof -
  have "length (content h zs) = szs h zs" by (rule length_content [OF assms(1)]) auto
  moreover have "length (content h [y]) = szs h [y]" by (rule length_content [OF assms(1)]) simp
  ultimately show ?thesis using assms(2) by simp
qed

section \<open>Reading and writing a number\<close>

text \<open>
  Both ways of reading a number, from the mapping of a flat range and through a temporary copy, give
  the number of the bytes of the range; both ways of writing it replace these bytes.
\<close>

lemma asnumber_ok:
  assumes ok: "heap_ok h" and v: "vbuf h b cs" and r: "range_at h b cs data p q" "\<not> use_size data" "p < q" "q - p \<le> 8"
    and sz: "szs h cs < SIZE_ALL"
  shows "vbuffer_asnumber h data bigendian =
    Some (case read_number (take (q - p) (drop p (content h cs))) bigendian of
        Some n \<Rightarrow> (n, h) | None \<Rightarrow> (0, raise_error h ''asnumber: unsupported size''))"
proof -
  obtain flat where flat: "vbuffer_sub_isflat h data = Some (flat, h)" using ok v r(1,2) by (rule isflat_total)
  have l: "q - p \<noteq> SIZE_ALL" "\<not> q - p > 8" using r(4) by (simp_all add: SIZE_ALL_def)
  note size = sub_size_ok [OF ok v r(1,2) sz]
  show ?thesis
  proof (cases flat)
    case True
    have f: "vbuffer_sub_isflat h data = Some (True, h)" using flat True by simp
    have w: "False \<longrightarrow> writable_all h cs" by simp
    obtain zs y ws x it itp m where y: "cs = zs @ y # ws" "chunks h y = Some x" "chunk_wf h x" "\<not> f_ctl (cflags x)"
      "vbuffer_mmap h data False vbuffer_mmap_init = Some ((cdata x, coffset x + m), q - p, it, itp, touch False y x h)"
      "cdata x \<noteq> NULL" "p = szs h zs + m" "m + (q - p) \<le> csize x"
      using ok v r(1-3) f w by (rule flat_piece)
    have "load h (cdata x, coffset x + m) (q - p) = Some (take (q - p) (drop p (content h cs)))"
      using load_chunk [OF y(2-4,8)] slice_content [of h b zs y ws m "q - p"] v y by (simp add: csz_def)
    then show ?thesis using size l f y(5,6) by (simp add: vbuffer_asnumber_def)
  next
    case False
    moreover have "q - p \<le> length (content h cs) - p" using range_atD(3) [OF r(1)] length_content_all [OF v] by simp
    ultimately show ?thesis using size l flat sub_read_ok [OF ok v r(1), of "q - p"]
      by (simp add: vbuffer_asnumber_def)
  qed
qed

lemma setnumber_ok:
  assumes ok: "heap_ok h" and v: "vbuf h b cs" and r: "range_at h b cs data p q" "\<not> use_size data"
    and sz: "szs h cs < SIZE_ALL" and wr: "writable_all h cs" and dj: "disjoint_slices h cs"
    and n: "q - p = 1 \<or> q - p = 2 \<or> q - p = 4" and num: "\<bar>num\<bar> < 2 ^ (8 * (q - p))"
  obtains h' bs where "vbuffer_setnumber h data bigendian num = Some (True, h')" "rewritten (set cs) h h'"
    "length bs = q - p" "read_number bs bigendian = Some (number_as (q - p) bigendian num)"
    "content h' cs = take p (content h cs) @ bs @ drop q (content h cs)"
proof -
  obtain bs where bs: "write_number (q - p) bigendian num = Some bs" "length bs = q - p"
    "read_number bs bigendian = Some (number_as (q - p) bigendian num)"
    using n by (rule write_read_number)
  obtain flat where flat: "vbuffer_sub_isflat h data = Some (flat, h)" using ok v r by (rule isflat_total)
  have l: "q - p \<noteq> SIZE_ALL" "\<not> q - p > 8" "p < q" using n by (auto simp: SIZE_ALL_def)
  have "8 * (q - p) \<le> 32" using n by auto
  moreover have "num \<noteq> - (2 ^ 63)"
  proof
    assume "num = - (2 ^ 63)"
    moreover have "(2 :: int) ^ (8 * (q - p)) \<le> 2 ^ 32" using \<open>8 * (q - p) \<le> 32\<close> by (intro power_increasing) auto
    ultimately show False using num by simp
  qed
  ultimately have fits: "number_fits ((q - p) * 8) num = Some True" using num by (simp add: number_fits_def mult.commute)
  note size = sub_size_ok [OF ok v r sz]
  show ?thesis
  proof (cases flat)
    case True
    have f: "vbuffer_sub_isflat h data = Some (True, h)" using flat True by simp
    have w: "True \<longrightarrow> writable_all h cs" using wr by simp
    obtain zs y ws x it itp m where y: "cs = zs @ y # ws" "chunks h y = Some x" "chunk_wf h x" "\<not> f_ctl (cflags x)"
      "vbuffer_mmap h data True vbuffer_mmap_init = Some ((cdata x, coffset x + m), q - p, it, itp, touch True y x h)"
      "cdata x \<noteq> NULL" "p = szs h zs + m" "m + (q - p) \<le> csize x"
      using ok v r l(3) f w by (rule flat_piece)
    have yc: "y \<in> set cs" and m: "m + length bs \<le> csize x" using y(1,8) bs(2) by auto
    obtain h' where h': "store (touch True y x h) (cdata x, coffset x + m) bs = Some h'" "rewritten {y} h h'"
      "chunk_bytes h' y = take m (chunk_bytes h y) @ bs @ drop (m + length bs) (chunk_bytes h y)"
      "\<forall>a \<in> set cs. a \<noteq> y \<longrightarrow> chunk_bytes h' a = chunk_bytes h a"
      using ok v yc dj y(2-4) m by (rule touch_store_ok)
    have dis: "y \<notin> set zs" "y \<notin> set ws" using vbufD(4,5) [OF v] y(1) by auto
    have "content h' zs = content h zs" "content h' ws = content h ws"
      using h'(4) y(1) dis by (auto simp: content_def intro!: arg_cong [of _ _ concat] map_cong)
    moreover have "length (content h zs) = szs h zs" "length (chunk_bytes h y) = csize x"
      using length_content [OF v, of zs] length_content [OF v, of "[y]"] y(1,2) by (auto simp: csz_def)
    ultimately have "content h' cs = take p (content h cs) @ bs @ drop q (content h cs)"
      using y(1,7,8) h'(3) bs(2) l(3) by simp
    moreover have "vbuffer_setnumber h data bigendian num = Some (True, h')"
      using size l fits f y(5,6) bs(1) h'(1) by (simp add: vbuffer_setnumber_def)
    ultimately show ?thesis using that rewritten_mono [OF h'(2), of "set cs"] yc bs(2,3) by simp
  next
    case False
    obtain h' where h': "write_loop h data bs vbuffer_mmap_init 0 = Some (min (length bs) (q - p), h')"
      "rewritten (set cs) h h'"
      "content h' cs = take p (content h cs) @ take (min (length bs) (q - p)) bs @
        drop (p + min (length bs) (q - p)) (content h cs)"
      using ok v r(1) wr dj by (rule write_range_ok)
    have "vbuffer_setnumber h data bigendian num = Some (True, h')"
      using size l fits flat False sub_check_ok [OF ok v r(1)] bs(1) h'(1)
      by (simp add: vbuffer_setnumber_def vbuffer_sub_write_def)
    then show ?thesis using that h'(2,3) bs(2,3) l(3) by simp
  qed
qed

lemma sample_end_range:
  "\<exists>h b c data. heap_ok h \<and> vbuf h b [c] \<and> content h [c] = [7, 8, 9] \<and> range_at h b [c] data 1 3 \<and>
     writable_all h [c] \<and> disjoint_slices h [c] \<and> \<not> use_size data \<and> szs h [c] < SIZE_ALL"
proof -
  obtain h b c where h: "heap_ok h" "vbuf h b [c]" "content h [c] = [7, 8, 9]" "writable_all h [c]" "disjoint_slices h [c]"
    using sample_range by blast
  have sz: "szs h [c] = 3" using length_content_all [OF h(2)] h(3) by simp
  have o: "(1 :: nat) \<noteq> SIZE_ALL" "(3 :: nat) \<noteq> SIZE_ALL" by (simp_all add: SIZE_ALL_def)
  obtain it where it: "itr h b [c] it (min 1 (szs h [c]))" using h(1,2) o(1) by (rule vbuffer_position_ok)
  obtain e where e: "itr h b [c] e (min 3 (szs h [c]))" using h(1,2) o(2) by (rule vbuffer_position_ok)
  have p: "itr h b [c] it 1" "itr h b [c] e 3" using it e sz by simp_all
  obtain i n where f: "vbuffer_iterator_fix h it = Some (i, n)" "fixed h b [c] i n 1"
    using h(2) p(1) [unfolded itr_def, THEN conjunct2] by (rule iterator_fix_ok)
  obtain ei en where g: "vbuffer_iterator_fix h e = Some (ei, en)" "fixed h b [c] ei en 3"
    using h(2) p(2) [unfolded itr_def, THEN conjunct2] by (rule iterator_fix_ok)
  have "i \<noteq> b" using f(2) sz vbufD(4,5) [OF h(2)] by (auto simp: fixed_def iter_at_def append_eq_Cons_conv Cons_eq_append_conv)
  then have "i = c" "ei = c \<or> ei = b"
    using f(2) g(2) by (auto simp: fixed_def iter_at_def Cons_eq_append_conv)
  then have "not_before ([c] @ [b]) i ei" unfolding not_before_def by (intro exI [of _ "[]"] exI [of _ "[b]"]) auto
  then have "range_at h b [c] \<lparr>sbegin = it, use_size = False, sunion = Sub_end e\<rparr> 1 3"
    using p f(1) g(1) by (auto simp: range_at_def)
  moreover have "szs h [c] < SIZE_ALL" using sz by (simp add: SIZE_ALL_def)
  ultimately show ?thesis using h by force
qed



section \<open>Bit fields as numbers\<close>

text \<open>
  The specification of a big-endian bit field: the bits of the bytes, taken as one big-endian number,
  from bit \<open>off\<close> (counted from the most significant one).
\<close>

definition be_nat :: "u8 list \<Rightarrow> nat" where
  "be_nat bs = foldl (\<lambda>a b. a * 256 + unat b) 0 bs"

definition be_field :: "u8 list \<Rightarrow> nat \<Rightarrow> nat \<Rightarrow> nat" where
  "be_field bs off bits = be_nat bs div 2 ^ (8 * length bs - off - bits) mod 2 ^ bits"

lemma be_nat_Cons: "be_nat (b # bs) = unat b * 256 ^ length bs + be_nat bs"
proof -
  have "foldl (\<lambda>a b. a * 256 + unat b) a bs = a * 256 ^ length bs + be_nat bs" for a :: nat
  proof (induction bs rule: rev_induct)
    case (snoc x xs) then show ?case by (simp add: be_nat_def algebra_simps)
  qed (simp add: be_nat_def)
  then show ?thesis by (simp add: be_nat_def [of "b # bs"])
qed

lemma be_nat_less: "be_nat bs < 256 ^ length bs"
proof (induction bs)
  case (Cons b bs)
  have "unat b < 256" using unsigned_less [of b, where ?'a = nat] by simp
  then have "Suc (unat b) * 256 ^ length bs \<le> 256 * 256 ^ length bs" by (intro mult_le_mono1) simp
  then have "256 ^ length bs + unat b * 256 ^ length bs \<le> 256 * 256 ^ length bs" by (simp only: mult_Suc)
  then have "unat b * 256 ^ length bs + be_nat bs < 256 * 256 ^ length bs" using Cons by linarith
  then show ?case by (simp only: be_nat_Cons length_Cons power_Suc)
qed (simp add: be_nat_def)

lemma unat_bits: "unat (drop_bit k (b :: u8) AND mask n) = unat b div 2 ^ k mod 2 ^ n"
proof -
  have "unat (take_bit n (drop_bit k b)) = take_bit n (drop_bit k (unat b))"
    by (simp only: unsigned_take_bit_eq unat_drop_bit_eq)
  then show ?thesis
    by (simp only: take_bit_eq_mask take_bit_eq_mod drop_bit_eq_div) (simp add: take_bit_eq_mask [symmetric] take_bit_eq_mod)
qed

lemma getbits_be:
  assumes "off + sz \<le> 8"
  shows "\<exists>v. getbits b (int off) (int sz) True = Some v \<and> unat v = unat b div 2 ^ (8 - off - sz) mod 2 ^ sz"
proof -
  have e: "nat (8 - int off - int sz) = 8 - off - sz" by simp
  show ?thesis using assms by (auto simp: getbits_def Let_def e unat_bits)
qed

lemma int_or_add:
  assumes "v < 2 ^ k"
  shows "int a * 2 ^ k OR int v = int (a * 2 ^ k + v)"
proof -
  have v: "take_bit k v = v" using assms by (simp add: take_bit_nat_eq_self)
  have "push_bit k a AND take_bit k v = 0" by (rule bit_eqI) (auto simp: bit_simps)
  then have "push_bit k a + v = push_bit k a OR v" unfolding v by (rule disjunctive_add_eq_or)
  then show ?thesis by (simp add: of_nat_or_eq push_bit_eq_mult)
qed

text \<open>A field that begins in one byte and goes on in the next ones.\<close>

lemma field_split:
  assumes "B < (2 :: nat) ^ (s + t)"
  shows "(u * 2 ^ (s + t) + B) div 2 ^ s mod 2 ^ (k + t) = (u mod 2 ^ k) * 2 ^ t + B div 2 ^ s mod 2 ^ t"
proof -
  have "u * 2 ^ (s + t) + B = B + (u * 2 ^ t) * 2 ^ s" by (simp add: power_add)
  then have 1: "(u * 2 ^ (s + t) + B) div 2 ^ s = u * 2 ^ t + B div 2 ^ s" by (simp only:) simp
  have 2: "B div 2 ^ s < 2 ^ t" using assms by (simp add: less_mult_imp_div_less power_add mult.commute)
  have "(2 :: nat) ^ (k + t) = 2 ^ t * 2 ^ k" by (simp add: power_add)
  then have "(u * 2 ^ t + B div 2 ^ s) mod 2 ^ (k + t) =
      2 ^ t * ((u * 2 ^ t + B div 2 ^ s) div 2 ^ t mod 2 ^ k) + (u * 2 ^ t + B div 2 ^ s) mod 2 ^ t"
    by (simp only: mod_mult2_eq)
  also have "(u * 2 ^ t + B div 2 ^ s) div 2 ^ t = u" using 2 by simp
  also have "(u * 2 ^ t + B div 2 ^ s) mod 2 ^ t = B div 2 ^ s mod 2 ^ t" by simp
  finally show ?thesis unfolding 1 by (simp add: mult.commute)
qed

lemma be_field_first:
  assumes "off + bits \<le> 8"
  shows "be_field [b] off bits = unat b div 2 ^ (8 - off - bits) mod 2 ^ bits"
  by (simp add: be_field_def be_nat_def)

lemma be_field_Cons:
  assumes "8 - off \<le> bits" "off \<le> 8" "off + bits \<le> 8 * length (b # bs)"
  shows "be_field (b # bs) off bits = (unat b mod 2 ^ (8 - off)) * 2 ^ (bits - (8 - off)) + be_field bs 0 (bits - (8 - off))"
proof -
  let ?t = "bits - (8 - off)" let ?s = "8 * length bs - ?t"
  have e: "?s + ?t = 8 * length bs" "8 - off + ?t = bits" "8 * length (b # bs) - off - bits = ?s" using assms by auto
  have p: "(256 :: nat) ^ length bs = 2 ^ (?s + ?t)" unfolding e(1) by (simp add: power_mult)
  then have "be_nat bs < 2 ^ (?s + ?t)" using be_nat_less [of bs] by simp
  from field_split [OF this, of "unat b" "8 - off"] show ?thesis
    unfolding e(2) by (simp only: be_field_def be_nat_Cons p e(3)) simp
qed

lemma asbits_loop_be:
  assumes "off + bits \<le> 8 * length bs" "8 * length bs < off + bits + 8" "off < 8" "a < 2 ^ k" "k + bits \<le> 63"
  shows "asbits_loop bs (int off) bits sh True (int a) = Some (int (a * 2 ^ bits + be_field bs off bits))"
  using assms
proof (induction bs arbitrary: off bits a k)
  case Nil
  then show ?case by (simp add: be_field_def be_nat_def)
next
  case (Cons b bs)
  let ?sz = "min bits (8 - off)"
  have m: "(8 - int off) mod 2 ^ 64 = 8 - int off" using Cons.prems(3) by simp
  have sz: "bits_size bits (int off) = int ?sz" unfolding bits_size_def m using Cons.prems(3) by auto
  obtain v where v: "getbits b (int off) (int ?sz) True = Some v" "unat v = unat b div 2 ^ (8 - off - ?sz) mod 2 ^ ?sz"
  proof -
    have "off + ?sz \<le> 8" using Cons.prems(3) by simp
    then show ?thesis using that getbits_be [of off ?sz b] by blast
  qed
  have a: "a * 2 ^ ?sz < 2 ^ (k + ?sz)" using Cons.prems(4) by (simp add: power_add)
  also have "(2 :: nat) ^ (k + ?sz) \<le> 2 ^ 63" using Cons.prems(5) by (intro power_increasing) auto
  finally have small: "a * 2 ^ ?sz < 2 ^ 63" .
  then have "int (a * 2 ^ ?sz) < int (2 ^ 63)" by (simp only: of_nat_less_iff)
  then have small': "int a * 2 ^ ?sz < 2 ^ 63" by (simp only: of_nat_mult of_nat_power of_nat_numeral)
  let ?a = "a * 2 ^ ?sz + unat v"
  have vl: "unat v < 2 ^ ?sz" using v(2) by simp
  have loop: "asbits_loop (b # bs) (int off) bits sh True (int a) =
      asbits_loop bs (int 0) (bits - ?sz) sh True (int ?a)"
    using small' int_or_add [OF vl, of a] by (simp add: Let_def sz v(1))
  have al: "?a < 2 ^ (k + ?sz)"
  proof -
    have "Suc a * 2 ^ ?sz \<le> 2 ^ k * 2 ^ ?sz" using Cons.prems(4) by (intro mult_le_mono1) simp
    then have "2 ^ ?sz + a * 2 ^ ?sz \<le> 2 ^ k * 2 ^ ?sz" by (simp only: mult_Suc)
    then show ?thesis using vl by (simp only: power_add)
  qed
  show ?case
  proof (cases "bits \<le> 8 - off")
    case True
    then have "bs = []" "?sz = bits" using Cons.prems(2,3) by (cases bs; simp)+
    then show ?thesis using loop v(2) be_field_first [of off bits b] Cons.prems(3) True by simp
  next
    case False
    let ?t = "bits - (8 - off)"
    have s: "?sz = 8 - off" "bits - ?sz = ?t" using False by auto
    have step: "asbits_loop bs (int 0) ?t sh True (int ?a) = Some (int (?a * 2 ^ ?t + be_field bs 0 ?t))"
      by (rule Cons.IH [OF _ _ _ al]) (use Cons.prems False in auto)
    have "unat v = unat b mod 2 ^ (8 - off)" using v(2) s(1) by simp
    moreover have "be_field (b # bs) off bits = (unat b mod 2 ^ (8 - off)) * 2 ^ ?t + be_field bs 0 ?t"
      using False Cons.prems(1,3) by (intro be_field_Cons) auto
    moreover have "(2 :: nat) ^ bits = 2 ^ (8 - off) * 2 ^ ?t" using False by (simp add: power_add [symmetric])
    ultimately have "?a * 2 ^ ?t + be_field bs 0 ?t = a * 2 ^ bits + be_field (b # bs) off bits"
      using s(1) by (simp only:) (simp add: algebra_simps)
    then show ?thesis using loop s(2) step by simp
  qed
qed

text \<open>
  C28. In big-endian order, a bit field that begins in the first byte of a range and spans at most 63
  bits is the corresponding field of the big-endian number made of the bytes it touches, over any
  chunks; the buffer is unchanged.
\<close>

theorem vbuffer_asbits_field:
  assumes "heap_ok h" "vbuf h b cs" "range_at h b cs data p q" "\<not> use_size data" "szs h cs < SIZE_ALL" "p < q"
    and "offset < 8" "bits \<le> 63" "(offset + bits + 7) div 8 \<le> min (q - p) 8"
  shows "vbuffer_asbits h data offset bits True =
    Some (int (be_field (take ((offset + bits + 7) div 8) (drop p (content h cs))) offset bits), h)"
proof -
  let ?n = "(offset + bits + 7) div 8"
  let ?bs = "take ?n (drop p (content h cs))"
  have "q - p < SIZE_ALL" using range_atD(3) [OF assms(3)] assms(5) by simp
  moreover have "vbuffer_sub_read h data ?n = Some (?bs, h)"
    using sub_read_ok [OF assms(1-3), of ?n] assms(9) by (simp add: min_absorb1)
  moreover have "length (drop p (content h cs)) \<ge> q - p"
    using range_atD(3) [OF assms(3)] length_content_all [OF assms(2)] by simp
  then have l: "length ?bs = ?n" using assms(9) by simp
  then have "asbits_loop ?bs (int offset) bits 0 True (int 0) = Some (int (0 * 2 ^ bits + be_field ?bs offset bits))"
    by (intro asbits_loop_be [where k = 0]) (use assms(7,8) in auto)
  moreover have u: "to_u64 (offset + bits + 7) = offset + bits + 7" using assms(7,8) by (simp add: to_u64_def)
  ultimately show ?thesis
    using sub_size_ok [OF assms(1-5)] assms(6,7,9) l by (simp add: vbuffer_asbits_def Let_def u del: length_take)
qed

theorem vbuffer_asbits_field_witness:
  "\<exists>h data. vbuffer_asbits h data 4 8 True = Some (128, h)"
proof -
  obtain h b c data where h: "heap_ok h" "vbuf h b [c]" "content h [c] = [7, 8, 9]" "range_at h b [c] data 1 3"
    "\<not> use_size data" "szs h [c] < SIZE_ALL"
    using sample_end_range by blast
  have "vbuffer_asbits h data 4 8 True =
    Some (int (be_field (take ((4 + 8 + 7) div 8) (drop 1 (content h [c]))) 4 8), h)"
    by (rule vbuffer_asbits_field [OF h(1,2,4-6)]) simp_all
  moreover have "take ((4 + 8 + 7) div 8) (drop 1 (content h [c])) = [8, 9]" using h(3) by simp
  moreover have "be_field [8, 9] 4 8 = 128" by (simp add: be_field_def be_nat_def)
  ultimately show ?thesis by (metis of_nat_numeral)
qed



end
