(* ===== verification/Time.thy ===== *)
theory Time
  imports Haka_Prelude
begin

text \<open>
  Time stamps: the integer part of \<open>lib/haka/time.c\<close> and \<open>include/haka/time.h\<close>.

  A time stamp is a signed 64-bit number of seconds and an unsigned 32-bit number of nanoseconds.
  The seconds are integers: the addition, the subtraction and the product of two \<open>time_t\<close> values are
  undefined when they leave the 64-bit range, and the model returns \<open>None\<close> there; where C converts to
  \<open>unsigned long long\<close> (the constant \<open>SEC_TO_NSEC\<close>) the value wraps around.  The conversions from and to
  \<open>double\<close> and to text are not modelled.
\<close>

record timestamp =
  secs :: int
  nsecs :: nat

definition invalid_time :: timestamp where
  "invalid_time = \<lparr>secs = 0, nsecs = 0\<rparr>"

definition SEC_TO_NSEC :: nat where
  "SEC_TO_NSEC = 1000000000"

text \<open>A signed 64-bit result, undefined out of range; and the conversion that wraps around.\<close>

definition checked_s64 :: "int \<Rightarrow> int option" where
  "checked_s64 x = (if - (2 ^ 63) \<le> x \<and> x < 2 ^ 63 then Some x else None)"

definition to_s64 :: "int \<Rightarrow> int" where
  "to_s64 x = (x + 2 ^ 63) mod 2 ^ 64 - 2 ^ 63"

definition time_cmp :: "timestamp \<Rightarrow> timestamp \<Rightarrow> int" where
  "time_cmp t1 t2 =
     (if secs t1 < secs t2 then -1
      else if secs t1 > secs t2 then 1
      else if nsecs t1 < nsecs t2 then -1
      else if nsecs t1 > nsecs t2 then 1
      else 0)"

definition time_add :: "timestamp \<Rightarrow> timestamp \<Rightarrow> timestamp option" where
  "time_add t1 t2 = do {
     let ns = to_u32 (nsecs t1 + nsecs t2);
     s \<leftarrow> checked_s64 (secs t1 + secs t2);
     Some \<lparr>secs = to_s64 (s + int (ns div SEC_TO_NSEC)), nsecs = ns mod SEC_TO_NSEC\<rparr>
   }"

definition time_diff_pos :: "timestamp \<Rightarrow> timestamp \<Rightarrow> timestamp option" where
  "time_diff_pos t1 t2 = do {
     assert_that (secs t1 \<ge> secs t2);
     assert_that (time_cmp t1 t2 \<ge> 0);
     s \<leftarrow> checked_s64 (secs t1 - secs t2);
     if nsecs t1 \<ge> nsecs t2 then Some \<lparr>secs = s, nsecs = nsecs t1 - nsecs t2\<rparr>
     else do {
       assert_that (nsecs t1 + SEC_TO_NSEC \<ge> nsecs t2);
       s \<leftarrow> checked_s64 (s - 1);
       Some \<lparr>secs = s, nsecs = to_u32 (nsecs t1 + SEC_TO_NSEC - nsecs t2)\<rparr>
     }
   }"

definition time_diff :: "timestamp \<Rightarrow> timestamp \<Rightarrow> (int \<times> timestamp) option" where
  "time_diff t1 t2 = do {
     let cmp = time_cmp t1 t2;
     res \<leftarrow> (if cmp \<ge> 0 then time_diff_pos t1 t2 else time_diff_pos t2 t1);
     Some (cmp, res)
   }"

text \<open>The number of nanoseconds as an unsigned 64-bit value; a division by zero is undefined.\<close>

definition time_nsec_u64 :: "timestamp \<Rightarrow> nat" where
  "time_nsec_u64 t = nat ((secs t * int SEC_TO_NSEC + int (nsecs t)) mod 2 ^ 64)"

definition time_divide :: "timestamp \<Rightarrow> timestamp \<Rightarrow> nat option" where
  "time_divide t1 t2 =
     (let a = time_nsec_u64 t1; b = time_nsec_u64 t2 in if b = 0 then None else Some (a div b))"

definition time_mult :: "timestamp \<Rightarrow> int \<Rightarrow> timestamp option" where
  "time_mult t1 mult = do {
     let ns = nat ((int (nsecs t1) * mult) mod 2 ^ 64);
     s \<leftarrow> checked_s64 (secs t1 * mult);
     Some \<lparr>secs = to_s64 (s + int (ns div SEC_TO_NSEC)), nsecs = ns mod SEC_TO_NSEC\<rparr>
   }"

definition time_isvalid :: "timestamp \<Rightarrow> bool" where
  "time_isvalid t \<longleftrightarrow> secs t \<noteq> 0 \<or> nsecs t \<noteq> 0"

text \<open>The clock is the result of \<open>clock_gettime\<close>: its value, or \<open>None\<close> if it fails.\<close>

definition time_gettimestamp :: "(int \<times> nat) option \<Rightarrow> timestamp option" where
  "time_gettimestamp clock = (case clock of None \<Rightarrow> None | Some (s, n) \<Rightarrow> Some \<lparr>secs = s, nsecs = to_u32 n\<rparr>)"

section \<open>Normalised time stamps\<close>

text \<open>The number of nanoseconds a time stamp stands for.\<close>

definition time_value :: "timestamp \<Rightarrow> int" where
  "time_value t = secs t * int SEC_TO_NSEC + int (nsecs t)"

definition time_wf :: "timestamp \<Rightarrow> bool" where
  "time_wf t \<longleftrightarrow> - (2 ^ 62) \<le> secs t \<and> secs t < 2 ^ 62 \<and> nsecs t < SEC_TO_NSEC"

lemma to_s64_id: "- (2 ^ 63) \<le> x \<Longrightarrow> x < 2 ^ 63 \<Longrightarrow> to_s64 x = x"
  by (simp add: to_s64_def)

lemma time_value_inj:
  assumes "nsecs a < SEC_TO_NSEC" "nsecs b < SEC_TO_NSEC" "time_value a = time_value b"
  shows "a = (b :: timestamp)"
proof -
  have e: "secs a * 1000000000 + int (nsecs a) = secs b * 1000000000 + int (nsecs b)"
    and n: "int (nsecs a) < 1000000000" "int (nsecs b) < 1000000000"
    using assms by (simp_all add: time_value_def SEC_TO_NSEC_def)
  have "secs a = secs b"
    by (cases "secs a" "secs b" rule: linorder_cases) (use e n in linarith)+
  then show ?thesis using e by simp
qed

lemma time_cmp_value:
  "time_wf a \<Longrightarrow> time_wf b \<Longrightarrow> time_cmp a b = sgn (time_value a - time_value b)"
  by (auto simp: time_cmp_def time_wf_def time_value_def SEC_TO_NSEC_def sgn_if)

lemma time_add_value:
  assumes "time_wf a" "time_wf b"
  obtains c where "time_add a b = Some c" "time_value c = time_value a + time_value b"
    "nsecs c < SEC_TO_NSEC" "secs a + secs b \<le> secs c" "secs c \<le> secs a + secs b + 1"
proof -
  let ?n = "nsecs a + nsecs b"
  let ?c = "\<lparr>secs = secs a + secs b + int (?n div SEC_TO_NSEC), nsecs = ?n mod SEC_TO_NSEC\<rparr>"
  have n: "?n div SEC_TO_NSEC \<le> 1" "to_u32 ?n = ?n"
    using assms by (auto simp: time_wf_def SEC_TO_NSEC_def to_u32_def)
  then have "time_add a b = Some ?c"
    using assms by (auto simp: time_add_def time_wf_def checked_s64_def Let_def to_s64_id)
  moreover have "int (?n div SEC_TO_NSEC) * int SEC_TO_NSEC + int (?n mod SEC_TO_NSEC) = int ?n"
    by (metis div_mult_mod_eq of_nat_add of_nat_mult)
  then have "time_value ?c = time_value a + time_value b"
    by (simp add: time_value_def algebra_simps)
  ultimately show ?thesis using that [of ?c] n(1) by (simp add: SEC_TO_NSEC_def)
qed

lemma time_diff_pos_value:
  assumes "time_wf a" "time_wf b" "time_value b \<le> time_value a"
  obtains c where "time_diff_pos a b = Some c" "time_value c = time_value a - time_value b"
    "nsecs c < SEC_TO_NSEC" "0 \<le> secs c"
proof -
  let ?c = "if nsecs a \<ge> nsecs b then \<lparr>secs = secs a - secs b, nsecs = nsecs a - nsecs b\<rparr>
    else \<lparr>secs = secs a - secs b - 1, nsecs = nsecs a + SEC_TO_NSEC - nsecs b\<rparr>"
  have c: "0 \<le> time_cmp a b" using time_cmp_value [OF assms(1,2)] assms(3) by (simp add: sgn_if)
  have s: "secs b \<le> secs a" "nsecs a < nsecs b \<longrightarrow> secs b < secs a"
    using c by (auto simp: time_cmp_def split: if_splits)
  have "time_diff_pos a b = Some ?c"
    using assms(1,2) c s
    by (auto simp: time_diff_pos_def assert_that_def checked_s64_def time_wf_def SEC_TO_NSEC_def to_u32_def)
  moreover have "time_value ?c = time_value a - time_value b"
    using assms(1,2) by (auto simp: time_value_def time_wf_def SEC_TO_NSEC_def of_nat_diff algebra_simps)
  moreover have "nsecs ?c < SEC_TO_NSEC" "0 \<le> secs ?c" using assms(1,2) s by (auto simp: time_wf_def)
  ultimately show ?thesis by (rule that)
qed

lemma time_diff_value:
  assumes "time_wf a" "time_wf b"
  obtains c where "time_diff a b = Some (sgn (time_value a - time_value b), c)"
    "time_value c = \<bar>time_value a - time_value b\<bar>" "nsecs c < SEC_TO_NSEC" "0 \<le> secs c"
proof (cases "time_value b \<le> time_value a")
  case True
  obtain c where "time_diff_pos a b = Some c" "time_value c = time_value a - time_value b"
    "nsecs c < SEC_TO_NSEC" "0 \<le> secs c"
    using assms True by (rule time_diff_pos_value)
  with True show ?thesis
    by (intro that [of c]) (simp_all add: time_diff_def time_cmp_value [OF assms] sgn_if)
next
  case False
  then have le: "time_value a \<le> time_value b" by simp
  obtain c where "time_diff_pos b a = Some c" "time_value c = time_value b - time_value a"
    "nsecs c < SEC_TO_NSEC" "0 \<le> secs c"
    using assms(2,1) le by (rule time_diff_pos_value)
  with False show ?thesis
    by (intro that [of c]) (simp_all add: time_diff_def time_cmp_value [OF assms] sgn_if)
qed

lemma time_mult_value:
  assumes "0 \<le> secs t" "time_value t * int k < 2 ^ 63"
  obtains m where "time_mult t (int k) = Some m" "time_value m = time_value t * int k" "nsecs m < SEC_TO_NSEC"
    "0 \<le> secs m"
proof -
  define n where "n = nsecs t * k"
  define q where "q = secs t * int k"
  let ?m = "\<lparr>secs = q + int (n div SEC_TO_NSEC), nsecs = n mod SEC_TO_NSEC\<rparr>"
  have eq: "int n = int (n div SEC_TO_NSEC) * int SEC_TO_NSEC + int (n mod SEC_TO_NSEC)"
    by (metis div_mult_mod_eq of_nat_add of_nat_mult)
  have tk: "time_value t * int k = q * int SEC_TO_NSEC + int n"
    by (simp add: time_value_def n_def q_def algebra_simps)
  have val: "time_value ?m = time_value t * int k"
    using eq unfolding tk by (simp add: time_value_def algebra_simps)
  have q0: "0 \<le> q" using assms(1) by (simp add: q_def)
  have le: "q * int SEC_TO_NSEC + int n < 2 ^ 63" using assms(2) unfolding tk .
  have nk: "int n < 2 ^ 63" "q < 2 ^ 63" "q + int (n div SEC_TO_NSEC) < 2 ^ 63"
    using q0 le eq by (simp_all add: SEC_TO_NSEC_def)
  have nn: "nat ((int (nsecs t) * int k) mod 2 ^ 64) = n"
    using nk(1) by (simp add: n_def flip: of_nat_mult)
  have mult: "time_mult t (int k) = Some ?m"
    using nk q0 nn unfolding time_mult_def q_def [symmetric]
    by (simp add: checked_s64_def to_s64_id)
  show ?thesis by (rule that [OF mult val]) (use q0 in \<open>simp_all add: SEC_TO_NSEC_def\<close>)
qed

lemma time_divide_value:
  assumes "0 \<le> time_value a" "time_value a < 2 ^ 63" "0 < time_value b" "time_value b < 2 ^ 63"
  shows "time_divide a b = Some (nat (time_value a) div nat (time_value b))"
proof -
  have u: "time_nsec_u64 x = nat (time_value x)" if "0 \<le> time_value x" "time_value x < 2 ^ 63" for x
    using that by (simp add: time_nsec_u64_def time_value_def)
  show ?thesis using u [of a] u [of b] assms by (simp add: time_divide_def)
qed

text \<open>
  C9. On normalised time stamps the comparison, the sum and the difference are those of the number of
  nanoseconds: the carry of the nanoseconds and the borrow of the seconds are right, the results are
  normalised again, and subtracting what was added gives it back.
\<close>

theorem time_add_diff:
  assumes "time_wf a" "time_wf b" "0 \<le> secs b" "secs a + secs b < 2 ^ 62 - 1"
  shows "\<exists>c. time_add a b = Some c \<and> time_wf c \<and> time_value c = time_value a + time_value b \<and>
    time_cmp c a = sgn (time_value b) \<and> time_diff c a = Some (sgn (time_value b), b) \<and>
    time_diff a c = Some (- sgn (time_value b), b)"
proof -
  obtain c where c: "time_add a b = Some c" "time_value c = time_value a + time_value b"
    "nsecs c < SEC_TO_NSEC" "secs a + secs b \<le> secs c" "secs c \<le> secs a + secs b + 1"
    using assms(1,2) by (rule time_add_value)
  have wf: "time_wf c" using c(3-5) assms by (simp add: time_wf_def)
  have ge: "0 \<le> time_value b" using assms(3) by (simp add: time_value_def)
  have cmp: "time_cmp c a = sgn (time_value b)" "time_cmp a c = - sgn (time_value b)"
    using time_cmp_value [OF wf assms(1)] time_cmp_value [OF assms(1) wf] c(2) by (simp_all add: sgn_if)
  obtain d where d: "time_diff_pos c a = Some d" "time_value d = time_value c - time_value a" "nsecs d < SEC_TO_NSEC"
    by (rule time_diff_pos_value [OF wf assms(1)]) (use c(2) ge in simp)
  have "d = b" by (rule time_value_inj) (use d c(2) assms(2) in \<open>simp_all add: time_wf_def\<close>)
  moreover have "time_diff a c = Some (- sgn (time_value b), b)"
  proof (cases "time_value b = 0")
    case True
    then have "a = c" using c(2,3) assms(1) by (intro time_value_inj) (simp_all add: time_wf_def)
    then show ?thesis using True d(1) \<open>d = b\<close> cmp(2) by (simp add: time_diff_def)
  next
    case False
    then show ?thesis using d(1) \<open>d = b\<close> cmp(2) ge by (simp add: time_diff_def sgn_if)
  qed
  ultimately show ?thesis using c wf cmp d(1) ge by (auto simp: time_diff_def sgn_if)
qed

theorem time_add_diff_witness:
  "\<exists>c. time_add \<lparr>secs = 5, nsecs = 999999999\<rparr> \<lparr>secs = 1, nsecs = 2\<rparr> = Some c \<and>
     time_diff c \<lparr>secs = 5, nsecs = 999999999\<rparr> = Some (1, \<lparr>secs = 1, nsecs = 2\<rparr>)"
  using time_add_diff [of "\<lparr>secs = 5, nsecs = 999999999\<rparr>" "\<lparr>secs = 1, nsecs = 2\<rparr>"]
  by (auto simp: time_wf_def SEC_TO_NSEC_def time_value_def sgn_if)



end
