(* ===== verification/Timer.thy ===== *)
theory Timer
  imports Time List2 Error_Context
begin

text \<open>
  Timers: \<open>lib/haka/timer.c\<close> and \<open>include/haka/timer.h\<close>.

  A time realm keeps, for each thread, its armed timers in a list sorted by the time of their next
  trigger.  The model is one realm as one thread sees it: \<open>states\<close> is the thread-local slot of the realm
  (\<open>None\<close> until the state is created), the timers are objects in a map, and their links are elements of
  the intrusive lists of \<open>List2\<close>, so that a timer and its list element have the same address.

  The environment is part of the state: the values the real-time clock returns (\<open>clock\<close>, indexed by
  \<open>ticks\<close>), whether the POSIX timer can be created and armed, and the delay it was last armed with.  The
  function behind a callback pointer is a parameter \<open>cb\<close>: it gets the pointer, the number of triggers
  and the user data, and may change the realm.  The calls made are recorded in order.
\<close>

datatype time_realm_mode = TIME_REALM_REALTIME | TIME_REALM_STATIC | Time_realm_other nat

record timer =
  armed :: bool
  trepeat :: bool
  trigger_time :: timestamp
  delay :: timestamp
  callback :: nat
  tdata :: nat

record time_realm_state =
  rtime :: timestamp
  sorted_timer :: addr
  check_timer :: bool

record time_realm =
  mode :: time_realm_mode
  states :: "time_realm_state option"
  tlinks :: links
  timers :: "addr \<rightharpoonup> timer"
  tfresh :: addr
  tbudget :: nat
  clock :: "nat \<Rightarrow> (int \<times> nat) option"
  ticks :: nat
  timer_create_ok :: bool
  timer_settime_ok :: bool
  programmed :: "timestamp option"
  terrs :: error_state

type_synonym timer_call = "nat \<times> int \<times> nat"
type_synonym timer_callback = "nat \<Rightarrow> int \<Rightarrow> nat \<Rightarrow> time_realm \<Rightarrow> time_realm option"

definition timer_error :: "time_realm \<Rightarrow> string \<Rightarrow> time_realm" where
  "timer_error r msg = r\<lparr>terrs := error msg (terrs r)\<rparr>"

definition upd_state :: "time_realm \<Rightarrow> (time_realm_state \<Rightarrow> time_realm_state) \<Rightarrow> time_realm option" where
  "upd_state r f = do { s \<leftarrow> states r; Some (r\<lparr>states := Some (f s)\<rparr>) }"

definition upd_timer :: "time_realm \<Rightarrow> addr \<Rightarrow> (timer \<Rightarrow> timer) \<Rightarrow> time_realm option" where
  "upd_timer r t f = do { x \<leftarrow> timers r t; Some (r\<lparr>timers := (timers r)(t \<mapsto> f x)\<rparr>) }"

definition with_tlinks :: "time_realm \<Rightarrow> ('a \<times> links) option \<Rightarrow> ('a \<times> time_realm) option" where
  "with_tlinks r m = do { (a, lk) \<leftarrow> m; Some (a, r\<lparr>tlinks := lk\<rparr>) }"

section \<open>The realm\<close>

text \<open>The signal handler of the POSIX timer.\<close>

definition timer_handler :: "time_realm \<Rightarrow> time_realm" where
  "timer_handler r = (case states r of None \<Rightarrow> r | Some s \<Rightarrow> r\<lparr>states := Some (s\<lparr>check_timer := True\<rparr>)\<rparr>)"

definition create_time_realm_state :: "time_realm \<Rightarrow> time_realm_state option \<times> time_realm" where
  "create_time_realm_state r =
     (if tbudget r = 0 then (None, timer_error r ''memory error'')
      else let a = tfresh r; r' = r\<lparr>tfresh := a + 1, tbudget := tbudget r - 1\<rparr> in
        if mode r = TIME_REALM_REALTIME \<and> \<not> timer_create_ok r then (None, timer_error r' ''timer creation error'')
        else (Some \<lparr>rtime = invalid_time, sorted_timer = a, check_timer = False\<rparr>,
              r'\<lparr>tlinks := list2_init (tlinks r) a\<rparr>))"

definition get_time_realm_state :: "time_realm \<Rightarrow> bool \<Rightarrow> time_realm" where
  "get_time_realm_state r create =
     (if states r = None \<and> create
      then (let (s, r) = create_time_realm_state r in r\<lparr>states := s\<rparr>)
      else r)"

partial_function (option) free_timers_loop :: "time_realm \<Rightarrow> addr \<Rightarrow> addr \<Rightarrow> time_realm option" where
  "free_timers_loop r fin iter =
     (if iter \<noteq> fin then do {
        r \<leftarrow> upd_timer r iter (\<lambda>x. x\<lparr>armed := False\<rparr>);
        (iter, r) \<leftarrow> with_tlinks r (list2_erase (tlinks r) iter);
        free_timers_loop r fin iter
      } else Some r)"

definition free_time_realm_state :: "time_realm \<Rightarrow> time_realm option" where
  "free_time_realm_state r =
     (case states r of
        None \<Rightarrow> Some r
      | Some s \<Rightarrow> do {
          b \<leftarrow> list2_begin (tlinks r) (sorted_timer s);
          r \<leftarrow> free_timers_loop r (list2_end (sorted_timer s)) b;
          let r = (if mode r = TIME_REALM_REALTIME then r\<lparr>programmed := None\<rparr> else r);
          Some (r\<lparr>tlinks := (tlinks r)(sorted_timer s := None)\<rparr>)
        })"

definition time_realm_initialize :: "time_realm \<Rightarrow> time_realm_mode \<Rightarrow> bool \<times> time_realm" where
  "time_realm_initialize r m =
     (case m of
        Time_realm_other _ \<Rightarrow> (False, timer_error (r\<lparr>mode := m\<rparr>) ''invalid timer mode'')
      | _ \<Rightarrow> (True, r\<lparr>mode := m, states := None\<rparr>))"

definition time_realm_destroy :: "time_realm \<Rightarrow> time_realm option" where
  "time_realm_destroy r = do {
     r \<leftarrow> free_time_realm_state r;
     Some (r\<lparr>states := None\<rparr>)
   }"

text \<open>A failing clock leaves the last time in place and raises an error.\<close>

definition current_time :: "time_realm \<Rightarrow> (timestamp \<times> time_realm) option" where
  "current_time r = do {
     s \<leftarrow> states r;
     (case mode r of
        TIME_REALM_REALTIME \<Rightarrow>
          (let r' = r\<lparr>ticks := ticks r + 1\<rparr> in
           case time_gettimestamp (clock r (ticks r)) of
             Some t \<Rightarrow> Some (t, r'\<lparr>states := Some (s\<lparr>rtime := t\<rparr>)\<rparr>)
           | None \<Rightarrow> Some (rtime s, timer_error r' ''time error''))
      | TIME_REALM_STATIC \<Rightarrow> Some (rtime s, r)
      | Time_realm_other _ \<Rightarrow> None)
   }"

definition time_realm_current_time :: "time_realm \<Rightarrow> (timestamp \<times> time_realm) option" where
  "time_realm_current_time r = current_time (get_time_realm_state r True)"

definition time_realm_timer :: "time_realm \<Rightarrow> nat \<Rightarrow> nat \<Rightarrow> addr \<times> time_realm" where
  "time_realm_timer r fn user =
     (let r = get_time_realm_state r True in
      if states r = None then (NULL, r)
      else if tbudget r = 0 then (NULL, timer_error r ''memory error'')
      else let t = tfresh r in
        (t, r\<lparr>tfresh := t + 1, tbudget := tbudget r - 1, tlinks := list2_elem_init (tlinks r) t,
              timers := (timers r)(t \<mapsto> \<lparr>armed = False, trepeat = False, trigger_time = invalid_time,
                delay = invalid_time, callback = fn, tdata = user\<rparr>)\<rparr>))"

partial_function (option) insert_position ::
    "time_realm \<Rightarrow> addr \<Rightarrow> timestamp \<Rightarrow> addr \<Rightarrow> addr option" where
  "insert_position r fin tt iter =
     (if iter \<noteq> fin then do {
        cur \<leftarrow> timers r iter;
        if time_cmp tt (trigger_time cur) < 0 then Some iter
        else do {
          nx \<leftarrow> list2_next (tlinks r) iter;
          insert_position r fin tt nx
        }
      } else Some iter)"

definition time_realm_insert_timer :: "time_realm \<Rightarrow> addr \<Rightarrow> (bool \<times> time_realm) option" where
  "time_realm_insert_timer r t = do {
     s \<leftarrow> states r;
     b \<leftarrow> list2_begin (tlinks r) (sorted_timer s);
     x \<leftarrow> timers r t;
     iter \<leftarrow> insert_position r (list2_end (sorted_timer s)) (trigger_time x) b;
     (_, r) \<leftarrow> with_tlinks r (list2_insert (tlinks r) iter t);
     Some (iter = b, r)
   }"

text \<open>Arming (or with \<open>None\<close> stopping) the POSIX timer.\<close>

definition set_timer :: "time_realm \<Rightarrow> timestamp option \<Rightarrow> bool \<times> time_realm" where
  "set_timer r v =
     (if timer_settime_ok r then (True, r\<lparr>programmed := v\<rparr>) else (False, timer_error r ''timer error''))"

definition time_realm_update_timer_list :: "time_realm \<Rightarrow> bool \<Rightarrow> (bool \<times> time_realm) option" where
  "time_realm_update_timer_list r update_timer =
     (if \<not> update_timer then Some (True, r)
      else do {
        s \<leftarrow> states r;
        emp \<leftarrow> list2_empty (tlinks r) (sorted_timer s);
        if mode r = TIME_REALM_REALTIME then
          (if emp then Some (set_timer r None)
           else do {
             f \<leftarrow> list2_first (tlinks r) (sorted_timer s);
             x \<leftarrow> timers r f;
             (current, r) \<leftarrow> current_time r;
             (cmp, diff) \<leftarrow> time_diff (trigger_time x) current;
             if cmp \<le> 0 then do {
               r \<leftarrow> upd_state r (\<lambda>s. s\<lparr>check_timer := True\<rparr>);
               Some (set_timer r None)
             } else Some (set_timer r (Some diff))
           })
        else if \<not> emp then do {
          f \<leftarrow> list2_first (tlinks r) (sorted_timer s);
          x \<leftarrow> timers r f;
          (current, r) \<leftarrow> current_time r;
          _ \<leftarrow> time_diff (trigger_time x) current;
          Some (True, r)
        } else Some (True, r)
      })"

definition timer_stop :: "time_realm \<Rightarrow> addr \<Rightarrow> (bool \<times> time_realm) option" where
  "timer_stop r t = do {
     let r = get_time_realm_state r True;
     x \<leftarrow> timers r t;
     if \<not> armed x then Some (False, r)
     else do {
       s \<leftarrow> states r;
       p \<leftarrow> list2_prev (tlinks r) t;
       (_, r) \<leftarrow> with_tlinks r (list2_erase (tlinks r) t);
       r \<leftarrow> upd_timer r t (\<lambda>x. x\<lparr>armed := False\<rparr>);
       time_realm_update_timer_list r (p = list2_end (sorted_timer s))
     }
   }"

definition timer_destroy :: "time_realm \<Rightarrow> addr \<Rightarrow> time_realm option" where
  "timer_destroy r t = do {
     (_, r) \<leftarrow> timer_stop r t;
     Some (r\<lparr>timers := (timers r)(t := None), tlinks := (tlinks r)(t := None)\<rparr>)
   }"

definition timer_start :: "time_realm \<Rightarrow> addr \<Rightarrow> timestamp \<Rightarrow> bool \<Rightarrow> (bool \<times> time_realm) option" where
  "timer_start r t d rep = do {
     let r = get_time_realm_state r True;
     if secs d = 0 \<and> nsecs d = 0 then Some (False, timer_error r ''invalid timer delay'')
     else do {
       (_, r) \<leftarrow> timer_stop r t;
       r \<leftarrow> upd_timer r t (\<lambda>x. x\<lparr>delay := d\<rparr>);
       (current, r) \<leftarrow> time_realm_current_time r;
       tt \<leftarrow> time_add current d;
       r \<leftarrow> upd_timer r t (\<lambda>x. x\<lparr>trigger_time := tt, armed := True, trepeat := rep\<rparr>);
       (first, r) \<leftarrow> time_realm_insert_timer r t;
       time_realm_update_timer_list r first
     }
   }"

definition timer_once :: "time_realm \<Rightarrow> addr \<Rightarrow> timestamp \<Rightarrow> (bool \<times> time_realm) option" where
  "timer_once r t d = timer_start r t d False"

definition timer_repeat :: "time_realm \<Rightarrow> addr \<Rightarrow> timestamp \<Rightarrow> (bool \<times> time_realm) option" where
  "timer_repeat r t d = timer_start r t d True"

section \<open>Triggering\<close>

definition to_s32 :: "int \<Rightarrow> int" where
  "to_s32 x = (x + 2 ^ 31) mod 2 ^ 32 - 2 ^ 31"

text \<open>The next trigger of a repeated timer and the number of triggers up to now.\<close>

definition next_trigger :: "timer \<Rightarrow> timestamp \<Rightarrow> (int \<times> timestamp) option" where
  "next_trigger x current = do {
     (cmp, offset) \<leftarrow> time_diff (trigger_time x) current;
     if cmp \<le> 0 then do {
       n \<leftarrow> time_divide offset (delay x);
       let count = to_s32 (int (n + 1));
       offset \<leftarrow> time_mult (delay x) count;
       tt \<leftarrow> time_add (trigger_time x) offset;
       assert_that (time_cmp tt current \<ge> 0);
       Some (count, tt)
     } else do {
       tt \<leftarrow> time_add current (delay x);
       Some (1, tt)
     }
   }"

partial_function (option) check_loop ::
    "timer_callback \<Rightarrow> timestamp \<Rightarrow> addr \<Rightarrow> addr \<Rightarrow> time_realm \<Rightarrow> addr \<Rightarrow> timer_call list \<Rightarrow>
     (timer_call list \<times> time_realm) option" where
  "check_loop cb current repeat_list fin r iter calls =
     (if iter \<noteq> fin then do {
        x \<leftarrow> timers r iter;
        if time_cmp (trigger_time x) current \<le> 0 then do {
          let t = iter;
          (iter, r) \<leftarrow> with_tlinks r (list2_erase (tlinks r) t);
          (count, r) \<leftarrow> (if trepeat x then do {
              (_, r) \<leftarrow> with_tlinks r (list2_insert (tlinks r) (list2_end repeat_list) t);
              (count, tt) \<leftarrow> next_trigger x current;
              r \<leftarrow> upd_timer r t (\<lambda>x. x\<lparr>trigger_time := tt\<rparr>);
              Some (count, r)
            } else do {
              r \<leftarrow> upd_timer r t (\<lambda>x. x\<lparr>armed := False\<rparr>);
              Some (1, r)
            });
          r \<leftarrow> cb (callback x) count (tdata x) r;
          check_loop cb current repeat_list fin r iter (calls @ [(callback x, count, tdata x)])
        } else Some (calls, r)
      } else Some (calls, r))"

partial_function (option) reinsert_loop :: "addr \<Rightarrow> time_realm \<Rightarrow> addr \<Rightarrow> time_realm option" where
  "reinsert_loop fin r iter =
     (if iter \<noteq> fin then do {
        let t = iter;
        (iter, r) \<leftarrow> with_tlinks r (list2_erase (tlinks r) t);
        (_, r) \<leftarrow> time_realm_insert_timer r t;
        reinsert_loop fin r iter
      } else Some r)"

text \<open>The head of the local list of repeated timers lives at a fresh address during the call.\<close>

definition realm_check :: "timer_callback \<Rightarrow> time_realm \<Rightarrow> (bool \<times> timer_call list \<times> time_realm) option" where
  "realm_check cb r = do {
     (current, r) \<leftarrow> current_time r;
     s \<leftarrow> states r;
     iter \<leftarrow> list2_begin (tlinks r) (sorted_timer s);
     let fin = list2_end (sorted_timer s);
     r \<leftarrow> upd_state r (\<lambda>s. s\<lparr>check_timer := False\<rparr>);
     if iter = fin then Some (True, [], r)
     else do {
       let repeat_list = tfresh r;
       let r = r\<lparr>tfresh := repeat_list + 1, tlinks := list2_init (tlinks r) repeat_list\<rparr>;
       (calls, r) \<leftarrow> check_loop cb current repeat_list fin r iter [];
       b \<leftarrow> list2_begin (tlinks r) repeat_list;
       r \<leftarrow> reinsert_loop (list2_end repeat_list) r b;
       let r = r\<lparr>tlinks := (tlinks r)(repeat_list := None)\<rparr>;
       (ok, r) \<leftarrow> time_realm_update_timer_list r (calls \<noteq> []);
       Some (ok, calls, r)
     }
   }"

definition time_realm_check :: "timer_callback \<Rightarrow> time_realm \<Rightarrow> (bool \<times> timer_call list \<times> time_realm) option" where
  "time_realm_check cb r =
     (case states (get_time_realm_state r False) of
        Some s \<Rightarrow> if check_timer s then realm_check cb r else Some (True, [], r)
      | None \<Rightarrow> Some (True, [], r))"

definition time_realm_update_and_check ::
    "timer_callback \<Rightarrow> time_realm \<Rightarrow> timestamp \<Rightarrow> (timer_call list \<times> time_realm) option" where
  "time_realm_update_and_check cb r v = do {
     let r = get_time_realm_state r True;
     assert_that (mode r = TIME_REALM_STATIC);
     s \<leftarrow> states r;
     if time_cmp v (rtime s) < 0 then Some ([], r)
     else do {
       r \<leftarrow> upd_state r (\<lambda>s. s\<lparr>rtime := v, check_timer := True\<rparr>);
       (_, calls, r) \<leftarrow> realm_check cb r;
       Some (calls, r)
     }
   }"

section \<open>The next trigger\<close>

text \<open>Non-negative time stamps below a bound in seconds.\<close>

definition stamp_ok :: "int \<Rightarrow> timestamp \<Rightarrow> bool" where
  "stamp_ok b t \<longleftrightarrow> 0 \<le> secs t \<and> secs t < b \<and> nsecs t < SEC_TO_NSEC"

lemma stamp_ok_wf: "stamp_ok b t \<Longrightarrow> b \<le> 2 ^ 62 \<Longrightarrow> time_wf t"
  by (auto simp: stamp_ok_def time_wf_def)

lemma stamp_ok_value:
  assumes "stamp_ok b t"
  shows "0 \<le> time_value t" "time_value t < b * 1000000000"
  using assms by (auto simp: stamp_ok_def time_value_def SEC_TO_NSEC_def)

lemma stamp_okI:
  assumes "0 \<le> time_value t" "time_value t < b * 1000000000" "nsecs t < SEC_TO_NSEC"
  shows "stamp_ok b t"
  using assms by (simp add: stamp_ok_def time_value_def SEC_TO_NSEC_def)

text \<open>An armed timer: the times until the year 2106, and delays that are not empty.\<close>

definition timer_wf :: "timer \<Rightarrow> bool" where
  "timer_wf x \<longleftrightarrow> stamp_ok (2 ^ 33) (trigger_time x) \<and> stamp_ok (2 ^ 32) (delay x) \<and> 0 < time_value (delay x)"

lemma timer_cmp:
  "timer_wf x \<Longrightarrow> stamp_ok (2 ^ 32) c \<Longrightarrow>
   time_cmp (trigger_time x) c \<le> 0 \<longleftrightarrow> time_value (trigger_time x) \<le> time_value c"
  using time_cmp_value [OF stamp_ok_wf [of "2 ^ 33" "trigger_time x"] stamp_ok_wf [of "2 ^ 32" c]]
  by (auto simp: timer_wf_def sgn_if)

lemma div_bounds:
  fixes d e :: int
  assumes "0 < d"
  shows "e div d * d \<le> e" "e < (e div d + 1) * d"
proof -
  have "e div d * d + e mod d = e" "0 \<le> e mod d" "e mod d < d" using assms by simp_all
  moreover have "(e div d + 1) * d = e div d * d + d" by (simp add: distrib_right)
  ultimately show "e div d * d \<le> e" "e < (e div d + 1) * d" by linarith+
qed

lemma next_trigger_ok:
  assumes x: "timer_wf x" and c: "stamp_ok (2 ^ 32) current" and le: "time_value (trigger_time x) \<le> time_value current"
    and n: "n = nat (time_value current - time_value (trigger_time x)) div nat (time_value (delay x))" "n + 1 < 2 ^ 31"
  obtains tt where "next_trigger x current = Some (int n + 1, tt)" "stamp_ok (2 ^ 33) tt"
    "time_value tt = time_value (trigger_time x) + (int n + 1) * time_value (delay x)"
    "time_value current < time_value tt"
proof -
  let ?e = "time_value current - time_value (trigger_time x)" and ?d = "time_value (delay x)"
  have tr: "stamp_ok (2 ^ 33) (trigger_time x)" and d: "stamp_ok (2 ^ 32) (delay x)" "0 < ?d"
    using x by (simp_all add: timer_wf_def)
  note wf = stamp_ok_wf [OF tr] stamp_ok_wf [OF c]
  note v = stamp_ok_value [OF tr] stamp_ok_value [OF c] stamp_ok_value [OF d(1)]
  obtain off where off: "time_diff (trigger_time x) current = Some (sgn (time_value (trigger_time x) - time_value current), off)"
    "time_value off = \<bar>time_value (trigger_time x) - time_value current\<bar>"
    by (rule time_diff_value [OF wf]) auto
  have ov: "time_value off = ?e" using off(2) le by simp
  have nd: "int n = ?e div ?d"
    using n(1) le d(2) by (simp add: zdiv_int)
  have q: "int n * ?d \<le> ?e" "?e < (int n + 1) * ?d"
    unfolding nd by (rule div_bounds [OF d(2)])+
  have div: "time_divide off (delay x) = Some n"
    using time_divide_value [of off "delay x"] ov v d(2) le n(1) by simp
  have k: "?d * int (n + 1) < 2 ^ 63" using q v by (simp add: algebra_simps)
  obtain m where m: "time_mult (delay x) (int (n + 1)) = Some m" "time_value m = ?d * int (n + 1)"
    "nsecs m < SEC_TO_NSEC" "0 \<le> secs m"
    by (rule time_mult_value [OF _ k]) (use d in \<open>auto simp: stamp_ok_def\<close>)
  have mw: "time_wf m"
  proof (rule stamp_ok_wf)
    show "stamp_ok (2 ^ 33) m"
    proof (rule stamp_okI [OF _ _ m(3)])
      show "0 \<le> time_value m" using m(2) d(2) by simp
      show "time_value m < 2 ^ 33 * 1000000000" using m(2) q v by (simp add: algebra_simps)
    qed
  qed simp
  obtain tt where tt: "time_add (trigger_time x) m = Some tt"
    "time_value tt = time_value (trigger_time x) + time_value m" "nsecs tt < SEC_TO_NSEC"
    by (rule time_add_value [OF wf(1) mw]) auto
  have val: "time_value tt = time_value (trigger_time x) + (int n + 1) * ?d"
    using tt(2) m(2) by (simp add: algebra_simps)
  have gt: "time_value current < time_value tt" using val q(2) by simp
  have tok: "stamp_ok (2 ^ 33) tt"
  proof (rule stamp_okI [OF _ _ tt(3)])
    show "0 \<le> time_value tt" using gt v by simp
    show "time_value tt < 2 ^ 33 * 1000000000" using val q(1) v by (simp add: algebra_simps)
  qed
  have cnt: "to_s32 (int (n + 1)) = int n + 1" using n(2) by (simp add: to_s32_def)
  have "time_cmp tt current \<ge> 0"
    using time_cmp_value [OF stamp_ok_wf [OF tok] wf(2)] gt by (simp add: sgn_if)
  then have "next_trigger x current = Some (int n + 1, tt)"
    using off(1) le div m(1) tt(1) cnt unfolding next_trigger_def
    by (simp add: sgn_if add.commute)
  then show ?thesis using tok val gt by (rule that)
qed

section \<open>The sorted list of timers\<close>

text \<open>The trigger time of a timer as a number, and the place of a new timer behind its equals.\<close>

definition trig :: "(addr \<rightharpoonup> timer) \<Rightarrow> addr \<Rightarrow> int" where
  "trig tm t = (case tm t of Some x \<Rightarrow> time_value (trigger_time x) | None \<Rightarrow> 0)"

definition tinsert :: "(addr \<Rightarrow> int) \<Rightarrow> addr \<Rightarrow> addr list \<Rightarrow> addr list" where
  "tinsert f t ts = takeWhile (\<lambda>u. f u \<le> f t) ts @ t # dropWhile (\<lambda>u. f u \<le> f t) ts"

lemma set_tinsert [simp]: "set (tinsert f t ts) = insert t (set ts)"
proof -
  have "set ts = set (takeWhile (\<lambda>u. f u \<le> f t) ts) \<union> set (dropWhile (\<lambda>u. f u \<le> f t) ts)"
    by (metis set_append takeWhile_dropWhile_id)
  then show ?thesis by (auto simp: tinsert_def)
qed

lemma dropWhile_gt:
  fixes f :: "addr \<Rightarrow> int"
  assumes "sorted (map f ts)" "u \<in> set (dropWhile (\<lambda>u. f u \<le> c) ts)"
  shows "c < f u"
  using assms
proof (induction ts)
  case (Cons a ts)
  show ?case
  proof (cases "f a \<le> c")
    case True
    then show ?thesis using Cons by simp
  next
    case False
    have "\<forall>v \<in> set ts. f a \<le> f v" using Cons.prems(1) by simp
    moreover have "u = a \<or> u \<in> set ts" using Cons.prems(2) False by simp
    ultimately show ?thesis using False by force
  qed
qed simp

lemma sorted_tinsert:
  assumes "sorted (map f ts)"
  shows "sorted (map f (tinsert f t ts))"
proof -
  have gt: "f t < f u" if "u \<in> set (dropWhile (\<lambda>u. f u \<le> f t) ts)" for u
    using assms that by (rule dropWhile_gt)
  have le: "f u \<le> f t" if "u \<in> set (takeWhile (\<lambda>u. f u \<le> f t) ts)" for u
    using set_takeWhileD [OF that] by simp
  let ?A = "takeWhile (\<lambda>u. f u \<le> f t) ts" and ?B = "dropWhile (\<lambda>u. f u \<le> f t) ts"
  have "sorted (map f ?A @ map f ?B)" by (metis assms map_append takeWhile_dropWhile_id)
  then have "sorted (map f ?A)" "sorted (map f ?B)" unfolding sorted_append by blast+
  moreover have "\<forall>x \<in> set (map f ?B). f t \<le> x" using gt by force
  then have "sorted (map f (t # ?B))" using calculation(2) by (metis list.map(2) sorted_simps(2))
  moreover have "\<forall>x \<in> set (map f ?A). \<forall>y \<in> set (map f (t # ?B)). x \<le> y" using le gt by force
  ultimately show ?thesis unfolding tinsert_def map_append sorted_append by blast
qed

lemma tinsert_cong: "(\<And>u. u \<in> insert t (set ts) \<Longrightarrow> f u = g u) \<Longrightarrow> tinsert f t ts = tinsert g t ts"
proof -
  assume eq: "\<And>u. u \<in> insert t (set ts) \<Longrightarrow> f u = g u"
  have "takeWhile (\<lambda>u. f u \<le> f t) ts = takeWhile (\<lambda>u. g u \<le> g t) ts"
    by (rule takeWhile_cong) (use eq in auto)
  moreover have "dropWhile (\<lambda>u. f u \<le> f t) ts = dropWhile (\<lambda>u. g u \<le> g t) ts"
    by (rule dropWhile_cong) (use eq in auto)
  ultimately show ?thesis by (simp add: tinsert_def)
qed

definition stamped :: "(addr \<rightharpoonup> timer) \<Rightarrow> addr \<Rightarrow> bool" where
  "stamped tm t \<longleftrightarrow> (\<exists>x. tm t = Some x \<and> stamp_ok (2 ^ 33) (trigger_time x))"

lemma insert_position_ok:
  "seq (tlinks r) l (xs @ ys) \<Longrightarrow> \<forall>t \<in> set ys. stamped (timers r) t \<Longrightarrow> stamp_ok (2 ^ 33) tt \<Longrightarrow>
   insert_position r l tt (hd (ys @ [l])) =
     Some (hd (dropWhile (\<lambda>u. trig (timers r) u \<le> time_value tt) ys @ [l]))"
proof (induction ys arbitrary: xs)
  case Nil
  then show ?case by (subst insert_position.simps) simp
next
  case (Cons y ys)
  obtain x where x: "timers r y = Some x" "stamp_ok (2 ^ 33) (trigger_time x)"
    using Cons.prems(2) by (auto simp: stamped_def)
  have ne: "y \<noteq> l" using seq_distinct [OF Cons.prems(1)] by auto
  have nx: "list2_next (tlinks r) y = Some (hd (ys @ [l]))" by (rule seq_next [OF Cons.prems(1)])
  have IH: "insert_position r l tt (hd (ys @ [l])) =
     Some (hd (dropWhile (\<lambda>u. trig (timers r) u \<le> time_value tt) ys @ [l]))"
    using Cons.IH [of "xs @ [y]"] Cons.prems by simp
  have "time_cmp tt (trigger_time x) < 0 \<longleftrightarrow> \<not> trig (timers r) y \<le> time_value tt"
    using time_cmp_value [OF stamp_ok_wf [OF Cons.prems(3)] stamp_ok_wf [OF x(2)]] x(1)
    by (auto simp: trig_def sgn_if)
  then show ?case using ne x nx IH by (subst insert_position.simps) auto
qed

lemma insert_timer_ok:
  assumes s: "states r = Some s" and q: "seq (tlinks r) (sorted_timer s) ts"
    and st: "\<forall>u \<in> set ts. stamped (timers r) u" "stamped (timers r) t"
    and det: "detached (tlinks r) t" "t \<notin> insert (sorted_timer s) (set ts)"
  obtains lk first where "time_realm_insert_timer r t = Some (first, r\<lparr>tlinks := lk\<rparr>)"
    "seq lk (sorted_timer s) (tinsert (trig (timers r)) t ts)"
    "same_off (insert t (insert (sorted_timer s) (set ts))) (tlinks r) lk" "dom lk = dom (tlinks r)"
proof -
  let ?l = "sorted_timer s" and ?P = "\<lambda>u. trig (timers r) u \<le> trig (timers r) t"
  obtain x where x: "timers r t = Some x" "stamp_ok (2 ^ 33) (trigger_time x)" using st(2) by (auto simp: stamped_def)
  have tx: "trig (timers r) t = time_value (trigger_time x)" using x by (simp add: trig_def)
  have q0: "seq (tlinks r) ?l ([] @ ts)" using q by simp
  have pos: "insert_position r ?l (trigger_time x) (hd (ts @ [?l])) = Some (hd (dropWhile ?P ts @ [?l]))"
    using insert_position_ok [OF q0 st(1) x(2)] by (simp add: tx)
  have q': "seq (tlinks r) ?l (takeWhile ?P ts @ dropWhile ?P ts)" using q by simp
  have nin: "t \<notin> insert ?l (set (takeWhile ?P ts @ dropWhile ?P ts))" using det(2) by simp
  obtain lk where lk: "list2_insert (tlinks r) (hd (dropWhile ?P ts @ [?l])) t = Some (t, lk)"
    "seq lk ?l (takeWhile ?P ts @ t # dropWhile ?P ts)"
    "same_off (insert t (insert ?l (set (takeWhile ?P ts @ dropWhile ?P ts)))) (tlinks r) lk" "dom lk = dom (tlinks r)"
    using q' det(1) nin by (rule seq_insert)
  have "time_realm_insert_timer r t = Some (hd (dropWhile ?P ts @ [?l]) = hd (ts @ [?l]), r\<lparr>tlinks := lk\<rparr>)"
    using s seq_begin [OF q] x(1) pos lk(1)
    by (simp add: time_realm_insert_timer_def list2_end_def with_tlinks_def)
  then show ?thesis
    by (rule that) (use lk in \<open>simp_all add: tinsert_def\<close>)
qed

section \<open>The invariant of a realm\<close>

text \<open>
  The list of the realm is sorted by trigger time; the armed timers are those of the list and those of
  \<open>E\<close> (timers that are being moved); every other timer is in no list.
\<close>

definition realm_inv :: "time_realm \<Rightarrow> time_realm_state \<Rightarrow> addr list \<Rightarrow> addr set \<Rightarrow> bool" where
  "realm_inv r s ts E \<longleftrightarrow>
     states r = Some s \<and> stamp_ok (2 ^ 32) (rtime s) \<and>
     seq (tlinks r) (sorted_timer s) ts \<and> sorted (map (trig (timers r)) ts) \<and>
     (\<forall>t. t \<in> set ts \<union> E \<longleftrightarrow> (\<exists>x. timers r t = Some x \<and> armed x)) \<and> set ts \<inter> E = {} \<and>
     (\<forall>t x. timers r t = Some x \<longrightarrow> \<not> armed x \<longrightarrow> detached (tlinks r) t) \<and>
     (\<forall>t x. timers r t = Some x \<longrightarrow> armed x \<longrightarrow> timer_wf x) \<and>
     timers r (sorted_timer s) = None \<and> (\<forall>a \<in> dom (tlinks r). 0 < a \<and> a < tfresh r)"

lemma realm_invD:
  assumes "realm_inv r s ts E"
  shows "states r = Some s" "stamp_ok (2 ^ 32) (rtime s)" "seq (tlinks r) (sorted_timer s) ts"
    "sorted (map (trig (timers r)) ts)" "t \<in> set ts \<union> E \<Longrightarrow> \<exists>x. timers r t = Some x \<and> armed x \<and> timer_wf x"
    "timers r t = Some x \<Longrightarrow> armed x \<Longrightarrow> t \<in> set ts \<union> E" "set ts \<inter> E = {}"
    "timers r t = Some x \<Longrightarrow> \<not> armed x \<Longrightarrow> detached (tlinks r) t"
    "timers r (sorted_timer s) = None" "a \<in> dom (tlinks r) \<Longrightarrow> 0 < a \<and> a < tfresh r"
    "t \<in> set ts \<union> E \<Longrightarrow> stamped (timers r) t"
proof -
  note inv = assms [unfolded realm_inv_def]
  show "states r = Some s" "stamp_ok (2 ^ 32) (rtime s)" "seq (tlinks r) (sorted_timer s) ts"
    "sorted (map (trig (timers r)) ts)" "set ts \<inter> E = {}" "timers r (sorted_timer s) = None"
    using inv by - (elim conjE, assumption)+
  have mem: "\<forall>t. t \<in> set ts \<union> E \<longleftrightarrow> (\<exists>x. timers r t = Some x \<and> armed x)"
    and det: "\<forall>t x. timers r t = Some x \<longrightarrow> \<not> armed x \<longrightarrow> detached (tlinks r) t"
    and wf: "\<forall>t x. timers r t = Some x \<longrightarrow> armed x \<longrightarrow> timer_wf x"
    and dom: "\<forall>a \<in> dom (tlinks r). 0 < a \<and> a < tfresh r"
    using inv by - (elim conjE, assumption)+
  show "t \<in> set ts \<union> E" if "timers r t = Some x" "armed x" using mem that by blast
  show "detached (tlinks r) t" if "timers r t = Some x" "\<not> armed x" using det that by blast
  show "0 < a \<and> a < tfresh r" if "a \<in> dom (tlinks r)" using dom that by blast
  show w: "\<exists>x. timers r t = Some x \<and> armed x \<and> timer_wf x" if "t \<in> set ts \<union> E" using mem wf that by blast
  show "stamped (timers r) t" if "t \<in> set ts \<union> E"
    using w [OF that] by (auto simp: stamped_def timer_wf_def)
qed

lemma trig_upd: "t \<notin> set ts \<Longrightarrow> map (trig (tm(t \<mapsto> x))) ts = map (trig tm) ts"
  by (auto simp: trig_def)

lemma realm_inv_frame:
  assumes inv: "realm_inv r s ts E" and q: "seq lk (sorted_timer s) us"
    and lk: "same_off S (tlinks r) lk" "dom lk = dom (tlinks r)" "\<And>u x. u \<in> S \<Longrightarrow> timers r u = Some x \<Longrightarrow> armed x"
    and us: "sorted (map (trig (timers r)) us)" "set us \<union> F = set ts \<union> E" "set us \<inter> F = {}"
  shows "realm_inv (r\<lparr>tlinks := lk\<rparr>) s us F"
proof -
  have "detached lk t" if "timers r t = Some x" "\<not> armed x" for t x
  proof -
    have "t \<notin> S" using lk(3) that by blast
    then have "lk t = tlinks r t" using lk(1) by (auto simp: same_off_def)
    then show ?thesis using realm_invD(8) [OF inv that] by (simp add: detached_def)
  qed
  moreover have "\<forall>t. t \<in> set us \<union> F \<longleftrightarrow> (\<exists>x. timers r t = Some x \<and> armed x)"
    using realm_invD(5,6) [OF inv] us(2) by blast
  moreover have "\<forall>t x. timers r t = Some x \<longrightarrow> armed x \<longrightarrow> timer_wf x"
    using inv unfolding realm_inv_def by (elim conjE)
  moreover have "\<forall>a \<in> dom lk. 0 < a \<and> a < tfresh r" using realm_invD(10) [OF inv] lk(2) by blast
  ultimately show ?thesis
    unfolding realm_inv_def using realm_invD(1,2,9) [OF inv] q us(1,3) by simp
qed

lemma realm_inv_armed:
  assumes "realm_inv r s ts E" "u \<in> insert (sorted_timer s) (set ts \<union> E)" "timers r u = Some x"
  shows "armed x"
  using realm_invD(5) [OF assms(1), of u] realm_invD(9) [OF assms(1)] assms(2,3) by auto

lemma realm_inv_erase:
  assumes inv: "realm_inv r s (xs @ t # ys) E"
  obtains lk where "list2_erase (tlinks r) t = Some (hd (ys @ [sorted_timer s]), lk)"
    "realm_inv (r\<lparr>tlinks := lk\<rparr>) s (xs @ ys) (insert t E)" "detached lk t"
    "same_off (insert (sorted_timer s) (set (xs @ t # ys))) (tlinks r) lk" "dom lk = dom (tlinks r)"
proof -
  obtain lk where lk: "list2_erase (tlinks r) t = Some (hd (ys @ [sorted_timer s]), lk)"
    "seq lk (sorted_timer s) (xs @ ys)" "detached lk t"
    "same_off (insert (sorted_timer s) (set (xs @ t # ys))) (tlinks r) lk" "dom lk = dom (tlinks r)"
    using realm_invD(3) [OF inv] by (rule seq_erase)
  have "sorted (map (trig (timers r)) (xs @ ys))"
    using realm_invD(4) [OF inv] by (simp add: sorted_append)
  moreover have "t \<notin> set (xs @ ys)" using seq_distinct [OF realm_invD(3) [OF inv]] by auto
  ultimately have "realm_inv (r\<lparr>tlinks := lk\<rparr>) s (xs @ ys) (insert t E)"
    by (intro realm_inv_frame [OF inv lk(2,4,5)] realm_inv_armed [OF inv]) (use realm_invD(7) [OF inv] in auto)
  then show ?thesis using that lk by blast
qed

lemma realm_inv_upd_timer:
  assumes inv: "realm_inv r s ts E" and t: "timers r t = Some x" "t \<notin> set ts"
    and F: "\<And>u. u \<in> set ts \<union> F \<longleftrightarrow> (\<exists>z. ((timers r)(t \<mapsto> y)) u = Some z \<and> armed z)" "set ts \<inter> F = {}"
    and y: "\<not> armed y \<Longrightarrow> detached (tlinks r) t" "armed y \<Longrightarrow> timer_wf y"
  shows "realm_inv (r\<lparr>timers := (timers r)(t \<mapsto> y)\<rparr>) s ts F"
  unfolding realm_inv_def
proof (intro conjI allI impI)
  let ?r = "r\<lparr>timers := (timers r)(t \<mapsto> y)\<rparr>"
  have "timers ?r = (timers r)(t \<mapsto> y)" by simp
  then show "sorted (map (trig (timers ?r)) ts)" using realm_invD(4) [OF inv]
    by (simp only: trig_upd [OF t(2), of "timers r" y])
  show "u \<in> set ts \<union> F \<longleftrightarrow> (\<exists>z. timers ?r u = Some z \<and> armed z)" for u using F(1) by simp
  show "detached (tlinks ?r) u" if "timers ?r u = Some z" "\<not> armed z" for u z
    using that y(1) realm_invD(8) [OF inv, of u z] by (cases "u = t") auto
  show "timer_wf z" if "timers ?r u = Some z" "armed z" for u z
  proof (cases "u = t")
    case False
    then show ?thesis using that realm_invD(5) [OF inv, of u] realm_invD(6) [OF inv, of u z] by auto
  qed (use that y(2) in auto)
  show "timers ?r (sorted_timer s) = None" using realm_invD(9) [OF inv] t(1) by auto
qed (use realm_invD(1-3,10) [OF inv] F(2) in auto)

lemma realm_inv_disarm:
  assumes inv: "realm_inv r s ts (insert t E)" and t: "timers r t = Some x" "t \<notin> E" "detached (tlinks r) t"
  shows "realm_inv (r\<lparr>timers := (timers r)(t \<mapsto> x\<lparr>armed := False\<rparr>)\<rparr>) s ts E"
proof (rule realm_inv_upd_timer [OF inv t(1)])
  show n: "t \<notin> set ts" using realm_invD(7) [OF inv] by auto
  show "u \<in> set ts \<union> E \<longleftrightarrow> (\<exists>y. ((timers r)(t \<mapsto> x\<lparr>armed := False\<rparr>)) u = Some y \<and> armed y)" for u
    using realm_invD(5) [OF inv, of u] realm_invD(6) [OF inv, of u] n t(2) by (cases "u = t") auto
qed (use realm_invD(7) [OF inv] t(3) in auto)

lemma realm_inv_arm:
  assumes inv: "realm_inv r s ts E" and t: "timers r t = Some x" "\<not> armed x" and y: "armed y" "timer_wf y"
  shows "realm_inv (r\<lparr>timers := (timers r)(t \<mapsto> y)\<rparr>) s ts (insert t E)"
proof (rule realm_inv_upd_timer [OF inv t(1)])
  show n: "t \<notin> set ts" using realm_invD(5) [OF inv, of t] t by auto
  show "u \<in> set ts \<union> insert t E \<longleftrightarrow> (\<exists>z. ((timers r)(t \<mapsto> y)) u = Some z \<and> armed z)" for u
    using realm_invD(5) [OF inv, of u] realm_invD(6) [OF inv, of u] n y(1) by (cases "u = t") auto
  show "set ts \<inter> insert t E = {}" using realm_invD(7) [OF inv] n by auto
qed (use y in auto)

lemma realm_inv_retrigger:
  assumes inv: "realm_inv r s ts E" and t: "t \<in> E" "timers r t = Some x" and y: "armed y" "timer_wf y"
  shows "realm_inv (r\<lparr>timers := (timers r)(t \<mapsto> y)\<rparr>) s ts E"
proof (rule realm_inv_upd_timer [OF inv t(2)])
  show n: "t \<notin> set ts" using realm_invD(7) [OF inv] t(1) by auto
  show "u \<in> set ts \<union> E \<longleftrightarrow> (\<exists>z. ((timers r)(t \<mapsto> y)) u = Some z \<and> armed z)" for u
    using realm_invD(5) [OF inv, of u] realm_invD(6) [OF inv, of u] n t(1) y(1) by (cases "u = t") auto
qed (use realm_invD(7) [OF inv] y in auto)

lemma realm_inv_insert:
  assumes inv: "realm_inv r s ts (insert t E)" and t: "t \<notin> E" "detached (tlinks r) t"
  obtains lk first where "time_realm_insert_timer r t = Some (first, r\<lparr>tlinks := lk\<rparr>)"
    "realm_inv (r\<lparr>tlinks := lk\<rparr>) s (tinsert (trig (timers r)) t ts) E"
    "same_off (insert t (insert (sorted_timer s) (set ts))) (tlinks r) lk" "dom lk = dom (tlinks r)"
proof -
  have nin: "t \<notin> insert (sorted_timer s) (set ts)"
    using realm_invD(5) [OF inv, of t] realm_invD(7,9) [OF inv] by auto
  have st: "\<forall>u \<in> set ts. stamped (timers r) u" "stamped (timers r) t"
    using realm_invD(11) [OF inv] by auto
  obtain lk first where lk: "time_realm_insert_timer r t = Some (first, r\<lparr>tlinks := lk\<rparr>)"
    "seq lk (sorted_timer s) (tinsert (trig (timers r)) t ts)"
    "same_off (insert t (insert (sorted_timer s) (set ts))) (tlinks r) lk" "dom lk = dom (tlinks r)"
    using realm_invD(1,3) [OF inv] st t(2) nin by (rule insert_timer_ok)
  have "realm_inv (r\<lparr>tlinks := lk\<rparr>) s (tinsert (trig (timers r)) t ts) E"
    by (intro realm_inv_frame [OF inv lk(2-4)] realm_inv_armed [OF inv])
      (use realm_invD(7) [OF inv] t(1) sorted_tinsert [OF realm_invD(4) [OF inv]] in auto)
  then show ?thesis using that lk by blast
qed

section \<open>Starting and stopping timers of a static realm\<close>

lemma get_state_ok: "realm_inv r s ts E \<Longrightarrow> get_time_realm_state r c = r"
  by (drule realm_invD(1)) (simp add: get_time_realm_state_def)

lemma current_static: "mode r = TIME_REALM_STATIC \<Longrightarrow> states r = Some s \<Longrightarrow> current_time r = Some (rtime s, r)"
  by (simp add: current_time_def)

lemma update_static:
  assumes inv: "realm_inv r s ts E" and m: "mode r = TIME_REALM_STATIC"
  shows "time_realm_update_timer_list r u = Some (True, r)"
proof (cases ts)
  case Nil
  then have "list2_begin (tlinks r) (sorted_timer s) = Some (sorted_timer s)"
    using seq_begin [OF realm_invD(3) [OF inv]] by simp
  then show ?thesis
    using m realm_invD(1) [OF inv] by (simp add: time_realm_update_timer_list_def list2_empty_def list2_end_def)
next
  case (Cons t us)
  obtain x where x: "timers r t = Some x" "timer_wf x" using realm_invD(5) [OF inv, of t] Cons by auto
  have "list2_begin (tlinks r) (sorted_timer s) = Some t" "t \<noteq> sorted_timer s"
    using seq_begin [OF realm_invD(3) [OF inv]] seq_distinct [OF realm_invD(3) [OF inv]] Cons by auto
  moreover obtain c where "time_diff (trigger_time x) (rtime s) =
      Some (sgn (time_value (trigger_time x) - time_value (rtime s)), c)"
    by (rule time_diff_value [OF stamp_ok_wf [of "2 ^ 33" "trigger_time x"] stamp_ok_wf [OF realm_invD(2) [OF inv]]])
      (use x(2) in \<open>auto simp: timer_wf_def\<close>)
  ultimately show ?thesis
    using m realm_invD(1) [OF inv] x(1) current_static [OF m realm_invD(1) [OF inv]]
    by (simp add: time_realm_update_timer_list_def list2_empty_def list2_first_def list2_end_def)
qed

lemma timer_stop_ok:
  assumes inv: "realm_inv r s ts {}" and m: "mode r = TIME_REALM_STATIC" and t: "timers r t = Some x"
  obtains lk where "timer_stop r t = Some (armed x, r\<lparr>tlinks := lk, timers := (timers r)(t \<mapsto> x\<lparr>armed := False\<rparr>)\<rparr>)"
    "realm_inv (r\<lparr>tlinks := lk, timers := (timers r)(t \<mapsto> x\<lparr>armed := False\<rparr>)\<rparr>) s (remove1 t ts) {}"
proof (cases "armed x")
  case False
  then have same: "(timers r)(t \<mapsto> x\<lparr>armed := False\<rparr>) = timers r" using t by (auto simp: fun_eq_iff)
  have "t \<notin> set ts" using realm_invD(5) [OF inv, of t] t False by auto
  then show ?thesis
    using that [of "tlinks r"] False t get_state_ok [OF inv] inv same
    by (simp add: timer_stop_def remove1_idem)
next
  case True
  then have "t \<in> set ts" using realm_invD(6) [OF inv t] by simp
  then obtain xs ys where ts: "ts = xs @ t # ys" "t \<notin> set xs" by (meson split_list_first)
  have inv': "realm_inv r s (xs @ t # ys) {}" using inv ts by simp
  obtain lk where lk: "list2_erase (tlinks r) t = Some (hd (ys @ [sorted_timer s]), lk)"
    "realm_inv (r\<lparr>tlinks := lk\<rparr>) s (xs @ ys) (insert t {})" "detached lk t"
    using inv' by (rule realm_inv_erase)
  let ?r = "r\<lparr>tlinks := lk, timers := (timers r)(t \<mapsto> x\<lparr>armed := False\<rparr>)\<rparr>"
  have i2: "realm_inv ?r s (xs @ ys) {}"
    using realm_inv_disarm [OF lk(2), of x] t lk(3) by simp
  have up: "time_realm_update_timer_list ?r u = Some (True, ?r)" for u
    by (rule update_static [OF i2]) (use m in simp)
  have "timer_stop r t = Some (True, ?r)"
    using get_state_ok [OF inv] t True realm_invD(1) [OF inv] seq_prev [OF realm_invD(3) [OF inv']] lk(1) up
    by (simp add: timer_stop_def with_tlinks_def upd_timer_def)
  then show ?thesis using that [of lk] True i2 ts by (simp add: remove1_append)
qed

lemma timer_start_ok:
  assumes inv: "realm_inv r s ts {}" and m: "mode r = TIME_REALM_STATIC" and t: "timers r t = Some x"
    and d: "stamp_ok (2 ^ 32) d" "0 < time_value d"
  obtains r' tt where "timer_start r t d rep = Some (True, r')"
    "time_add (rtime s) d = Some tt" "time_value tt = time_value (rtime s) + time_value d"
    "timers r' = (timers r)(t \<mapsto> x\<lparr>delay := d, trigger_time := tt, armed := True, trepeat := rep\<rparr>)"
    "realm_inv r' s (tinsert (trig (timers r')) t (remove1 t ts)) {}"
    "mode r' = mode r"
proof -
  let ?x0 = "x\<lparr>armed := False\<rparr>"
  obtain lk where stop: "timer_stop r t = Some (armed x, r\<lparr>tlinks := lk, timers := (timers r)(t \<mapsto> ?x0)\<rparr>)"
    and i1: "realm_inv (r\<lparr>tlinks := lk, timers := (timers r)(t \<mapsto> ?x0)\<rparr>) s (remove1 t ts) {}"
    using inv m t by (rule timer_stop_ok)
  let ?r1 = "r\<lparr>tlinks := lk, timers := (timers r)(t \<mapsto> ?x0)\<rparr>"
  have rt: "stamp_ok (2 ^ 32) (rtime s)" by (rule realm_invD(2) [OF inv])
  obtain tt where tt: "time_add (rtime s) d = Some tt" "time_value tt = time_value (rtime s) + time_value d"
    "nsecs tt < SEC_TO_NSEC"
    by (rule time_add_value [OF stamp_ok_wf [OF rt] stamp_ok_wf [OF d(1)]]) auto
  have tok: "stamp_ok (2 ^ 33) tt"
    by (rule stamp_okI [OF _ _ tt(3)]) (use tt(2) stamp_ok_value [OF rt] stamp_ok_value [OF d(1)] in simp_all)
  let ?y = "x\<lparr>delay := d, trigger_time := tt, armed := True, trepeat := rep\<rparr>"
  let ?r2 = "r\<lparr>tlinks := lk, timers := (timers r)(t \<mapsto> ?y)\<rparr>"
  have i2: "realm_inv ?r2 s (remove1 t ts) (insert t {})"
    using realm_inv_arm [OF i1, of t ?x0 ?y] tok d by (simp add: timer_wf_def)
  have det: "detached (tlinks ?r2) t" using realm_invD(8) [OF i1, of t ?x0] by simp
  obtain lk2 first where ins: "time_realm_insert_timer ?r2 t = Some (first, ?r2\<lparr>tlinks := lk2\<rparr>)"
    "realm_inv (?r2\<lparr>tlinks := lk2\<rparr>) s (tinsert (trig (timers ?r2)) t (remove1 t ts)) {}"
    by (rule realm_inv_insert [OF i2 _ det]) auto
  have up: "time_realm_update_timer_list (?r2\<lparr>tlinks := lk2\<rparr>) first = Some (True, ?r2\<lparr>tlinks := lk2\<rparr>)"
    by (rule update_static [OF ins(2)]) (use m in simp)
  have s1: "states r = Some s" by (rule realm_invD(1) [OF inv])
  have "\<not> (secs d = 0 \<and> nsecs d = 0)" using d(2) by (auto simp: time_value_def)
  then have "timer_start r t d rep = Some (True, ?r2\<lparr>tlinks := lk2\<rparr>)"
    using get_state_ok [OF inv] stop tt(1) ins(1) up s1 m
    by (simp add: timer_start_def upd_timer_def time_realm_current_time_def get_time_realm_state_def current_static)
  then show ?thesis
    by (rule that) (use tt ins(2) in simp_all)
qed

section \<open>Triggering the due timers\<close>

definition due :: "(addr \<rightharpoonup> timer) \<Rightarrow> timestamp \<Rightarrow> addr list \<Rightarrow> addr list" where
  "due tm current ts = takeWhile (\<lambda>t. trig tm t \<le> time_value current) ts"

definition pending_timers :: "(addr \<rightharpoonup> timer) \<Rightarrow> timestamp \<Rightarrow> addr list \<Rightarrow> addr list" where
  "pending_timers tm current ts = dropWhile (\<lambda>t. trig tm t \<le> time_value current) ts"

text \<open>How often a timer has triggered up to now, and the timer afterwards.\<close>

definition triggers :: "timestamp \<Rightarrow> timer \<Rightarrow> int" where
  "triggers current x =
     (if trepeat x
      then (time_value current - time_value (trigger_time x)) div time_value (delay x) + 1 else 1)"

definition rearmed :: "timestamp \<Rightarrow> timer \<Rightarrow> timer" where
  "rearmed current x =
     (if trepeat x then (case next_trigger x current of Some (_, tt) \<Rightarrow> x\<lparr>trigger_time := tt\<rparr> | None \<Rightarrow> x)
      else x\<lparr>armed := False\<rparr>)"

definition fire :: "(addr \<rightharpoonup> timer) \<Rightarrow> timestamp \<Rightarrow> addr list \<Rightarrow> addr \<rightharpoonup> timer" where
  "fire tm current ts = (\<lambda>t. if t \<in> set ts then map_option (rearmed current) (tm t) else tm t)"

definition repeated :: "(addr \<rightharpoonup> timer) \<Rightarrow> addr list \<Rightarrow> addr list" where
  "repeated tm ts = filter (\<lambda>t. case tm t of Some x \<Rightarrow> trepeat x | None \<Rightarrow> False) ts"

definition call_of :: "(addr \<rightharpoonup> timer) \<Rightarrow> timestamp \<Rightarrow> addr \<Rightarrow> timer_call" where
  "call_of tm current t =
     (case tm t of Some x \<Rightarrow> (callback x, triggers current x, tdata x) | None \<Rightarrow> (0, 0, 0))"

text \<open>The number of missed triggers of a repeated timer is an \<open>int\<close> in C.\<close>

definition counted :: "timestamp \<Rightarrow> timer \<Rightarrow> bool" where
  "counted current x \<longleftrightarrow> triggers current x < 2 ^ 31"

lemma rearmed_repeat:
  assumes "timer_wf x" "stamp_ok (2 ^ 32) current" "time_value (trigger_time x) \<le> time_value current"
    and "trepeat x" "counted current x"
  obtains tt where "next_trigger x current = Some (triggers current x, tt)"
    "rearmed current x = x\<lparr>trigger_time := tt\<rparr>" "stamp_ok (2 ^ 33) tt"
    "time_value tt = time_value (trigger_time x) + triggers current x * time_value (delay x)"
    "time_value current < time_value tt"
proof -
  let ?e = "time_value current - time_value (trigger_time x)" and ?d = "time_value (delay x)"
  let ?n = "nat ?e div nat ?d"
  have d: "0 < ?d" using assms(1) by (simp add: timer_wf_def)
  have n: "triggers current x = int ?n + 1" using assms(3,4) d by (simp add: triggers_def zdiv_int)
  then have n1: "?n + 1 < 2 ^ 31" using assms(5) by (simp add: counted_def)
  obtain tt where "next_trigger x current = Some (int ?n + 1, tt)" "stamp_ok (2 ^ 33) tt"
    "time_value tt = time_value (trigger_time x) + (int ?n + 1) * ?d" "time_value current < time_value tt"
    using assms(1-3) refl n1 by (rule next_trigger_ok)
  then show ?thesis using that [of tt] n assms(4) by (simp add: rearmed_def)
qed

text \<open>
  One due timer: it leaves the sorted list and, if it is repeated, joins the local list.
\<close>

lemma fire_step:
  assumes inv: "realm_inv r s (t # ts) (set R)" and q: "seq (tlinks r) rl R"
    and rl: "timers r rl = None" "rl \<noteq> sorted_timer s"
    and x: "timers r t = Some x" and c: "stamp_ok (2 ^ 32) current"
    and le: "time_value (trigger_time x) \<le> time_value current" and cnt: "counted current x"
  obtains r1 lk where
    "with_tlinks r (list2_erase (tlinks r) t) = Some (hd (ts @ [sorted_timer s]), r1)"
    "(if trepeat x then do {
        (_, r) \<leftarrow> with_tlinks r1 (list2_insert (tlinks r1) (list2_end rl) t);
        (count, tt) \<leftarrow> next_trigger x current;
        r \<leftarrow> upd_timer r t (\<lambda>x. x\<lparr>trigger_time := tt\<rparr>);
        Some (count, r)
      } else do {
        r \<leftarrow> upd_timer r1 t (\<lambda>x. x\<lparr>armed := False\<rparr>);
        Some (1, r)
      }) = Some (triggers current x, r\<lparr>tlinks := lk, timers := (timers r)(t \<mapsto> rearmed current x)\<rparr>)"
    "realm_inv (r\<lparr>tlinks := lk, timers := (timers r)(t \<mapsto> rearmed current x)\<rparr>) s ts
       (set (R @ repeated (timers r) [t]))"
    "seq lk rl (R @ repeated (timers r) [t])" "dom lk = dom (tlinks r)"
proof -
  let ?l = "sorted_timer s"
  have inv0: "realm_inv r s ([] @ t # ts) (set R)" using inv by simp
  obtain lk where lk: "list2_erase (tlinks r) t = Some (hd (ts @ [?l]), lk)"
    "realm_inv (r\<lparr>tlinks := lk\<rparr>) s ([] @ ts) (insert t (set R))" "detached lk t"
    "same_off (insert ?l (set ([] @ t # ts))) (tlinks r) lk" "dom lk = dom (tlinks r)"
    using inv0 by (rule realm_inv_erase)
  have wf: "timer_wf x" "armed x" using realm_invD(5) [OF inv, of t] x by auto
  have tR: "t \<notin> set R" "set ts \<inter> set R = {}" using realm_invD(7) [OF inv] by auto
  have lR: "?l \<notin> set R" "t \<noteq> ?l" "rl \<noteq> t" "rl \<notin> set ts"
    using realm_invD(5) [OF inv] realm_invD(9) [OF inv] rl x by fastforce+
  have same: "lk a = tlinks r a" if "a \<in> insert rl (set R)" for a
    using same_offD [OF lk(4), of a] that tR lR rl(2) by auto
  have qR: "seq lk rl R" using q seq_frame [OF same] by simp
  have er: "with_tlinks r (list2_erase (tlinks r) t) = Some (hd (ts @ [?l]), r\<lparr>tlinks := lk\<rparr>)"
    using lk(1) by (simp add: with_tlinks_def)
  show ?thesis
  proof (cases "trepeat x")
    case False
    then have re: "rearmed current x = x\<lparr>armed := False\<rparr>" "triggers current x = 1" "repeated (timers r) [t] = []"
      using x by (simp_all add: rearmed_def triggers_def repeated_def)
    have "realm_inv (r\<lparr>tlinks := lk, timers := (timers r)(t \<mapsto> rearmed current x)\<rparr>) s ts (set R)"
      using realm_inv_disarm [OF lk(2), of x] x tR lk(3) re by simp
    with False re show ?thesis
      by (intro that [OF er, of lk]) (use x qR lk(5) in \<open>simp_all add: upd_timer_def\<close>)
  next
    case True
    obtain tt where tt: "next_trigger x current = Some (triggers current x, tt)"
      "rearmed current x = x\<lparr>trigger_time := tt\<rparr>" "stamp_ok (2 ^ 33) tt"
      using wf(1) c le True cnt by (rule rearmed_repeat)
    have q1: "seq lk rl (R @ [])" "t \<notin> insert rl (set (R @ []))" using qR tR lR by auto
    obtain lk2 where lk2: "list2_insert lk (hd ([] @ [rl])) t = Some (t, lk2)" "seq lk2 rl (R @ t # [])"
      "same_off (insert t (insert rl (set (R @ [])))) lk lk2" "dom lk2 = dom lk"
      using q1(1) lk(3) q1(2) by (rule seq_insert)
    have same2: "lk2 a = lk a" if "a \<in> insert ?l (set ts)" for a
    proof -
      have "a \<noteq> t" "a \<noteq> rl" "a \<notin> set R"
        using that seq_distinct [OF realm_invD(3) [OF inv]] lR rl(2) tR(2) by auto
      then show ?thesis using same_offD [OF lk2(3), of a] by simp
    qed
    have q2: "seq lk2 ?l ts" using realm_invD(3) [OF lk(2)] seq_frame [OF same2] by simp
    have i2: "realm_inv (r\<lparr>tlinks := lk\<rparr>\<lparr>tlinks := lk2\<rparr>) s ts (insert t (set R))"
    proof (rule realm_inv_frame [OF lk(2) q2])
      show "same_off (insert t (insert rl (set R))) (tlinks (r\<lparr>tlinks := lk\<rparr>)) lk2" using lk2(3) by simp
      show "armed z" if "u \<in> insert t (insert rl (set R))" "timers (r\<lparr>tlinks := lk\<rparr>) u = Some z" for u z
        using realm_inv_armed [OF inv, of u z] that rl(1) by auto
    qed (use lk2(4) realm_invD(4,7) [OF lk(2)] in auto)
    have "realm_inv (r\<lparr>tlinks := lk2, timers := (timers r)(t \<mapsto> rearmed current x)\<rparr>) s ts (insert t (set R))"
      using realm_inv_retrigger [OF i2, of t x "rearmed current x"] x tt wf by (simp add: timer_wf_def)
    then show ?thesis
      by (intro that [OF er, of lk2])
        (use True x tt lk2 lk(5) in \<open>simp_all add: with_tlinks_def upd_timer_def list2_end_def repeated_def\<close>)
  qed
qed

lemma trig_upd_other: "u \<noteq> t \<Longrightarrow> trig (tm(t \<mapsto> x)) u = trig tm u"
  by (simp add: trig_def)

lemma due_cong: "(\<And>u. u \<in> set ts \<Longrightarrow> tm' u = tm u) \<Longrightarrow> due tm' c ts = due tm c ts"
  unfolding due_def by (rule takeWhile_cong) (auto simp: trig_def)

lemma pending_cong: "(\<And>u. u \<in> set ts \<Longrightarrow> tm' u = tm u) \<Longrightarrow> pending_timers tm' c ts = pending_timers tm c ts"
  unfolding pending_timers_def by (rule dropWhile_cong) (auto simp: trig_def)

lemma due_sub: "set (due tm c ts) \<subseteq> set ts"
  unfolding due_def by (meson set_takeWhileD subsetI)

lemma check_loop_ok:
  assumes cb: "\<And>i n d r. cb i n d r = Some r" and c: "stamp_ok (2 ^ 32) current"
  shows "realm_inv r s ts (set R) \<Longrightarrow> seq (tlinks r) rl R \<Longrightarrow> timers r rl = None \<Longrightarrow> rl \<noteq> sorted_timer s \<Longrightarrow>
    \<forall>t \<in> set (due (timers r) current ts). \<forall>x. timers r t = Some x \<longrightarrow> counted current x \<Longrightarrow>
    \<exists>lk. let r' = r\<lparr>tlinks := lk, timers := fire (timers r) current (due (timers r) current ts)\<rparr> in
      check_loop cb current rl (sorted_timer s) r (hd (ts @ [sorted_timer s])) calls =
        Some (calls @ map (call_of (timers r) current) (due (timers r) current ts), r') \<and>
      realm_inv r' s (pending_timers (timers r) current ts)
        (set (R @ repeated (timers r) (due (timers r) current ts))) \<and>
      seq lk rl (R @ repeated (timers r) (due (timers r) current ts)) \<and> dom lk = dom (tlinks r)"
proof (induction ts arbitrary: r R calls)
  case Nil
  then show ?case
    by (intro exI [of _ "tlinks r"], subst check_loop.simps)
      (simp add: due_def pending_timers_def repeated_def fire_def)
next
  case (Cons t ts)
  note inv = Cons.prems(1)
  let ?l = "sorted_timer s"
  obtain x where x: "timers r t = Some x" "timer_wf x" using realm_invD(5) [OF inv, of t] by auto
  have tn: "t \<noteq> ?l" "t \<notin> set ts" using seq_distinct [OF realm_invD(3) [OF inv]] by auto
  have cmp: "time_cmp (trigger_time x) current \<le> 0 \<longleftrightarrow> trig (timers r) t \<le> time_value current"
    using timer_cmp [OF x(2) c] x(1) by (simp add: trig_def)
  show ?case
  proof (cases "trig (timers r) t \<le> time_value current")
    case False
    then have d: "due (timers r) current (t # ts) = []" "pending_timers (timers r) current (t # ts) = t # ts"
      by (simp_all add: due_def pending_timers_def)
    have "check_loop cb current rl ?l r t calls = Some (calls, r)"
      using False cmp x(1) tn by (subst check_loop.simps) simp
    then show ?thesis unfolding d
      using Cons.prems by (intro exI [of _ "tlinks r"]) (simp add: repeated_def fire_def)
  next
    case True
    let ?tm = "(timers r)(t \<mapsto> rearmed current x)"
    have d: "due (timers r) current (t # ts) = t # due (timers r) current ts"
      "pending_timers (timers r) current (t # ts) = pending_timers (timers r) current ts"
      using True by (simp_all add: due_def pending_timers_def)
    have le: "time_value (trigger_time x) \<le> time_value current" using True x(1) by (simp add: trig_def)
    have cn: "counted current x" using Cons.prems(5) x(1) d by auto
    obtain r1 lk where st: "with_tlinks r (list2_erase (tlinks r) t) = Some (hd (ts @ [?l]), r1)"
      "(if trepeat x then do {
          (_, r) \<leftarrow> with_tlinks r1 (list2_insert (tlinks r1) (list2_end rl) t);
          (count, tt) \<leftarrow> next_trigger x current;
          r \<leftarrow> upd_timer r t (\<lambda>x. x\<lparr>trigger_time := tt\<rparr>);
          Some (count, r)
        } else do {
          r \<leftarrow> upd_timer r1 t (\<lambda>x. x\<lparr>armed := False\<rparr>);
          Some (1, r)
        }) = Some (triggers current x, r\<lparr>tlinks := lk, timers := ?tm\<rparr>)"
      "realm_inv (r\<lparr>tlinks := lk, timers := ?tm\<rparr>) s ts (set (R @ repeated (timers r) [t]))"
      "seq lk rl (R @ repeated (timers r) [t])" "dom lk = dom (tlinks r)"
      using inv Cons.prems(2-4) x(1) c le cn by (rule fire_step)
    let ?r2 = "r\<lparr>tlinks := lk, timers := ?tm\<rparr>" and ?cl = "calls @ [(callback x, triggers current x, tdata x)]"
    have step: "check_loop cb current rl ?l r t calls = check_loop cb current rl ?l ?r2 (hd (ts @ [?l])) ?cl"
      using tn(1) x(1) True cmp st(1,2) cb
      by (subst check_loop.simps) (simp add: Let_def del: fun_upd_apply)
    have tm: "?tm u = timers r u" if "u \<in> set ts" for u using that tn(2) by auto
    have du: "due ?tm current ts = due (timers r) current ts"
      "pending_timers ?tm current ts = pending_timers (timers r) current ts"
      using due_cong [of ts ?tm] pending_cong [of ts ?tm] tm by blast+
    have rl2: "?tm rl = None" using Cons.prems(3) x(1) by auto
    have sel: "timers ?r2 = ?tm" "tlinks ?r2 = lk" by simp_all
    have tmd: "?tm u = timers r u" if "u \<in> set (due (timers r) current ts)" for u
      using tm due_sub [of "timers r" current ts] that by blast
    have cnt: "\<forall>u \<in> set (due ?tm current ts). \<forall>y. ?tm u = Some y \<longrightarrow> counted current y"
      using Cons.prems(5) tmd unfolding du d by (metis list.set_intros(2))
    have rep: "repeated ?tm (due (timers r) current ts) = repeated (timers r) (due (timers r) current ts)"
      unfolding repeated_def by (rule filter_cong) (use tmd in simp_all)
    have cls: "map (call_of ?tm current) (due (timers r) current ts) = map (call_of (timers r) current) (due (timers r) current ts)"
      using tmd by (simp add: call_of_def)
    have fr: "fire ?tm current (due (timers r) current ts) = fire (timers r) current (due (timers r) current (t # ts))"
      unfolding d fire_def using tmd x(1) due_sub [of "timers r" current ts] tn(2) by (auto simp: fun_eq_iff)
    obtain lk' where IH: "let r' = ?r2\<lparr>tlinks := lk', timers := fire ?tm current (due ?tm current ts)\<rparr> in
      check_loop cb current rl ?l ?r2 (hd (ts @ [?l])) ?cl = Some (?cl @ map (call_of ?tm current) (due ?tm current ts), r') \<and>
      realm_inv r' s (pending_timers ?tm current ts)
        (set ((R @ repeated (timers r) [t]) @ repeated ?tm (due ?tm current ts))) \<and>
      seq lk' rl ((R @ repeated (timers r) [t]) @ repeated ?tm (due ?tm current ts)) \<and> dom lk' = dom lk"
      using Cons.IH [of ?r2 "R @ repeated (timers r) [t]" ?cl, unfolded sel, OF st(3,4) rl2 Cons.prems(4) cnt] by blast
    have ct: "call_of (timers r) current t = (callback x, triggers current x, tdata x)" using x(1) by (simp add: call_of_def)
    have rp: "repeated (timers r) (t # us) = repeated (timers r) [t] @ repeated (timers r) us" for us
      by (simp add: repeated_def)
    let ?D = "due (timers r) current ts" and ?F = "fire (timers r) current (due (timers r) current (t # ts))"
    let ?r3 = "r\<lparr>tlinks := lk', timers := ?F\<rparr>"
    have r3: "?r2\<lparr>tlinks := lk', timers := ?F\<rparr> = ?r3" by simp
    note IH' = IH [unfolded Let_def du rep cls fr r3]
    have "check_loop cb current rl ?l r (hd ((t # ts) @ [?l])) calls =
        Some (calls @ map (call_of (timers r) current) (t # ?D), ?r3)"
      using conjunct1 [OF IH'] step by (simp only: append_Cons list.sel ct list.map append_assoc append_Nil)
    moreover have "realm_inv ?r3 s (pending_timers (timers r) current ts) (set (R @ repeated (timers r) (t # ?D)))"
      "seq lk' rl (R @ repeated (timers r) (t # ?D))"
      using IH' unfolding rp [of ?D] append_assoc by blast+
    moreover have "dom lk' = dom (tlinks r)" using IH' st(5) by blast
    ultimately show ?thesis unfolding Let_def d by (intro exI [of _ lk'] conjI)
  qed
qed

definition tinserts :: "(addr \<Rightarrow> int) \<Rightarrow> addr list \<Rightarrow> addr list \<Rightarrow> addr list" where
  "tinserts f R ts = foldl (\<lambda>ts t. tinsert f t ts) ts R"

lemma set_tinserts [simp]: "set (tinserts f R ts) = set R \<union> set ts"
  by (induction R arbitrary: ts) (auto simp: tinserts_def)

lemma reinsert_loop_ok:
  "realm_inv r s ts (set R) \<Longrightarrow> seq (tlinks r) rl R \<Longrightarrow> timers r rl = None \<Longrightarrow> rl \<noteq> sorted_timer s \<Longrightarrow>
   \<exists>lk. reinsert_loop rl r (hd (R @ [rl])) = Some (r\<lparr>tlinks := lk\<rparr>) \<and>
     realm_inv (r\<lparr>tlinks := lk\<rparr>) s (tinserts (trig (timers r)) R ts) {} \<and> dom lk = dom (tlinks r)"
proof (induction R arbitrary: r ts)
  case Nil
  then show ?case by (intro exI [of _ "tlinks r"], subst reinsert_loop.simps) (simp add: tinserts_def)
next
  case (Cons t R)
  note inv = Cons.prems(1)
  let ?l = "sorted_timer s"
  have tR: "t \<noteq> rl" "t \<notin> set R" using seq_distinct [OF Cons.prems(2)] by auto
  have q: "seq (tlinks r) rl ([] @ t # R)" using Cons.prems(2) by simp
  obtain lk where lk: "list2_erase (tlinks r) t = Some (hd (R @ [rl]), lk)" "seq lk rl ([] @ R)" "detached lk t"
    "same_off (insert rl (set ([] @ t # R))) (tlinks r) lk" "dom lk = dom (tlinks r)"
    using q by (rule seq_erase)
  have dis: "set ts \<inter> set (t # R) = {}" by (rule realm_invD(7) [OF inv])
  have nr: "rl \<notin> set ts" "?l \<notin> set (t # R)"
    using realm_invD(5) [OF inv] realm_invD(9) [OF inv] Cons.prems(3) by fastforce+
  have same: "lk a = tlinks r a" if "a \<in> insert ?l (set ts)" for a
    using same_offD [OF lk(4), of a] that dis nr Cons.prems(4) by auto
  have ql: "seq lk ?l ts" using realm_invD(3) [OF inv] seq_frame [OF same] by simp
  have i1: "realm_inv (r\<lparr>tlinks := lk\<rparr>) s ts (insert t (set R))"
  proof (rule realm_inv_frame [OF inv ql lk(4,5)])
    show "armed x" if "u \<in> insert rl (set ([] @ t # R))" "timers r u = Some x" for u x
      using realm_inv_armed [OF inv, of u x] that Cons.prems(3) by auto
  qed (use realm_invD(4,7) [OF inv] in auto)
  have det: "detached (tlinks (r\<lparr>tlinks := lk\<rparr>)) t" using lk(3) by simp
  obtain lk2 f where lk2: "time_realm_insert_timer (r\<lparr>tlinks := lk\<rparr>) t = Some (f, r\<lparr>tlinks := lk\<rparr>\<lparr>tlinks := lk2\<rparr>)"
    "realm_inv (r\<lparr>tlinks := lk\<rparr>\<lparr>tlinks := lk2\<rparr>) s (tinsert (trig (timers (r\<lparr>tlinks := lk\<rparr>))) t ts) (set R)"
    "same_off (insert t (insert ?l (set ts))) (tlinks (r\<lparr>tlinks := lk\<rparr>)) lk2" "dom lk2 = dom (tlinks (r\<lparr>tlinks := lk\<rparr>))"
    using i1 tR(2) det by (rule realm_inv_insert)
  have same2: "lk2 a = lk a" if "a \<in> insert rl (set R)" for a
    using same_offD [OF lk2(3), of a] that dis nr Cons.prems(4) tR by auto
  have q2: "seq lk2 rl R" using lk(2) seq_frame [OF same2] by simp
  let ?r2 = "r\<lparr>tlinks := lk2\<rparr>"
  have i2: "realm_inv ?r2 s (tinsert (trig (timers r)) t ts) (set R)" using lk2(2) by simp
  have "reinsert_loop rl r t = reinsert_loop rl ?r2 (hd (R @ [rl]))"
    using tR(1) lk(1) lk2(1) by (subst reinsert_loop.simps) (simp add: with_tlinks_def)
  moreover obtain lk3 where "reinsert_loop rl ?r2 (hd (R @ [rl])) = Some (?r2\<lparr>tlinks := lk3\<rparr>)"
    "realm_inv (?r2\<lparr>tlinks := lk3\<rparr>) s (tinserts (trig (timers ?r2)) R (tinsert (trig (timers r)) t ts)) {}"
    "dom lk3 = dom (tlinks ?r2)"
    using Cons.IH [OF i2] q2 Cons.prems(3,4) by auto
  ultimately show ?case
    using lk(5) lk2(4) by (intro exI [of _ lk3]) (simp add: tinserts_def)
qed

lemma realm_inv_unlink:
  assumes inv: "realm_inv r s ts {}" and a: "timers r a = None" "a \<noteq> sorted_timer s"
  shows "realm_inv (r\<lparr>tlinks := (tlinks r)(a := None)\<rparr>) s ts {}"
  unfolding realm_inv_def
proof (intro conjI allI impI)
  let ?r = "r\<lparr>tlinks := (tlinks r)(a := None)\<rparr>"
  have nin: "a \<notin> set ts" using realm_invD(5) [OF inv, of a] a(1) by auto
  have "seq (tlinks ?r) (sorted_timer s) ts = seq (tlinks r) (sorted_timer s) ts"
    by (rule seq_frame) (use nin a(2) in auto)
  then show "seq (tlinks ?r) (sorted_timer s) ts" using realm_invD(3) [OF inv] by blast
  show "t \<in> set ts \<union> {} \<longleftrightarrow> (\<exists>x. timers ?r t = Some x \<and> armed x)" for t
    using realm_invD(5) [OF inv, of t] realm_invD(6) [OF inv, of t] by auto
  show "detached (tlinks ?r) t" if "timers ?r t = Some x" "\<not> armed x" for t x
    using realm_invD(8) [OF inv, of t x] that a(1) by (auto simp: detached_def)
  show "timer_wf x" if "timers ?r t = Some x" "armed x" for t x
    using realm_invD(5) [OF inv, of t] realm_invD(6) [OF inv, of t x] that by auto
qed (use realm_invD(1,2,4,9,10) [OF inv] in auto)

lemma realm_inv_init:
  assumes inv: "realm_inv r s ts {}" and a: "a = tfresh r"
  shows "realm_inv (r\<lparr>tfresh := a + 1, tlinks := list2_init (tlinks r) a\<rparr>) s ts {}"
    "seq (list2_init (tlinks r) a) a []" "timers r a = None" "a \<noteq> sorted_timer s"
proof -
  have nd: "a \<notin> dom (tlinks r)" using realm_invD(10) [OF inv, of a] a by auto
  have sd: "insert (sorted_timer s) (set ts) \<subseteq> dom (tlinks r)" by (rule seq_dom [OF realm_invD(3) [OF inv]])
  show ta: "timers r a = None"
  proof (cases "timers r a")
    case (Some x)
    then have "a \<in> dom (tlinks r)"
      using realm_invD(6) [OF inv Some] realm_invD(8) [OF inv Some] sd by (cases "armed x") (auto simp: detached_def)
    then show ?thesis using nd by blast
  qed
  show as: "a \<noteq> sorted_timer s" using sd nd by auto
  have a0: "0 < a"
    using realm_invD(10) [OF inv, of "sorted_timer s"] sd a by auto
  show "seq (list2_init (tlinks r) a) a []" using circ_init [of a "tlinks r"] a0 by (simp add: seq_def)
  show "realm_inv (r\<lparr>tfresh := a + 1, tlinks := list2_init (tlinks r) a\<rparr>) s ts {}"
    unfolding realm_inv_def
  proof (intro conjI allI impI)
    let ?r = "r\<lparr>tfresh := a + 1, tlinks := list2_init (tlinks r) a\<rparr>"
    have "seq (tlinks ?r) (sorted_timer s) ts = seq (tlinks r) (sorted_timer s) ts"
      by (rule seq_frame) (use sd nd in \<open>auto simp: list2_init_def\<close>)
    then show "seq (tlinks ?r) (sorted_timer s) ts" using realm_invD(3) [OF inv] by blast
    show "t \<in> set ts \<union> {} \<longleftrightarrow> (\<exists>x. timers ?r t = Some x \<and> armed x)" for t
      using realm_invD(5) [OF inv, of t] realm_invD(6) [OF inv, of t] by auto
    show "detached (tlinks ?r) t" if "timers ?r t = Some x" "\<not> armed x" for t x
      using realm_invD(8) [OF inv, of t x] that ta by (auto simp: detached_def list2_init_def)
    show "timer_wf x" if "timers ?r t = Some x" "armed x" for t x
      using realm_invD(5) [OF inv, of t] realm_invD(6) [OF inv, of t x] that by auto
    show "\<forall>b \<in> dom (tlinks ?r). 0 < b \<and> b < tfresh ?r"
      using realm_invD(10) [OF inv] a a0 by (fastforce simp: list2_init_def)
  qed (use realm_invD(1,2,4,9) [OF inv] in auto)
qed

lemma realm_inv_state:
  assumes "realm_inv r s ts E" "stamp_ok (2 ^ 32) (rtime s')" "sorted_timer s' = sorted_timer s"
  shows "realm_inv (r\<lparr>states := Some s'\<rparr>) s' ts E"
  using assms unfolding realm_inv_def by simp

lemma realm_check_ok:
  assumes cb: "\<And>i n d r. cb i n d r = Some r" and inv: "realm_inv r s ts {}" and m: "mode r = TIME_REALM_STATIC"
    and cn: "\<forall>t \<in> set (due (timers r) (rtime s) ts). \<forall>x. timers r t = Some x \<longrightarrow> counted (rtime s) x"
  defines "D \<equiv> due (timers r) (rtime s) ts" and "tm \<equiv> fire (timers r) (rtime s) (due (timers r) (rtime s) ts)"
  obtains r' where "realm_check cb r = Some (True, map (call_of (timers r) (rtime s)) D, r')"
    "realm_inv r' (s\<lparr>check_timer := False\<rparr>)
       (tinserts (trig tm) (repeated (timers r) D) (pending_timers (timers r) (rtime s) ts)) {}"
    "timers r' = tm" "mode r' = TIME_REALM_STATIC"
proof -
  let ?s = "s\<lparr>check_timer := False\<rparr>" and ?c = "rtime s" and ?l = "sorted_timer s"
  let ?r0 = "r\<lparr>states := Some ?s\<rparr>"
  have s: "states r = Some s" "stamp_ok (2 ^ 32) ?c" by (rule realm_invD [OF inv])+
  have i0: "realm_inv ?r0 ?s ts {}" by (rule realm_inv_state [OF inv]) (use s in simp_all)
  have cur: "current_time r = Some (?c, r)" by (rule current_static [OF m s(1)])
  have bg: "list2_begin (tlinks r) ?l = Some (hd (ts @ [?l]))" by (rule seq_begin [OF realm_invD(3) [OF inv]])
  have us: "upd_state r (\<lambda>s. s\<lparr>check_timer := False\<rparr>) = Some ?r0" using s(1) by (simp add: upd_state_def)
  show ?thesis
  proof (cases "ts = []")
    case True
    then have e: "D = []" "tm = timers r" "pending_timers (timers r) ?c ts = []"
      by (simp_all add: D_def tm_def due_def fire_def pending_timers_def)
    have "realm_check cb r = Some (True, [], ?r0)"
      using cur s(1) bg us True by (simp add: realm_check_def list2_end_def)
    then show ?thesis
      by (intro that [of ?r0]) (use i0 e True m in \<open>simp_all add: tinserts_def repeated_def\<close>)
  next
    case False
    define rl where "rl = tfresh ?r0"
    let ?r1 = "?r0\<lparr>tfresh := rl + 1, tlinks := list2_init (tlinks r) rl\<rparr>"
    have ini: "realm_inv ?r1 ?s ts {}" "seq (tlinks ?r1) rl []" "timers ?r1 rl = None" "rl \<noteq> ?l"
      using realm_inv_init [OF i0 rl_def] by simp_all
    have tml: "timers ?r1 = timers r" by simp
    have cn1: "\<forall>t \<in> set (due (timers ?r1) ?c ts). \<forall>x. timers ?r1 t = Some x \<longrightarrow> counted ?c x" using cn by simp
    have ini': "realm_inv ?r1 ?s ts (set [])" "rl \<noteq> sorted_timer ?s" using ini by simp_all
    let ?R = "repeated (timers r) D" and ?P = "pending_timers (timers r) ?c ts"
    let ?K = "map (call_of (timers r) ?c) D"
    obtain lk where lk: "check_loop cb ?c rl (sorted_timer ?s) ?r1 (hd (ts @ [sorted_timer ?s])) [] =
        Some ([] @ ?K, ?r1\<lparr>tlinks := lk, timers := tm\<rparr>)"
      "realm_inv (?r1\<lparr>tlinks := lk, timers := tm\<rparr>) ?s ?P (set ([] @ ?R))" "seq lk rl ([] @ ?R)"
      using check_loop_ok [where cb = cb and calls = "[]", OF cb s(2) ini'(1) ini(2,3) ini'(2) cn1]
      unfolding Let_def tml D_def tm_def by blast
    let ?r2 = "?r1\<lparr>tlinks := lk, timers := tm\<rparr>"
    have i2: "realm_inv ?r2 ?s ?P (set ?R)" "seq (tlinks ?r2) rl ?R" using lk(2,3) by simp_all
    have t2: "timers ?r2 rl = None"
      using ini(3) by (auto simp: tm_def fire_def)
    obtain lk3 where lk3: "reinsert_loop rl ?r2 (hd (?R @ [rl])) = Some (?r2\<lparr>tlinks := lk3\<rparr>)"
      "realm_inv (?r2\<lparr>tlinks := lk3\<rparr>) ?s (tinserts (trig (timers ?r2)) ?R ?P) {}"
      using reinsert_loop_ok [OF i2 t2 ini'(2)] by blast
    let ?r3 = "?r2\<lparr>tlinks := lk3\<rparr>\<lparr>tlinks := (tlinks (?r2\<lparr>tlinks := lk3\<rparr>))(rl := None)\<rparr>"
    have i3: "realm_inv ?r3 ?s (tinserts (trig tm) ?R ?P) {}"
      using realm_inv_unlink [OF lk3(2), of rl] t2 ini'(2) by simp
    have m3: "mode ?r3 = TIME_REALM_STATIC" "timers ?r3 = tm" using m by simp_all
    have up: "time_realm_update_timer_list ?r3 u = Some (True, ?r3)" for u by (rule update_static [OF i3 m3(1)])
    have b2: "list2_begin (tlinks ?r2) rl = Some (hd (?R @ [rl]))" by (rule seq_begin [OF i2(2)])
    have ne: "hd (ts @ [?l]) \<noteq> ?l"
      using False seq_distinct [OF realm_invD(3) [OF inv]] by (cases ts) auto
    have "realm_check cb r = Some (True, ?K, ?r3)"
      using cur s(1) bg us ne lk(1) b2 lk3(1) up rl_def
      by (simp add: realm_check_def list2_end_def Let_def)
    then show ?thesis by (rule that [OF _ i3 m3(2,1)])
  qed
qed

lemma remove1_tinsert: "t \<notin> set ts \<Longrightarrow> remove1 t (tinsert f t ts) = ts"
  using takeWhile_dropWhile_id [of "\<lambda>u. f u \<le> f t" ts] set_takeWhileD [of t "\<lambda>u. f u \<le> f t" ts]
  by (auto simp: tinsert_def remove1_append)

section \<open>Properties\<close>

text \<open>A realm at 5 s with a timer due at 10 s, a timer due at 11 s and then every 2 s, and a free timer.\<close>

abbreviation sec :: "int \<Rightarrow> timestamp" where
  "sec n \<equiv> \<lparr>secs = n, nsecs = 0\<rparr>"

definition sample_realm :: time_realm where
  "sample_realm = \<lparr>mode = TIME_REALM_STATIC,
     states = Some \<lparr>rtime = sec 5, sorted_timer = 1, check_timer = False\<rparr>, tlinks = sample_links,
     timers = Map.empty(
       2 \<mapsto> \<lparr>armed = True, trepeat = False, trigger_time = sec 10, delay = sec 5, callback = 100, tdata = 200\<rparr>,
       3 \<mapsto> \<lparr>armed = True, trepeat = True, trigger_time = sec 11, delay = sec 2, callback = 101, tdata = 201\<rparr>,
       4 \<mapsto> \<lparr>armed = False, trepeat = False, trigger_time = sec 0, delay = sec 0, callback = 102, tdata = 202\<rparr>),
     tfresh = 7, tbudget = 0, clock = (\<lambda>_. None), ticks = 0, timer_create_ok = True, timer_settime_ok = True,
     programmed = None, terrs = error_init\<rparr>"

lemma sample_realm_inv:
  "realm_inv sample_realm \<lparr>rtime = sec 5, sorted_timer = 1, check_timer = False\<rparr> [2, 3] {}"
  unfolding realm_inv_def
proof (intro conjI)
  show "seq (tlinks sample_realm) (sorted_timer \<lparr>rtime = sec 5, sorted_timer = 1, check_timer = False\<rparr>) [2, 3]"
    using sample_links_seqs(1) by (simp add: sample_realm_def)
  show "\<forall>t x. timers sample_realm t = Some x \<longrightarrow> \<not> armed x \<longrightarrow> detached (tlinks sample_realm) t"
    using sample_links_seqs(3) by (auto simp: sample_realm_def split: if_splits)
  show "\<forall>a \<in> dom (tlinks sample_realm). 0 < a \<and> a < tfresh sample_realm"
    by (auto simp: sample_realm_def sample_links_def split: if_splits)
qed (auto simp: sample_realm_def stamp_ok_def timer_wf_def time_value_def SEC_TO_NSEC_def trig_def split: if_splits)

text \<open>
  C26. Starting a timer of a static realm (with a delay that is not empty) stops it first if it was
  armed and puts it at its place in the list, which stays sorted, behind the timers that trigger at
  the same time; it triggers after exactly the delay.  Stopping it removes it again and keeps the
  order of the others.
\<close>

theorem timer_start_stop:
  assumes "realm_inv r s ts {}" "mode r = TIME_REALM_STATIC" "timers r t = Some x"
    and "stamp_ok (2 ^ 32) d" "0 < time_value d"
  shows "\<exists>r' r''. timer_start r t d rep = Some (True, r') \<and>
    realm_inv r' s (tinsert (trig (timers r')) t (remove1 t ts)) {} \<and>
    trig (timers r') t = time_value (rtime s) + time_value d \<and> (\<forall>u. u \<noteq> t \<longrightarrow> timers r' u = timers r u) \<and>
    timer_stop r' t = Some (True, r'') \<and> realm_inv r'' s (remove1 t ts) {}"
proof -
  obtain r' tt where r: "timer_start r t d rep = Some (True, r')"
    "time_value tt = time_value (rtime s) + time_value d"
    "timers r' = (timers r)(t \<mapsto> x\<lparr>delay := d, trigger_time := tt, armed := True, trepeat := rep\<rparr>)"
    "realm_inv r' s (tinsert (trig (timers r')) t (remove1 t ts)) {}" "mode r' = mode r"
    using assms by (rule timer_start_ok)
  have m: "mode r' = TIME_REALM_STATIC" using r(5) assms(2) by simp
  have t': "timers r' t = Some (x\<lparr>delay := d, trigger_time := tt, armed := True, trepeat := rep\<rparr>)" using r(3) by simp
  have dis: "distinct ts" using seq_distinct [OF realm_invD(3) [OF assms(1)]] by simp
  then have "remove1 t (tinsert (trig (timers r')) t (remove1 t ts)) = remove1 t ts"
    by (intro remove1_tinsert) simp
  moreover obtain r'' where "timer_stop r' t = Some (True, r'')"
    "realm_inv r'' s (remove1 t (tinsert (trig (timers r')) t (remove1 t ts))) {}"
    by (rule timer_stop_ok [OF r(4) m t']) auto
  moreover have "trig (timers r') t = time_value (rtime s) + time_value d" using t' r(2) by (simp add: trig_def)
  ultimately show ?thesis using r(1,3,4) by auto
qed

theorem timer_start_stop_witness:
  "\<exists>r' r''. timer_start sample_realm 4 (sec 6) True = Some (True, r') \<and>
     trig (timers r') 4 = 11000000000 \<and> timer_stop r' 4 = Some (True, r'')"
  using timer_start_stop [OF sample_realm_inv, of 4 _ "sec 6" True]
  by (auto simp: sample_realm_def stamp_ok_def time_value_def SEC_TO_NSEC_def)

text \<open>
  C3. When the time of a static realm advances, exactly the timers that are due trigger, in the order
  of their trigger times: a timer that is not repeated once, and is then disarmed; a repeated timer
  once per missed period, and its next trigger is the first one after the new time.  Afterwards the list
  is sorted again and every armed timer is in the future.  (The callbacks leave the realm alone, and no
  timer has missed more than \<open>INT_MAX\<close> periods.)
\<close>

theorem time_realm_fires:
  assumes "\<And>i n d r. cb i n d r = Some r" "realm_inv r s ts {}" "mode r = TIME_REALM_STATIC"
    and "stamp_ok (2 ^ 32) v" "time_value (rtime s) \<le> time_value v"
    and "\<forall>t \<in> set (due (timers r) v ts). \<forall>x. timers r t = Some x \<longrightarrow> counted v x"
  shows "\<exists>r' us. time_realm_update_and_check cb r v =
      Some (map (call_of (timers r) v) (due (timers r) v ts), r') \<and>
    timers r' = fire (timers r) v (due (timers r) v ts) \<and>
    realm_inv r' (s\<lparr>rtime := v, check_timer := False\<rparr>) us {} \<and>
    set us = set (repeated (timers r) (due (timers r) v ts)) \<union> set (pending_timers (timers r) v ts) \<and>
    (\<forall>t \<in> set us. time_value v < trig (timers r') t)"
proof -
  let ?s = "s\<lparr>rtime := v, check_timer := True\<rparr>" and ?D = "due (timers r) v ts"
  let ?r = "r\<lparr>states := Some ?s\<rparr>"
  note inv = assms(2)
  have i1: "realm_inv ?r ?s ts {}" by (rule realm_inv_state [OF inv]) (use assms(4) in simp_all)
  have "time_cmp v (rtime s) \<ge> 0"
    using time_cmp_value [OF stamp_ok_wf [OF assms(4)] stamp_ok_wf [OF realm_invD(2) [OF inv]]] assms(5)
    by (simp add: sgn_if)
  then have up: "time_realm_update_and_check cb r v = do { (_, calls, r) \<leftarrow> realm_check cb ?r; Some (calls, r) }"
    using get_state_ok [OF inv] assms(3) realm_invD(1) [OF inv]
    by (simp add: time_realm_update_and_check_def upd_state_def)
  have cn: "\<forall>t \<in> set (due (timers ?r) (rtime ?s) ts). \<forall>x. timers ?r t = Some x \<longrightarrow> counted (rtime ?s) x"
    using assms(6) by simp
  let ?us = "tinserts (trig (fire (timers r) v ?D)) (repeated (timers r) ?D) (pending_timers (timers r) v ts)"
  obtain r' where r': "realm_check cb ?r = Some (True, map (call_of (timers r) v) ?D, r')"
    "realm_inv r' (?s\<lparr>check_timer := False\<rparr>) ?us {}" "timers r' = fire (timers r) v ?D"
    by (rule realm_check_ok [OF assms(1) i1 _ cn]) (use assms(3) in auto)
  have fut: "time_value v < trig (timers r') t" if t: "t \<in> set ?us" for t
  proof (cases "t \<in> set ?D")
    case True
    have "t \<in> set ts" using True due_sub by blast
    then obtain x where x: "timers r t = Some x" "timer_wf x" using realm_invD(5) [OF inv, of t] by auto
    have "trig (timers r) t \<le> time_value v" using True set_takeWhileD unfolding due_def by fastforce
    then have le: "time_value (trigger_time x) \<le> time_value v" using x(1) by (simp add: trig_def)
    have "t \<notin> set (pending_timers (timers r) v ts)"
      using dropWhile_gt [OF realm_invD(4) [OF inv], of t "time_value v"] \<open>trig (timers r) t \<le> time_value v\<close>
      unfolding pending_timers_def by force
    then have "trepeat x" using t x(1) by (auto simp: repeated_def)
    moreover have "counted v x" using assms(6) True x(1) by blast
    ultimately obtain tt where "rearmed v x = x\<lparr>trigger_time := tt\<rparr>" "time_value v < time_value tt"
      using x(2) assms(4) le by (metis rearmed_repeat)
    then show ?thesis using True x(1) r'(3) by (simp add: trig_def fire_def)
  next
    case False
    then have "t \<in> set (pending_timers (timers r) v ts)" using t by (auto simp: repeated_def)
    then have "time_value v < trig (timers r) t"
      using dropWhile_gt [OF realm_invD(4) [OF inv], of t "time_value v"] unfolding pending_timers_def by blast
    then show ?thesis using False r'(3) by (simp add: trig_def fire_def)
  qed
  have fin: "time_realm_update_and_check cb r v = Some (map (call_of (timers r) v) ?D, r')" using up r'(1) by simp
  show ?thesis
    by (intro exI [of _ r'] exI [of _ ?us] conjI) (use fin r'(2,3) fut in \<open>simp_all\<close>)
qed

theorem time_realm_fires_witness:
  "\<exists>r'. time_realm_update_and_check (\<lambda>_ _ _ r. Some r) sample_realm (sec 16) =
     Some ([(100, 1, 200), (101, 3, 201)], r')"
proof -
  have d: "due (timers sample_realm) (sec 16) [2, 3] = [2, 3]"
    by (simp add: due_def trig_def sample_realm_def time_value_def SEC_TO_NSEC_def)
  have c: "map (call_of (timers sample_realm) (sec 16)) [2, 3] = [(100, 1, 200), (101, 3, 201)]"
    by (simp add: call_of_def sample_realm_def triggers_def time_value_def SEC_TO_NSEC_def)
  have "\<forall>t \<in> set (due (timers sample_realm) (sec 16) [2, 3]). \<forall>x. timers sample_realm t = Some x \<longrightarrow> counted (sec 16) x"
    unfolding d by (auto simp: sample_realm_def counted_def triggers_def time_value_def SEC_TO_NSEC_def)
  then show ?thesis
    using time_realm_fires [of "\<lambda>_ _ _ r. Some r", OF refl sample_realm_inv, of "sec 16"] unfolding d c
    by (auto simp: sample_realm_def stamp_ok_def time_value_def SEC_TO_NSEC_def)
qed

text \<open>
  C27. The loop that triggers the timers keeps the position of the next timer while it runs a callback:
  a callback that stops the next timer, when this one is due too, makes the loop dereference the null
  link of the timer that has left the list.
\<close>

theorem callback_stops_next:
  assumes "realm_inv r s (t # u # ts) {}" "mode r = TIME_REALM_STATIC"
    and "timers r t = Some x" "timers r u = Some y" "\<not> trepeat x"
    and "trig (timers r) t \<le> time_value (rtime s)" "trig (timers r) u \<le> time_value (rtime s)"
  shows "realm_check (\<lambda>_ _ _ r. map_option snd (timer_stop r u)) r = None"
proof -
  let ?cb = "\<lambda>_ _ _ r. map_option snd (timer_stop r u)" and ?s = "s\<lparr>check_timer := False\<rparr>"
  let ?l = "sorted_timer s" and ?r0 = "r\<lparr>states := Some (s\<lparr>check_timer := False\<rparr>)\<rparr>"
  note inv = assms(1)
  have s: "states r = Some s" "stamp_ok (2 ^ 32) (rtime s)" by (rule realm_invD [OF inv])+
  have i0: "realm_inv ?r0 ?s (t # u # ts) {}" by (rule realm_inv_state [OF inv]) (use s in simp_all)
  define rl where "rl = tfresh ?r0"
  let ?r1 = "?r0\<lparr>tfresh := rl + 1, tlinks := list2_init (tlinks r) rl\<rparr>"
  have ini: "realm_inv ?r1 ?s (t # u # ts) (set [])" "seq (tlinks ?r1) rl []" "timers ?r1 rl = None" "rl \<noteq> sorted_timer ?s"
    using realm_inv_init [OF i0 rl_def] by simp_all
  have x1: "timers ?r1 t = Some x" using assms(3) by simp
  have le: "time_value (trigger_time x) \<le> time_value (rtime s)" "time_value (trigger_time y) \<le> time_value (rtime s)"
    using assms(3,4,6,7) by (simp_all add: trig_def)
  have cn: "counted (rtime s) x" using assms(5) by (simp add: counted_def triggers_def)
  have rx: "rearmed (rtime s) x = x\<lparr>armed := False\<rparr>" "triggers (rtime s) x = 1" "repeated (timers ?r1) [t] = []"
    using assms(5) x1 by (simp_all add: rearmed_def triggers_def repeated_def)
  let ?r2 = "\<lambda>lk. ?r1\<lparr>tlinks := lk, timers := (timers ?r1)(t \<mapsto> rearmed (rtime s) x)\<rparr>"
  obtain ra lk where st: "with_tlinks ?r1 (list2_erase (tlinks ?r1) t) = Some (hd ((u # ts) @ [sorted_timer ?s]), ra)"
    "(if trepeat x then do {
        (_, r) \<leftarrow> with_tlinks ra (list2_insert (tlinks ra) (list2_end rl) t);
        (count, tt) \<leftarrow> next_trigger x (rtime s);
        r \<leftarrow> upd_timer r t (\<lambda>x. x\<lparr>trigger_time := tt\<rparr>);
        Some (count, r)
      } else do {
        r \<leftarrow> upd_timer ra t (\<lambda>x. x\<lparr>armed := False\<rparr>);
        Some (1, r)
      }) = Some (triggers (rtime s) x, ?r2 lk)"
    "realm_inv (?r2 lk) ?s (u # ts) (set ([] @ repeated (timers ?r1) [t]))"
    using ini x1 s(2) le(1) cn by (rule fire_step)
  have ut: "u \<noteq> t" "t \<noteq> ?l" "u \<noteq> ?l" using seq_distinct [OF realm_invD(3) [OF inv]] by auto
  have wf: "timer_wf x" "timer_wf y"
    using realm_invD(5) [OF inv, of t] realm_invD(5) [OF inv, of u] assms(3,4) by auto
  have i2: "realm_inv (?r2 lk) ?s (u # ts) {}" using st(3) rx(3) by simp
  have u2: "timers (?r2 lk) u = Some y" using assms(4) ut by simp
  obtain lk' where stop: "timer_stop (?r2 lk) u =
      Some (armed y, ?r2 lk\<lparr>tlinks := lk', timers := (timers (?r2 lk))(u \<mapsto> y\<lparr>armed := False\<rparr>)\<rparr>)"
    "realm_inv (?r2 lk\<lparr>tlinks := lk', timers := (timers (?r2 lk))(u \<mapsto> y\<lparr>armed := False\<rparr>)\<rparr>) ?s (remove1 u (u # ts)) {}"
    by (rule timer_stop_ok [OF i2 _ u2]) (use assms(2) in auto)
  let ?r3 = "?r2 lk\<lparr>tlinks := lk', timers := (timers (?r2 lk))(u \<mapsto> y\<lparr>armed := False\<rparr>)\<rparr>"
  have "detached lk' u" using realm_invD(8) [OF stop(2), of u "y\<lparr>armed := False\<rparr>"] by simp
  moreover have "lk' 0 = None" using realm_invD(10) [OF stop(2), of 0] by (cases "lk' 0") (auto simp: dom_def)
  ultimately have er: "list2_erase (tlinks ?r3) u = None"
    by (simp add: list2_erase_def list2_next_def list2_prev_def detached_def set_prev_def)
  have cmp: "time_cmp (trigger_time x) (rtime s) \<le> 0" "time_cmp (trigger_time y) (rtime s) \<le> 0"
    using timer_cmp [OF _ s(2)] wf le by blast+
  have "check_loop ?cb (rtime s) rl ?l ?r3 u cl = None" for cl
    using ut cmp(2) er by (subst check_loop.simps) (simp add: with_tlinks_def)
  moreover have "check_loop ?cb (rtime s) rl ?l ?r1 t [] = check_loop ?cb (rtime s) rl ?l ?r3 u ([] @ [(callback x, 1, tdata x)])"
    using ut x1 cmp(1) st(1,2) stop(1) rx(2)
    by (subst check_loop.simps) (simp add: Let_def)
  ultimately have lp: "check_loop ?cb (rtime s) rl ?l ?r1 t [] = None" by simp
  have "list2_begin (tlinks r) ?l = Some t" using seq_begin [OF realm_invD(3) [OF inv]] by simp
  then show ?thesis
    using current_static [OF assms(2) s(1)] s(1) lp ut rl_def
    by (simp add: realm_check_def upd_state_def list2_end_def Let_def)
qed

theorem callback_stops_next_witness:
  "realm_check (\<lambda>_ _ _ r. map_option snd (timer_stop r 3))
     (sample_realm\<lparr>states := Some \<lparr>rtime = sec 16, sorted_timer = 1, check_timer = True\<rparr>\<rparr>) = None"
proof -
  let ?s = "\<lparr>rtime = sec 16, sorted_timer = 1, check_timer = True\<rparr>"
  have i: "realm_inv (sample_realm\<lparr>states := Some ?s\<rparr>) ?s (2 # 3 # []) {}"
    using realm_inv_state [OF sample_realm_inv, of ?s] by (simp add: stamp_ok_def SEC_TO_NSEC_def)
  have x: "timers (sample_realm\<lparr>states := Some ?s\<rparr>) 2 =
      Some \<lparr>armed = True, trepeat = False, trigger_time = sec 10, delay = sec 5, callback = 100, tdata = 200\<rparr>"
    and y: "timers (sample_realm\<lparr>states := Some ?s\<rparr>) 3 =
      Some \<lparr>armed = True, trepeat = True, trigger_time = sec 11, delay = sec 2, callback = 101, tdata = 201\<rparr>"
    by (simp_all add: sample_realm_def)
  show ?thesis
    by (rule callback_stops_next [OF i _ x y])
      (simp_all add: sample_realm_def trig_def time_value_def SEC_TO_NSEC_def)
qed

end
