(* ===== verification/Inet_Checksum.thy ===== *)
theory Inet_Checksum
  imports VBuffer_Sub
begin

text \<open>
  The Internet checksum of RFC 1071 (\<open>modules/protocol/ipv4/ipv4.c\<close>, from \<open>checksum_partial_init\<close> to
  \<open>inet_checksum_vbuffer\<close>): the sum of 16-bit words over a sequence of memory pieces, whatever their lengths
  and alignment, on a little-endian host.

  The sums are those of \<open>int\<close>; an overflow is \<open>None\<close>, as is a read behind the piece.  A piece is given by its
  bytes and by whether its address is odd.  The lemmas show that the result depends on the bytes only: it is the
  one's complement of the one's complement sum of the words of the concatenated pieces.
\<close>

unbundle bit_operations_syntax

section \<open>Definitions\<close>

record checksum_partial =
  cs_odd :: bool
  cs_leftover :: u8
  cs_csum :: int

definition checksum_partial_init :: checksum_partial where
  "checksum_partial_init = \<lparr>cs_odd = False, cs_leftover = 0, cs_csum = 0\<rparr>"

text \<open>The type \<open>swap_util_t\<close>: two bytes read as a word.\<close>

definition swap_util :: "u8 \<Rightarrow> u8 \<Rightarrow> int" where
  "swap_util a b = uint a + 256 * uint b"

text \<open>The macros \<open>ADD_CARRY\<close> and \<open>REDUCE\<close>.\<close>

definition ADD_CARRY :: "int \<Rightarrow> int" where
  "ADD_CARRY x = (if x > 65535 then x - 65535 else x)"

definition REDUCE :: "int \<Rightarrow> int" where
  "REDUCE sm = (let l = sm mod 2 ^ 32 in ADD_CARRY (l mod 2 ^ 16 + l div 2 ^ 16))"

definition checked_s32 :: "int \<Rightarrow> int option" where
  "checked_s32 x = (if - (2 ^ 31) \<le> x \<and> x < 2 ^ 31 then Some x else None)"

fun add_words :: "nat \<Rightarrow> u8 list \<Rightarrow> int \<Rightarrow> int option" where
  "add_words 0 w sm = Some sm"
| "add_words (Suc n) (a # b # w) sm = do { sm \<leftarrow> checked_s32 (sm + swap_util a b); add_words n w sm }"
| "add_words (Suc n) w sm = None"

text \<open>A loop that takes \<open>n\<close> bytes per round as long as there are \<open>n\<close> bytes.\<close>

fun sum_blocks :: "nat \<Rightarrow> u8 list \<Rightarrow> int \<Rightarrow> (u8 list \<times> int) option" where
  "sum_blocks n w sm =
     (if n = 0 \<or> length w < n then Some (w, sm)
      else do { sm \<leftarrow> add_words (n div 2) w sm; sum_blocks n (drop n w) sm })"

declare sum_blocks.simps [simp del]

text \<open>The part of \<open>inet_checksum_partial\<close> after the pending byte, which is the first byte of \<open>ptr\<close> in the second case.\<close>

definition checksum_tail :: "checksum_partial \<Rightarrow> int \<Rightarrow> bool \<Rightarrow> u8 list \<Rightarrow> checksum_partial option" where
  "checksum_tail c sm odd_ptr ptr = do {
     let byte_swapped = (odd_ptr \<and> ptr \<noteq> []);
     let first = (if byte_swapped then hd ptr else 0);
     (sm, w) \<leftarrow> (if byte_swapped then do {
         sm \<leftarrow> checked_s32 (REDUCE sm * 256);
         Some (sm, tl ptr)
       } else Some (sm, ptr));
     (w, sm) \<leftarrow> sum_blocks 32 w sm;
     (w, sm) \<leftarrow> sum_blocks 8 w sm;
     if w \<noteq> [] \<or> byte_swapped then do {
       (w, sm) \<leftarrow> sum_blocks 2 w (REDUCE sm);
       if byte_swapped then do {
         sm \<leftarrow> checked_s32 (REDUCE sm * 256);
         (case w of
            b # _ \<Rightarrow> do {
              sm \<leftarrow> checked_s32 (sm + swap_util first b);
              Some (c\<lparr>cs_odd := False, cs_csum := sm\<rparr>)
            }
          | [] \<Rightarrow> Some (c\<lparr>cs_odd := True, cs_leftover := first, cs_csum := sm\<rparr>))
       } else (case w of
            b # _ \<Rightarrow> Some (c\<lparr>cs_odd := True, cs_leftover := b, cs_csum := sm\<rparr>)
          | [] \<Rightarrow> Some (c\<lparr>cs_odd := False, cs_csum := sm\<rparr>))
     } else Some (c\<lparr>cs_odd := False, cs_csum := sm\<rparr>)
   }"

definition inet_checksum_partial :: "checksum_partial \<Rightarrow> bool \<Rightarrow> u8 list \<Rightarrow> checksum_partial option" where
  "inet_checksum_partial c odd_ptr ptr = do {
     assert_that (length ptr < 2 ^ 31);
     let sm = cs_csum c;
     if cs_odd c then
       (case ptr of
          [] \<Rightarrow> None
        | b # ptr \<Rightarrow> do {
            sm \<leftarrow> checked_s32 (sm + swap_util (cs_leftover c) b);
            checksum_tail c sm (\<not> odd_ptr) ptr
          })
     else checksum_tail c sm odd_ptr ptr
   }"

definition inet_checksum_reduce :: "checksum_partial \<Rightarrow> u16 option" where
  "inet_checksum_reduce c = do {
     sm \<leftarrow> (if cs_odd c then checked_s32 (cs_csum c + swap_util (cs_leftover c) 0) else Some (cs_csum c));
     Some (word_of_int (NOT (REDUCE sm) AND 65535))
   }"

definition inet_checksum :: "bool \<Rightarrow> u8 list \<Rightarrow> u16 option" where
  "inet_checksum odd_ptr ptr = do {
     c \<leftarrow> inet_checksum_partial checksum_partial_init odd_ptr ptr;
     inet_checksum_reduce c
   }"

text \<open>
  The address of a byte is odd if one of the address of its block (given by \<open>odd_block\<close>) and its offset is odd.
\<close>

definition odd_addr :: "(addr \<Rightarrow> bool) \<Rightarrow> bptr \<Rightarrow> bool" where
  "odd_addr odd_block ptr = (odd_block (fst ptr) \<noteq> odd (snd ptr))"

partial_function (option) checksum_loop ::
    "(addr \<Rightarrow> bool) \<Rightarrow> vheap \<Rightarrow> vbuffer_sub \<Rightarrow> vbuffer_sub_mmap \<Rightarrow> checksum_partial \<Rightarrow> (checksum_partial \<times> vheap) option" where
  "checksum_loop odd_block h buf it c = do {
     (data, len, it, _, h) \<leftarrow> vbuffer_mmap h buf False it;
     if data = NULL_ptr then Some (c, h)
     else do {
       bs \<leftarrow> load h data len;
       c \<leftarrow> (if len > 0 then inet_checksum_partial c (odd_addr odd_block data) bs else Some c);
       checksum_loop odd_block h buf it c
     }
   }"

definition inet_checksum_vbuffer_partial ::
    "(addr \<Rightarrow> bool) \<Rightarrow> vheap \<Rightarrow> checksum_partial \<Rightarrow> vbuffer_sub \<Rightarrow> (checksum_partial \<times> vheap) option" where
  "inet_checksum_vbuffer_partial odd_block h c buf = checksum_loop odd_block h buf vbuffer_mmap_init c"

definition inet_checksum_vbuffer :: "(addr \<Rightarrow> bool) \<Rightarrow> vheap \<Rightarrow> vbuffer_sub \<Rightarrow> (u16 \<times> vheap) option" where
  "inet_checksum_vbuffer odd_block h buf = do {
     (c, h) \<leftarrow> inet_checksum_vbuffer_partial odd_block h checksum_partial_init buf;
     s \<leftarrow> inet_checksum_reduce c;
     Some (s, h)
   }"

section \<open>The specification\<close>

text \<open>
  The sum of the words of some bytes, the last byte padded with a zero, and its one's complement reduction to
  16 bits: zero only for zero, otherwise the representative modulo 65535 between 1 and 65535.
\<close>

fun word_sum :: "u8 list \<Rightarrow> int" where
  "word_sum [] = 0"
| "word_sum [a] = uint a"
| "word_sum (a # b # w) = uint a + 256 * uint b + word_sum w"

definition fold16 :: "int \<Rightarrow> int" where
  "fold16 x = (if x = 0 then 0 else (x - 1) mod 65535 + 1)"

definition rfc1071 :: "u8 list \<Rightarrow> u16" where
  "rfc1071 bs = NOT (word_of_int (fold16 (word_sum bs)))"

text \<open>Two sums with the same reduction.\<close>

definition same_sum :: "int \<Rightarrow> int \<Rightarrow> bool" where
  "same_sum x y \<longleftrightarrow> x mod 65535 = y mod 65535 \<and> (x = 0 \<longleftrightarrow> y = 0)"

lemma fold16_cong: "same_sum x y \<Longrightarrow> fold16 x = fold16 y"
  unfolding same_sum_def fold16_def by (metis mod_diff_left_eq)

lemma same_sum_refl [simp]: "same_sum x x"
  by (simp add: same_sum_def)

lemma same_sum_trans: "same_sum x y \<Longrightarrow> same_sum y z \<Longrightarrow> same_sum x z"
  by (simp add: same_sum_def)

lemma same_sum_add:
  "same_sum x y \<Longrightarrow> same_sum x' y' \<Longrightarrow> 0 \<le> x \<Longrightarrow> 0 \<le> y \<Longrightarrow> 0 \<le> x' \<Longrightarrow> 0 \<le> y' \<Longrightarrow> same_sum (x + x') (y + y')"
  unfolding same_sum_def by (auto intro: mod_add_cong)

lemma same_sum_mult: "same_sum x y \<Longrightarrow> 0 < c \<Longrightarrow> same_sum (x * c) (y * c)"
  unfolding same_sum_def by (auto intro: mod_mult_cong)

lemma same_sum_sym: "same_sum x y \<Longrightarrow> same_sum y x"
  by (simp add: same_sum_def)

lemma same_sum_65536: "same_sum x (65536 * x)"
proof -
  have "65536 * x mod 65535 = (x + 65535 * x) mod 65535" by simp
  also have "\<dots> = x mod 65535" by (rule mod_mult_self2)
  finally show ?thesis by (simp add: same_sum_def)
qed

lemma fold16_range: "0 \<le> fold16 x" "fold16 x \<le> 65535"
  using pos_mod_bound [of 65535 "x - 1"] by (auto simp: fold16_def)

lemma fold16_same: "0 \<le> x \<Longrightarrow> same_sum (fold16 x) x"
  by (auto simp: same_sum_def fold16_def mod_add_left_eq)

lemma mod_shift:
  assumes "x = s + m * (k :: int)"
  shows "(x - 1) mod m = (s - 1) mod m"
proof -
  have "x - 1 = (s - 1) + m * k" using assms by simp
  then show ?thesis by (simp only: mod_mult_self2)
qed

lemma fold16_carry:
  assumes "0 \<le> lo" "lo \<le> 65535" "0 \<le> hi" "hi \<le> 65535"
  shows "ADD_CARRY (lo + hi) = fold16 (lo + 65536 * hi)"
proof (cases "lo + hi = 0")
  case True
  then have "lo = 0" "hi = 0" using assms by linarith+
  then show ?thesis by (simp add: fold16_def ADD_CARRY_def)
next
  case False
  have e: "lo + 65536 * hi = (lo + hi) + 65535 * hi" by simp
  have nz: "lo + 65536 * hi \<noteq> 0" "0 < lo + hi" using False assms by linarith+
  have "(lo + hi - 1) mod 65535 = (if lo + hi > 65535 then lo + hi - 65536 else lo + hi - 1)"
  proof (cases "lo + hi > 65535")
    case True
    have "(lo + hi - 65535 + 65535 * 1 - 1) mod 65535 = (lo + hi - 65535 - 1) mod 65535"
      by (rule mod_shift) (rule refl)
    also have "\<dots> = lo + hi - 65535 - 1" using True assms by (subst mod_pos_pos_trivial) auto
    finally show ?thesis using True by simp
  next
    case False
    then show ?thesis using nz by (subst mod_pos_pos_trivial) auto
  qed
  then show ?thesis using mod_shift [OF e] nz(1) by (simp add: fold16_def ADD_CARRY_def split: if_splits)
qed

lemma REDUCE_fold16:
  assumes "0 \<le> x" "x < 2 ^ 31"
  shows "REDUCE x = fold16 x"
proof -
  define lo hi where "lo = x mod 2 ^ 16" and "hi = x div 2 ^ 16"
  have x: "x = lo + 65536 * hi" by (simp add: lo_def hi_def)
  have lo: "0 \<le> lo" "lo \<le> 65535" using pos_mod_bound [of "2 ^ 16" x] by (simp_all add: lo_def)
  have hi: "0 \<le> hi" using assms(1) by (simp add: hi_def pos_imp_zdiv_nonneg_iff)
  have "hi \<le> 65535" using x lo(1) assms(2) by simp
  have "x mod 2 ^ 32 = x" using assms by simp
  then have "REDUCE x = ADD_CARRY (lo + hi)" by (simp only: REDUCE_def Let_def lo_def hi_def)
  also have "\<dots> = fold16 x" unfolding x by (rule fold16_carry [OF lo hi \<open>hi \<le> 65535\<close>])
  finally show ?thesis .
qed

section \<open>Words\<close>

lemma uint_byte: "0 \<le> uint (b :: u8)" "uint b \<le> 255"
  using uint_lt2p [of b] by simp_all

lemma word_sum_range: "0 \<le> word_sum w" "word_sum w \<le> 32768 * int (length w)"
proof (induction w rule: word_sum.induct)
  case (2 a)
  { case 1 then show ?case using uint_byte [of a] by simp }
  { case 2 then show ?case using uint_byte [of a] by simp }
next
  case (3 a b w)
  { case 1 then show ?case using 3 uint_byte [of a] uint_byte [of b] by simp }
  { case 2 then show ?case using 3 uint_byte [of a] uint_byte [of b] by simp }
qed simp_all

lemma word_sum_append: "even (length v) \<Longrightarrow> word_sum (v @ w) = word_sum v + word_sum w"
  by (induction v rule: word_sum.induct) auto

lemma word_sum_snoc: "word_sum (v @ [b]) = word_sum v + (if even (length v) then uint b else 256 * uint b)"
  by (induction v rule: word_sum.induct) auto

text \<open>Shifting the bytes by one multiplies the sum by 256.\<close>

lemma word_sum_shift: "same_sum (word_sum (0 # w)) (word_sum w * 256)"
proof (induction w rule: word_sum.induct)
  case (3 a b w)
  have "word_sum (0 # a # b # w) = 256 * uint a + (uint b + word_sum (0 # w))"
    by (cases w) auto
  moreover have "same_sum (uint b) (65536 * uint b)" by (rule same_sum_65536)
  then have "same_sum (256 * uint a + (uint b + word_sum (0 # w))) (256 * uint a + (65536 * uint b + word_sum w * 256))"
    using 3 uint_byte [of a] uint_byte [of b] word_sum_range(1) [of w] word_sum_range(1) [of "0 # w"]
    by (intro same_sum_add) simp_all
  ultimately show ?case by (simp add: algebra_simps)
qed (simp_all add: mult.commute)

lemma word_sum_odd_append:
  assumes "odd (length v)"
  shows "word_sum (v @ w) = word_sum v + word_sum (0 # w)"
proof -
  obtain u b where v: "v = u @ [b]" using assms by (cases v rule: rev_cases) auto
  then have u: "even (length u)" using assms by simp
  have "word_sum (b # w) = uint b + word_sum (0 # w)" by (cases w) auto
  then show ?thesis using word_sum_append [OF u, of "b # w"] word_sum_snoc [of u b] u v by simp
qed

section \<open>The loops\<close>

lemma checked_s32_Some: "0 \<le> x \<Longrightarrow> x < 2 ^ 31 \<Longrightarrow> checked_s32 x = Some x"
  by (simp add: checked_s32_def)

lemma add_words_ok:
  "2 * n \<le> length w \<Longrightarrow> 0 \<le> s \<Longrightarrow> s + word_sum (take (2 * n) w) < 2 ^ 31 \<Longrightarrow>
   add_words n w s = Some (s + word_sum (take (2 * n) w))"
proof (induction n w s rule: add_words.induct)
  case (2 n a b w s)
  have t: "word_sum (take (2 * Suc n) (a # b # w)) = swap_util a b + word_sum (take (2 * n) w)"
    by (simp add: swap_util_def)
  have "0 \<le> swap_util a b" using uint_byte [of a] uint_byte [of b] by (simp add: swap_util_def)
  moreover have "0 \<le> word_sum (take (2 * n) w)" by (rule word_sum_range)
  ultimately have "checked_s32 (s + swap_util a b) = Some (s + swap_util a b)"
    using 2(3,4) t by (intro checked_s32_Some) linarith+
  moreover have "add_words n w (s + swap_util a b) = Some (s + swap_util a b + word_sum (take (2 * n) w))"
    by (rule "2.IH") (use 2(2-4) t \<open>0 \<le> swap_util a b\<close> calculation in auto)
  ultimately show ?case using t by simp
qed auto

lemma sum_blocks_ok:
  assumes "even n" "0 < n" "0 \<le> s" "s + word_sum w < 2 ^ 31"
  shows "\<exists>v r. w = v @ r \<and> even (length v) \<and> length r = length w mod n \<and> sum_blocks n w s = Some (r, s + word_sum v)"
  using assms(3,4)
proof (induction "length w" arbitrary: w s rule: less_induct)
  case less
  show ?case
  proof (cases "length w < n")
    case True
    then show ?thesis using assms(2) by (intro exI [of _ "[]"] exI [of _ w]) (simp add: sum_blocks.simps)
  next
    case False
    have w: "word_sum w = word_sum (take n w) + word_sum (drop n w)"
      using word_sum_append [of "take n w" "drop n w"] False assms(1) by simp
    have nn: "0 \<le> word_sum (take n w)" "0 \<le> word_sum (drop n w)" by (rule word_sum_range)+
    have "add_words (n div 2) w s = Some (s + word_sum (take n w))"
      using add_words_ok [of "n div 2" w s] assms(1) False less.prems w nn by simp
    moreover obtain v r where vr: "drop n w = v @ r" "even (length v)" "length r = length (drop n w) mod n"
      "sum_blocks n (drop n w) (s + word_sum (take n w)) = Some (r, s + word_sum (take n w) + word_sum v)"
    proof -
      have "length (drop n w) < length w" "0 \<le> s + word_sum (take n w)"
        "s + word_sum (take n w) + word_sum (drop n w) < 2 ^ 31" using False assms(2) less.prems w nn by auto
      then show ?thesis using that less.hyps by blast
    qed
    moreover have "w = (take n w @ v) @ r" using append_take_drop_id [of n w] vr(1) by simp
    moreover have "even (length (take n w @ v))" using vr(2) False assms(1) by simp
    moreover have "length r = length w mod n" using vr(3) False le_mod_geq [of n "length w"] by simp
    moreover have "word_sum (take n w @ v) = word_sum (take n w) + word_sum v"
      using assms(1) False by (intro word_sum_append) simp
    ultimately show ?thesis using assms(2) False
      by (intro exI [of _ "take n w @ v"] exI [of _ r]) (subst sum_blocks.simps, simp add: add.assoc)
  qed
qed

definition sum_bound :: int where
  "sum_bound = 16842495"

lemma fold16_le: "0 \<le> x \<Longrightarrow> fold16 x \<le> x"
  using zmod_le_nonneg_dividend [of "x - 1" 65535] by (cases "x = 0") (auto simp: fold16_def)

lemma sum_shift_range: "0 \<le> fold16 x * 256" "fold16 x * 256 \<le> 16776960"
  using fold16_range [of x] by simp_all

text \<open>From an even address: the words of all bytes but perhaps the last one are added.\<close>

lemma loops_ok:
  assumes "0 \<le> s" "s + word_sum w < 2 ^ 31"
  obtains r1 s1 v r t where "sum_blocks 32 w s = Some (r1, s1)" "sum_blocks 8 r1 s1 = Some (v @ r, t)"
    "sum_blocks 2 (v @ r) (REDUCE t) = Some (r, fold16 t + word_sum v)" "length r = length w mod 2" "even (length v)"
    "0 \<le> t" "t + word_sum v + word_sum r = s + word_sum w"
    "t + word_sum v + 32768 * int (length r) \<le> s + 32768 * int (length w)"
proof -
  obtain v1 r1 where 1: "w = v1 @ r1" "even (length v1)" "sum_blocks 32 w s = Some (r1, s + word_sum v1)"
    using sum_blocks_ok [of 32 s w] assms by auto
  have w1: "word_sum w = word_sum v1 + word_sum r1" unfolding 1(1) by (rule word_sum_append [OF 1(2)])
  have n1: "0 \<le> word_sum v1" "0 \<le> word_sum r1" by (rule word_sum_range)+
  have "0 \<le> s + word_sum v1" "s + word_sum v1 + word_sum r1 < 2 ^ 31" using assms w1 n1 by linarith+
  then obtain v2 r2 where 2: "r1 = v2 @ r2" "even (length v2)"
    "sum_blocks 8 r1 (s + word_sum v1) = Some (r2, s + word_sum v1 + word_sum v2)"
    using sum_blocks_ok [of 8 "s + word_sum v1" r1] by auto
  have w2: "word_sum r1 = word_sum v2 + word_sum r2" unfolding 2(1) by (rule word_sum_append [OF 2(2)])
  have n2: "0 \<le> word_sum v2" "0 \<le> word_sum r2" by (rule word_sum_range)+
  let ?t = "s + word_sum v1 + word_sum v2"
  have t: "0 \<le> ?t" "?t < 2 ^ 31" "?t + word_sum r2 = s + word_sum w" using assms w1 w2 n1 n2 by linarith+
  have "fold16 ?t + word_sum r2 < 2 ^ 31" using fold16_le [OF t(1)] t(3) assms(2) by linarith
  moreover have "0 \<le> fold16 ?t" by (rule fold16_range)
  ultimately have "\<exists>v r. r2 = v @ r \<and> even (length v) \<and> length r = length r2 mod 2 \<and>
      sum_blocks 2 r2 (fold16 ?t) = Some (r, fold16 ?t + word_sum v)"
    by (intro sum_blocks_ok) simp_all
  then obtain v3 r3 where 3: "r2 = v3 @ r3" "even (length v3)" "length r3 = length r2 mod 2"
    "sum_blocks 2 r2 (fold16 ?t) = Some (r3, fold16 ?t + word_sum v3)" by blast
  have w3: "word_sum r2 = word_sum v3 + word_sum r3" unfolding 3(1) by (rule word_sum_append [OF 3(2)])
  have l: "length r3 = length w mod 2" using 1(1,2) 2(1,2) 3(3) by (simp add: mod2_eq_if)
  have "length w = length v1 + (length v2 + (length v3 + length r3))" using 1(1) 2(1) 3(1) by simp
  then have "?t + word_sum v3 + 32768 * int (length r3) \<le> s + 32768 * int (length w)"
    using word_sum_range(2) [of v1] word_sum_range(2) [of v2] word_sum_range(2) [of v3] by simp
  moreover have "?t + word_sum v3 + word_sum r3 = s + word_sum w" using t(3) w3 by linarith
  moreover have "sum_blocks 2 (v3 @ r3) (REDUCE ?t) = Some (r3, fold16 ?t + word_sum v3)"
    unfolding REDUCE_fold16 [OF t(1,2)] 3(1) [symmetric] by (rule 3(4))
  ultimately show ?thesis using that [OF 1(3) 2(3) [unfolded 3(1)]] l 3(2) t(1) by blast
qed

section \<open>One piece\<close>

text \<open>The value of a state counts the pending byte as a low byte; its size reserves a word for it.\<close>

definition cs_value :: "checksum_partial \<Rightarrow> int" where
  "cs_value c = cs_csum c + (if cs_odd c then uint (cs_leftover c) else 0)"

definition cs_size :: "checksum_partial \<Rightarrow> int" where
  "cs_size c = cs_csum c + (if cs_odd c then 32768 else 0)"

lemma tail_aligned:
  assumes s: "0 \<le> s" "s + 32768 * int (length w) < 2 ^ 31" and al: "\<not> odd_ptr \<or> w = []"
  shows "\<exists>c'. checksum_tail c s odd_ptr w = Some c' \<and> cs_odd c' = odd (length w) \<and> 0 \<le> cs_csum c' \<and>
    same_sum (cs_value c') (s + word_sum w) \<and> cs_size c' \<le> s + 32768 * int (length w)"
proof -
  have b: "s + word_sum w < 2 ^ 31" using s(2) word_sum_range(2) [of w] by linarith
  obtain r1 s1 v r t where l: "sum_blocks 32 w s = Some (r1, s1)" "sum_blocks 8 r1 s1 = Some (v @ r, t)"
    "sum_blocks 2 (v @ r) (REDUCE t) = Some (r, fold16 t + word_sum v)" "length r = length w mod 2" "even (length v)"
    "0 \<le> t" "t + word_sum v + word_sum r = s + word_sum w"
    "t + word_sum v + 32768 * int (length r) \<le> s + 32768 * int (length w)"
    using s(1) b by (rule loops_ok)
  have sw: "(odd_ptr \<and> w \<noteq> []) = False" using al by blast
  define t' where "t' = (if v @ r \<noteq> [] then fold16 t else t)"
  have tail: "checksum_tail c s odd_ptr w = Some (case r of
      x # _ \<Rightarrow> c\<lparr>cs_odd := True, cs_leftover := x, cs_csum := t' + word_sum v\<rparr>
    | [] \<Rightarrow> c\<lparr>cs_odd := False, cs_csum := t' + word_sum v\<rparr>)"
    unfolding checksum_tail_def Let_def sw t'_def
    using l(3) by (cases r) (auto simp: l(1,2))
  have f: "0 \<le> t'" "t' \<le> t" "same_sum t' t"
    using fold16_range(1) [of t] fold16_le [OF l(6)] fold16_same [OF l(6)] l(6) by (simp_all add: t'_def)
  have v: "0 \<le> word_sum v" "0 \<le> word_sum r" by (rule word_sum_range)+
  have "same_sum (t' + (word_sum v + word_sum r)) (t + (word_sum v + word_sum r))"
    using f l(6) v by (intro same_sum_add) auto
  then have ss: "same_sum (t' + word_sum v + word_sum r) (s + word_sum w)" using l(7) by (simp add: add.assoc)
  show ?thesis
  proof (cases r)
    case Nil
    then have "even (length w)" using l(4) by (simp add: even_iff_mod_2_eq_zero)
    then show ?thesis using tail Nil ss f(1,2) v(1) l(8) by (simp add: cs_value_def cs_size_def)
  next
    case (Cons x r')
    then have r: "r = [x]" "odd (length w)" using l(4) by (simp_all add: mod2_eq_if split: if_splits)
    then show ?thesis using tail ss f(1,2) v(1) l(8) by (simp add: cs_value_def cs_size_def)
  qed
qed

lemma tail_swapped:
  assumes s: "0 \<le> s" "s < 2 ^ 31" "sum_bound + 32768 * int (length w) < 2 ^ 31"
  shows "\<exists>c'. checksum_tail c s True (x # w) = Some c' \<and> cs_odd c' = even (length w) \<and> 0 \<le> cs_csum c' \<and>
    same_sum (cs_value c') (s + word_sum (x # w)) \<and> cs_size c' \<le> sum_bound"
proof -
  let ?s = "fold16 s * 256"
  have "?s + 32768 * int (length w) < 2 ^ 31" using s(3) sum_shift_range(2) [of s] by (simp add: sum_bound_def)
  then have b: "?s + word_sum w < 2 ^ 31" using word_sum_range(2) [of w] by linarith
  have c1: "checked_s32 (REDUCE s * 256) = Some ?s"
    unfolding REDUCE_fold16 [OF s(1,2)] using sum_shift_range [of s] by (intro checked_s32_Some) auto
  obtain r1 s1 v r t where l: "sum_blocks 32 w ?s = Some (r1, s1)" "sum_blocks 8 r1 s1 = Some (v @ r, t)"
    "sum_blocks 2 (v @ r) (REDUCE t) = Some (r, fold16 t + word_sum v)" "length r = length w mod 2" "even (length v)"
    "0 \<le> t" "t + word_sum v + word_sum r = ?s + word_sum w"
    "t + word_sum v + 32768 * int (length r) \<le> ?s + 32768 * int (length w)"
    using sum_shift_range(1) b by (rule loops_ok)
  have v: "0 \<le> word_sum v" "0 \<le> word_sum r" "0 \<le> word_sum w" by (rule word_sum_range)+
  have f: "0 \<le> fold16 t" "fold16 t \<le> t" "same_sum (fold16 t) t"
    using fold16_range(1) [of t] fold16_le [OF l(6)] fold16_same [OF l(6)] by simp_all
  let ?u = "fold16 t + word_sum v"
  have u: "0 \<le> ?u" "?u < 2 ^ 31" using f(1,2) v l(7) b by linarith+
  have c2: "checked_s32 (REDUCE ?u * 256) = Some (fold16 ?u * 256)"
    unfolding REDUCE_fold16 [OF u] using sum_shift_range [of ?u] by (intro checked_s32_Some) auto
  have x: "0 \<le> uint x" "uint x \<le> 255" by (rule uint_byte)+
  have "same_sum (fold16 ?u + word_sum r) (s * 256 + word_sum w)"
  proof (rule same_sum_trans)
    show "same_sum (fold16 ?u + word_sum r) (?u + word_sum r)"
      using fold16_same [OF u(1)] fold16_range(1) u(1) v by (intro same_sum_add) auto
    have "same_sum (fold16 t + (word_sum v + word_sum r)) (t + (word_sum v + word_sum r))"
      using f l(6) v by (intro same_sum_add) auto
    moreover have "same_sum (?s + word_sum w) (s * 256 + word_sum w)"
      using same_sum_mult [OF fold16_same [OF s(1)], of 256] sum_shift_range(1) s(1) v by (intro same_sum_add) auto
    ultimately show "same_sum (?u + word_sum r) (s * 256 + word_sum w)"
      using l(7) by (simp add: add.assoc same_sum_trans)
  qed
  then have "same_sum ((fold16 ?u + word_sum r) * 256) ((s * 256 + word_sum w) * 256)" by (rule same_sum_mult) simp
  moreover have "same_sum ((s * 256 + word_sum w) * 256) (s + word_sum (0 # w))"
    using same_sum_add [OF same_sum_sym [OF same_sum_65536 [of s]] same_sum_sym [OF word_sum_shift [of w]]]
      s(1) v(3) word_sum_range(1) [of "0 # w"] by (simp add: algebra_simps)
  ultimately have "same_sum ((fold16 ?u + word_sum r) * 256) (s + word_sum (0 # w))" by (rule same_sum_trans)
  then have "same_sum ((fold16 ?u + word_sum r) * 256 + uint x) (s + word_sum (0 # w) + uint x)"
    using fold16_range(1) [of ?u] v s(1) word_sum_range(1) [of "0 # w"] x by (intro same_sum_add) auto
  moreover have "word_sum (x # w) = uint x + word_sum (0 # w)" by (cases w) auto
  ultimately have ss: "same_sum (fold16 ?u * 256 + word_sum r * 256 + uint x) (s + word_sum (x # w))"
    by (simp add: algebra_simps)
  show ?thesis
  proof (cases r)
    case Nil
    then have "even (length w)" using l(4) by (simp add: even_iff_mod_2_eq_zero)
    then show ?thesis using Nil c1 c2 l(1-3) ss sum_shift_range [of ?u]
      by (simp add: checksum_tail_def cs_value_def cs_size_def sum_bound_def)
  next
    case (Cons y r')
    then have r: "r = [y]" "odd (length w)" using l(4) by (simp_all add: mod2_eq_if split: if_splits)
    have "checked_s32 (fold16 ?u * 256 + swap_util x y) = Some (fold16 ?u * 256 + swap_util x y)"
      using sum_shift_range [of ?u] uint_byte [of y] x by (intro checked_s32_Some) (auto simp: swap_util_def)
    then show ?thesis using r c1 c2 l(1-3) ss sum_shift_range [of ?u] uint_byte [of y] x
      by (simp add: checksum_tail_def cs_value_def cs_size_def sum_bound_def swap_util_def algebra_simps)
  qed
qed

text \<open>
  The state of a checksum after the bytes \<open>xs\<close>: a byte is pending if their number is odd, and the sum is
  bounded by their number.
\<close>

definition checksum_of :: "checksum_partial \<Rightarrow> u8 list \<Rightarrow> bool" where
  "checksum_of c xs \<longleftrightarrow> cs_odd c = odd (length xs) \<and> 0 \<le> cs_csum c \<and>
     cs_size c \<le> sum_bound + 32768 * int (length xs) \<and> same_sum (cs_value c) (word_sum xs)"

lemma checksum_of_init: "checksum_of checksum_partial_init []"
  by (simp add: checksum_of_def checksum_partial_init_def cs_size_def cs_value_def sum_bound_def)

lemma partial_even:
  assumes c: "checksum_of c xs" "even (length xs)" and len: "length xs + length bs \<le> 65000"
  shows "\<exists>c'. checksum_tail d (cs_csum c) odd_ptr bs = Some c' \<and> checksum_of c' (xs @ bs)"
proof -
  let ?s = "cs_csum c"
  have s: "0 \<le> ?s" "?s \<le> sum_bound + 32768 * int (length xs)" "same_sum ?s (word_sum xs)"
    using c by (auto simp: checksum_of_def cs_size_def cs_value_def)
  have w: "word_sum (xs @ bs) = word_sum xs + word_sum bs" by (rule word_sum_append [OF c(2)])
  have ss: "same_sum (?s + word_sum bs) (word_sum (xs @ bs))"
    unfolding w using s(1,3) word_sum_range(1) by (intro same_sum_add) auto
  have b: "?s + 32768 * int (length bs) < 2 ^ 31" using s(2) len by (simp add: sum_bound_def)
  show ?thesis
  proof (cases "odd_ptr \<and> bs \<noteq> []")
    case True
    then obtain x w' where bs: "bs = x # w'" by (cases bs) auto
    obtain c' where "checksum_tail d ?s True (x # w') = Some c'" "cs_odd c' = even (length w')" "0 \<le> cs_csum c'"
      "same_sum (cs_value c') (?s + word_sum (x # w'))" "cs_size c' \<le> sum_bound"
      using tail_swapped [of ?s w' d x] s(1) b len by (auto simp: bs sum_bound_def)
    then show ?thesis using True c(2) bs ss by (auto simp: checksum_of_def intro: same_sum_trans)
  next
    case False
    obtain c' where "checksum_tail d ?s odd_ptr bs = Some c'" "cs_odd c' = odd (length bs)" "0 \<le> cs_csum c'"
      "same_sum (cs_value c') (?s + word_sum bs)" "cs_size c' \<le> ?s + 32768 * int (length bs)"
      using tail_aligned [OF s(1) b, of odd_ptr d] False by blast
    then show ?thesis using c(2) ss s(2) by (auto simp: checksum_of_def intro: same_sum_trans)
  qed
qed

lemma partial_ok:
  assumes c: "checksum_of c xs" and len: "length xs + length bs \<le> 65000" and ne: "bs \<noteq> []"
  shows "\<exists>c'. inet_checksum_partial c odd_ptr bs = Some c' \<and> checksum_of c' (xs @ bs)"
proof (cases "cs_odd c")
  case False
  then have "even (length xs)" using c by (simp add: checksum_of_def)
  then show ?thesis using partial_even [OF c _ len, of c odd_ptr] False len by (simp add: inet_checksum_partial_def)
next
  case True
  obtain x bs' where bs: "bs = x # bs'" using ne by (cases bs) auto
  have o: "odd (length xs)" using c True by (simp add: checksum_of_def)
  let ?s = "cs_csum c + swap_util (cs_leftover c) x"
  let ?d = "c\<lparr>cs_odd := False, cs_csum := ?s\<rparr>"
  have s: "0 \<le> cs_csum c" "cs_csum c + 32768 \<le> sum_bound + 32768 * int (length xs)"
    "same_sum (cs_csum c + uint (cs_leftover c)) (word_sum xs)"
    using c True by (simp_all add: checksum_of_def cs_size_def cs_value_def)
  have u: "0 \<le> swap_util (cs_leftover c) x" "swap_util (cs_leftover c) x \<le> 65535"
    using uint_byte [of x] uint_byte [of "cs_leftover c"] by (simp_all add: swap_util_def)
  have "checked_s32 ?s = Some ?s" using s u len by (intro checked_s32_Some) (auto simp: bs sum_bound_def)
  moreover have "same_sum (cs_csum c + uint (cs_leftover c) + 256 * uint x) (word_sum xs + 256 * uint x)"
    using s uint_byte [of x] uint_byte [of "cs_leftover c"] word_sum_range(1) [of xs] by (intro same_sum_add) auto
  then have "checksum_of ?d (xs @ [x])"
    using s u o by (simp add: checksum_of_def cs_size_def cs_value_def word_sum_snoc swap_util_def add.assoc)
  moreover have "length (xs @ [x]) + length bs' \<le> 65000" "even (length (xs @ [x]))" using len o bs by simp_all
  ultimately show ?thesis
    using partial_even [of ?d "xs @ [x]" bs' c "\<not> odd_ptr"] True len bs by (simp add: inet_checksum_partial_def)
qed

text \<open>The final reduction.\<close>

lemma not_mask16: "(word_of_int (NOT x AND 65535) :: u16) = NOT (word_of_int x)"
proof -
  have "(65535 :: int) = mask 16" by (simp add: mask_eq_exp_minus_1)
  then have "bit (65535 :: int) n" if "n < 16" for n using that by (simp only: bit_mask_iff) simp
  then show ?thesis by (intro bit_word_eqI) (simp add: bit_simps)
qed

lemma reduce_ok:
  assumes c: "checksum_of c xs" and len: "length xs \<le> 65000"
  shows "inet_checksum_reduce c = Some (rfc1071 xs)"
proof -
  have v: "0 \<le> cs_value c" "cs_value c < 2 ^ 31" "same_sum (cs_value c) (word_sum xs)"
    using c len uint_byte [of "cs_leftover c"] by (auto simp: checksum_of_def cs_size_def cs_value_def sum_bound_def)
  then have "(if cs_odd c then checked_s32 (cs_csum c + swap_util (cs_leftover c) 0) else Some (cs_csum c)) = Some (cs_value c)"
    using checked_s32_Some by (auto simp: cs_value_def swap_util_def)
  moreover have "REDUCE (cs_value c) = fold16 (word_sum xs)"
    using REDUCE_fold16 [OF v(1,2)] fold16_cong [OF v(3)] by simp
  ultimately show ?thesis
    by (simp add: inet_checksum_reduce_def rfc1071_def not_mask16)
qed

section \<open>A range of a buffer\<close>

lemma checksum_loop_ok:
  assumes ok: "heap_ok h" and v: "vbuf h b cs"
  shows "walk h b cs data it ys n r \<Longrightarrow> set ys \<subseteq> set cs \<Longrightarrow> checksum_of c xs \<Longrightarrow> length xs + r \<le> 65000 \<Longrightarrow>
    \<exists>c'. checksum_loop odd_block h data it c = Some (c', h) \<and> checksum_of c' (xs @ take r (drop n (content h ys)))"
proof (induction "length ys" arbitrary: it ys n r c xs rule: less_induct)
  case less
  have wr: "False \<longrightarrow> writable_all h ys" by simp
  from vbuffer_mmap_ok [OF ok v less.prems(1) wr less.prems(2)] show ?case
  proof (elim disjE exE conjE)
    fix it' assume "vbuffer_mmap h data False it = Some (NULL_ptr, 0, it', None, h)" "r = 0"
    then show ?thesis using less.prems(3) by (subst checksum_loop.simps) simp
  next
    fix us y ys' x it' itp m k
    assume a: "ys = us @ y # ys'" "chunks h y = Some x" "chunk_wf h x" "\<not> f_ctl (cflags x)"
      "vbuffer_mmap h data False it = Some ((cdata x, coffset x + m), k, it', itp, touch False y x h)"
      "cdata x \<noteq> NULL" "szs h us + m = n" "0 < k" "k = min r (csize x - m)" "m \<le> csize x"
      "walk h b cs data it' ys' 0 (r - k)"
    let ?bs = "take k (drop m (chunk_bytes h y))"
    have ld: "load h (cdata x, coffset x + m) k = Some ?bs"
      by (rule load_chunk [OF a(2-4)]) (use a(9,10) in auto)
    have lu: "length (content h us) = szs h us"
      by (rule length_content [OF v]) (use a(1) less.prems(2) in auto)
    have ly: "length (chunk_bytes h y) = csize x" using chunk_wf_bytes [OF a(2,3)] a(2) by (simp add: csz_def)
    have lb: "length ?bs = k" using a(9) ly by simp
    have "n = length (content h us) + m" using a(7) lu by simp
    then have d: "drop n (content h ys) = drop m (chunk_bytes h y) @ content h ys'"
      using ly a(10) by (simp add: a(1))
    have pc: "?bs @ take (r - k) (content h ys') = take r (drop n (content h ys))"
      unfolding d using take_pieces [of k r "drop m (chunk_bytes h y)" r "content h ys'"] a(9) ly by simp
    have "?bs \<noteq> []" using lb a(8) by fastforce
    moreover have "length xs + length ?bs \<le> 65000" unfolding lb using a(9) less.prems(4) by simp
    ultimately obtain c1 where c1: "inet_checksum_partial c (odd_addr odd_block (cdata x, coffset x + m)) ?bs = Some c1"
      "checksum_of c1 (xs @ ?bs)" using partial_ok [OF less.prems(3)] by blast
    have "\<exists>c'. checksum_loop odd_block h data it' c1 = Some (c', h) \<and>
        checksum_of c' ((xs @ ?bs) @ take (r - k) (drop 0 (content h ys')))"
    proof (rule less.hyps [OF _ a(11) _ c1(2)])
      show "length (xs @ ?bs) + (r - k) \<le> 65000" unfolding length_append lb using a(9) less.prems(4) by simp
    qed (use a(1) less.prems(2) in auto)
    then show ?thesis using a(5,6,8) ld c1(1) pc by (subst checksum_loop.simps) simp
  qed
qed

lemma checksum_range_ok:
  assumes "heap_ok h" "vbuf h b cs" "range_at h b cs data p q" "q - p \<le> 65000"
  shows "\<exists>c. inet_checksum_vbuffer_partial odd_block h checksum_partial_init data = Some (c, h) \<and>
    checksum_of c (take (q - p) (drop p (content h cs)))"
proof -
  obtain ys n where w: "walk h b cs data (vbuffer_mmap_init\<lparr>mmeter := 0\<rparr>) ys n (q - p)"
    "drop n (content h ys) = drop p (content h cs)" "\<exists>xs. cs = xs @ ys \<and> p = szs h xs + n"
    using assms(2,3) by (rule walk_start)
  have "walk h b cs data vbuffer_mmap_init ys n (q - p)" "set ys \<subseteq> set cs" using w(1,3) by auto
  from checksum_loop_ok [OF assms(1,2) this checksum_of_init, of odd_block] assms(4) w(2)
  show ?thesis by (simp add: inet_checksum_vbuffer_partial_def)
qed

text \<open>
  C30. The unrolled, alignment-aware checksum of up to 65000 bytes at any address is the one of RFC 1071: it
  completes without overflow or a read out of bounds, and its result depends on the bytes only.
\<close>

theorem inet_checksum_rfc1071:
  assumes "0 < length bs" "length bs \<le> 65000"
  shows "inet_checksum odd_ptr bs = Some (rfc1071 bs)"
  using partial_ok [OF checksum_of_init, of bs odd_ptr] reduce_ok [of _ bs] assms
  by (auto simp: inet_checksum_def)

theorem inet_checksum_rfc1071_witness:
  "inet_checksum True [0, 1, 242, 3, 244] = Some (rfc1071 [0, 1, 242, 3, 244])"
  by (rule inet_checksum_rfc1071) simp_all

text \<open>
  C2. The checksum of a range of a buffer does not depend on how the range is cut into chunks nor on where the
  chunks lie: it is the RFC 1071 checksum of the bytes of the range.  The buffer is unchanged.
\<close>

theorem inet_checksum_vbuffer_rfc1071:
  assumes "heap_ok h" "vbuf h b cs" "range_at h b cs data p q" "q - p \<le> 65000"
  shows "inet_checksum_vbuffer odd_block h data = Some (rfc1071 (take (q - p) (drop p (content h cs))), h)"
  using checksum_range_ok [OF assms, of odd_block] reduce_ok [of _ "take (q - p) (drop p (content h cs))"] assms(4)
  by (auto simp: inet_checksum_vbuffer_def)

theorem inet_checksum_vbuffer_rfc1071_witness:
  "\<exists>h data. inet_checksum_vbuffer (\<lambda>_. True) h data = Some (rfc1071 [8, 9], h)"
proof -
  obtain h b c data where h: "heap_ok h" "vbuf h b [c]" "content h [c] = [7, 8, 9]" "range_at h b [c] data 1 3"
    using sample_range by blast
  have "inet_checksum_vbuffer (\<lambda>_. True) h data = Some (rfc1071 (take (3 - 1) (drop 1 (content h [c]))), h)"
    by (rule inet_checksum_vbuffer_rfc1071 [OF h(1,2,4)]) simp
  moreover have "take (3 - 1) (drop 1 (content h [c])) = [8, 9]" using h(3) by simp
  ultimately show ?thesis by metis
qed

end
