(* ===== verification/Uthash.thy ===== *)
theory Uthash
  imports Haka_Prelude
begin

text \<open>
  The intrusive hash table \<open>external/uthash/src/uthash.h\<close>, as the connection table and the fragment table of
  the IPv4 module use it: \<open>HASH_FIND\<close>, \<open>HASH_ADD_KEYPTR\<close>, \<open>HASH_DELETE\<close> and the iteration in application order,
  with Jenkins' hash function and the doubling of the buckets.

  The application-order list and the bucket chains, doubly linked in the code, are lists of element addresses.
  A table with no element does not exist: the head pointer is null, here \<open>None\<close>.  A failed allocation ends the
  program (\<open>uthash_fatal\<close>) and is not modelled; a number of buckets that does not fit its 32 bits is \<open>None\<close>.
\<close>

unbundle bit_operations_syntax

section \<open>Jenkins' hash function\<close>

definition HASH_JEN_MIX :: "u32 \<Rightarrow> u32 \<Rightarrow> u32 \<Rightarrow> u32 \<times> u32 \<times> u32" where
  "HASH_JEN_MIX a b c = (
     let a = (a - b - c) XOR drop_bit 13 c;
         b = (b - c - a) XOR push_bit 8 a;
         c = (c - a - b) XOR drop_bit 13 b;
         a = (a - b - c) XOR drop_bit 12 c;
         b = (b - c - a) XOR push_bit 16 a;
         c = (c - a - b) XOR drop_bit 5 b;
         a = (a - b - c) XOR drop_bit 3 c;
         b = (b - c - a) XOR push_bit 10 a;
         c = (c - a - b) XOR drop_bit 15 b
     in (a, b, c))"

definition key_byte :: "u8 list \<Rightarrow> nat \<Rightarrow> nat \<Rightarrow> u32" where
  "key_byte key i shift = (if i < length key then push_bit shift (ucast (key ! i)) else 0)"

definition key_word :: "u8 list \<Rightarrow> nat \<Rightarrow> u32" where
  "key_word key i = key_byte key i 0 + key_byte key (i + 1) 8 + key_byte key (i + 2) 16 + key_byte key (i + 3) 24"

text \<open>The loop over blocks of 12 bytes, and the bytes left over.\<close>

fun jen_loop :: "u8 list \<Rightarrow> u32 \<Rightarrow> u32 \<Rightarrow> u32 \<Rightarrow> u8 list \<times> u32 \<times> u32 \<times> u32" where
  "jen_loop key i j hashv =
     (if length key \<ge> 12 then
        (let (i, j, hashv) = HASH_JEN_MIX (i + key_word key 0) (j + key_word key 4) (hashv + key_word key 8)
         in jen_loop (drop 12 key) i j hashv)
      else (key, i, j, hashv))"

declare jen_loop.simps [simp del]

definition HASH_JEN :: "u8 list \<Rightarrow> u32" where
  "HASH_JEN key = (
     let (rest, i, j, hashv) = jen_loop key 0x9e3779b9 0x9e3779b9 0xfeedbeef;
         hashv = hashv + of_nat (length key);
         hashv = hashv + key_byte rest 10 24 + key_byte rest 9 16 + key_byte rest 8 8;
         j = j + key_byte rest 7 24 + key_byte rest 6 16 + key_byte rest 5 8 + key_byte rest 4 0;
         i = i + key_byte rest 3 24 + key_byte rest 2 16 + key_byte rest 1 8 + key_byte rest 0 0;
         (i, j, hashv) = HASH_JEN_MIX i j hashv
     in hashv)"

section \<open>Tables\<close>

record hash_bucket =
  hh_head :: "addr list"
  bkt_count :: nat
  expand_mult :: nat

record hash_handle =
  hh_key :: "u8 list"
  hashv :: u32

record hash_table =
  buckets :: "hash_bucket list"
  num_buckets :: nat
  log2_num_buckets :: nat
  num_items :: nat
  ideal_chain_maxlen :: nat
  nonideal_items :: nat
  ineff_expands :: nat
  noexpand :: bool
  app_order :: "addr list"
  handles :: "addr \<rightharpoonup> hash_handle"

type_synonym hash_head = "hash_table option"

definition HASH_BKT_CAPACITY_THRESH :: nat where
  "HASH_BKT_CAPACITY_THRESH = 10"

definition empty_bucket :: hash_bucket where
  "empty_bucket = \<lparr>hh_head = [], bkt_count = 0, expand_mult = 0\<rparr>"

definition HASH_MAKE_TABLE :: hash_table where
  "HASH_MAKE_TABLE = \<lparr>buckets = replicate 32 empty_bucket, num_buckets = 32, log2_num_buckets = 5, num_items = 0,
     ideal_chain_maxlen = 0, nonideal_items = 0, ineff_expands = 0, noexpand = False, app_order = [],
     handles = Map.empty\<rparr>"

definition HASH_TO_BKT :: "u32 \<Rightarrow> nat \<Rightarrow> nat" where
  "HASH_TO_BKT hv num_bkts = unat (hv AND (of_nat num_bkts - 1))"

definition key_of :: "hash_table \<Rightarrow> addr \<Rightarrow> u8 list option" where
  "key_of t a = map_option hh_key (handles t a)"

definition HASH_FIND_IN_BKT :: "hash_table \<Rightarrow> addr list \<Rightarrow> u8 list \<Rightarrow> addr option" where
  "HASH_FIND_IN_BKT t chain key = find (\<lambda>a. key_of t a = Some key) chain"

definition HASH_FIND :: "hash_head \<Rightarrow> u8 list \<Rightarrow> addr option" where
  "HASH_FIND head key = (case head of
       None \<Rightarrow> None
     | Some t \<Rightarrow> HASH_FIND_IN_BKT t (hh_head (buckets t ! HASH_TO_BKT (HASH_JEN key) (num_buckets t))) key)"

text \<open>One element of the redistribution: new buckets and the number of items beyond the ideal length.\<close>

definition expand_one :: "nat \<Rightarrow> (addr \<Rightarrow> nat) \<Rightarrow> addr \<Rightarrow> hash_bucket list \<times> nat \<Rightarrow> hash_bucket list \<times> nat" where
  "expand_one ideal bkt a st = (
     let (bs, nonideal) = st; i = bkt a; b = bs ! i; n = bkt_count b + 1;
         b = b\<lparr>bkt_count := n, hh_head := a # hh_head b\<rparr>;
         over = n > ideal
     in (bs[i := if over then b\<lparr>expand_mult := n div ideal\<rparr> else b], if over then nonideal + 1 else nonideal))"

definition hash_of :: "hash_table \<Rightarrow> addr \<Rightarrow> u32" where
  "hash_of t a = (case handles t a of Some x \<Rightarrow> hashv x | None \<Rightarrow> 0)"

definition HASH_EXPAND_BUCKETS :: "hash_table \<Rightarrow> hash_table option" where
  "HASH_EXPAND_BUCKETS t = do {
     let n = 2 * num_buckets t;
     assert_that (n < 2 ^ 32);
     let ideal = num_items t div 2 ^ (log2_num_buckets t + 1) + (if num_items t mod n = 0 then 0 else 1);
     let (bs, nonideal) = fold (expand_one ideal (\<lambda>a. HASH_TO_BKT (hash_of t a) n))
           (concat (map hh_head (buckets t))) (replicate n empty_bucket, 0);
     let ineff = (if nonideal > num_items t div 2 then ineff_expands t + 1 else 0);
     Some (t\<lparr>ideal_chain_maxlen := ideal, nonideal_items := nonideal, num_buckets := n,
       log2_num_buckets := log2_num_buckets t + 1, buckets := bs, ineff_expands := ineff,
       noexpand := noexpand t \<or> ineff > 1\<rparr>)
   }"

definition HASH_ADD_TO_BKT :: "hash_table \<Rightarrow> nat \<Rightarrow> addr \<Rightarrow> hash_table option" where
  "HASH_ADD_TO_BKT t i a = (
     let b = buckets t ! i;
         b = b\<lparr>bkt_count := bkt_count b + 1, hh_head := a # hh_head b\<rparr>;
         t = t\<lparr>buckets := (buckets t)[i := b]\<rparr>
     in if bkt_count b \<ge> (expand_mult b + 1) * HASH_BKT_CAPACITY_THRESH \<and> \<not> noexpand t
        then HASH_EXPAND_BUCKETS t else Some t)"

definition HASH_ADD_KEYPTR :: "hash_head \<Rightarrow> u8 list \<Rightarrow> addr \<Rightarrow> hash_head option" where
  "HASH_ADD_KEYPTR head key add = do {
     let t = (case head of None \<Rightarrow> HASH_MAKE_TABLE | Some t \<Rightarrow> t);
     let t = t\<lparr>app_order := app_order t @ [add], num_items := num_items t + 1\<rparr>;
     let hv = HASH_JEN key;
     let t = t\<lparr>handles := (handles t)(add \<mapsto> \<lparr>hh_key = key, hashv = hv\<rparr>)\<rparr>;
     t \<leftarrow> HASH_ADD_TO_BKT t (HASH_TO_BKT hv (num_buckets t)) add;
     Some (Some t)
   }"

definition HASH_DEL_IN_BKT :: "hash_bucket \<Rightarrow> addr \<Rightarrow> hash_bucket" where
  "HASH_DEL_IN_BKT b a = b\<lparr>bkt_count := bkt_count b - 1, hh_head := remove1 a (hh_head b)\<rparr>"

definition HASH_DELETE :: "hash_head \<Rightarrow> addr \<Rightarrow> hash_head option" where
  "HASH_DELETE head delptr = do {
     t \<leftarrow> head;
     x \<leftarrow> handles t delptr;
     if app_order t = [delptr] then Some None
     else do {
       let t = t\<lparr>app_order := remove1 delptr (app_order t), handles := (handles t)(delptr := None)\<rparr>;
       let i = HASH_TO_BKT (hashv x) (num_buckets t);
       Some (Some (t\<lparr>buckets := (buckets t)[i := HASH_DEL_IN_BKT (buckets t ! i) delptr],
         num_items := num_items t - 1\<rparr>))
     }
   }"

text \<open>The elements that \<open>HASH_ITER\<close> visits.\<close>

definition HASH_ITER :: "hash_head \<Rightarrow> addr list" where
  "HASH_ITER head = (case head of None \<Rightarrow> [] | Some t \<Rightarrow> app_order t)"

section \<open>The invariant\<close>

definition elem_key :: "hash_head \<Rightarrow> addr \<Rightarrow> u8 list option" where
  "elem_key head a = (case head of None \<Rightarrow> None | Some t \<Rightarrow> key_of t a)"

definition chain_ok :: "(addr \<Rightarrow> nat) \<Rightarrow> addr set \<Rightarrow> nat \<Rightarrow> hash_bucket \<Rightarrow> bool" where
  "chain_ok bkt A i b \<longleftrightarrow> distinct (hh_head b) \<and> set (hh_head b) = {a \<in> A. bkt a = i} \<and> bkt_count b = length (hh_head b)"

definition hash_inv :: "hash_table \<Rightarrow> bool" where
  "hash_inv t \<longleftrightarrow> num_buckets t = 2 ^ log2_num_buckets t \<and> log2_num_buckets t < 32 \<and>
     length (buckets t) = num_buckets t \<and> distinct (app_order t) \<and> dom (handles t) = set (app_order t) \<and>
     num_items t = length (app_order t) \<and>
     (\<forall>a x. handles t a = Some x \<longrightarrow> hashv x = HASH_JEN (hh_key x)) \<and> inj_on (key_of t) (set (app_order t)) \<and>
     (\<forall>i < num_buckets t.
        chain_ok (\<lambda>a. HASH_TO_BKT (hash_of t a) (num_buckets t)) (set (app_order t)) i (buckets t ! i))"

definition head_inv :: "hash_head \<Rightarrow> bool" where
  "head_inv head \<longleftrightarrow> (case head of None \<Rightarrow> True | Some t \<Rightarrow> hash_inv t \<and> app_order t \<noteq> [])"

text \<open>The buckets of the table can still be doubled.\<close>

definition head_room :: "hash_head \<Rightarrow> bool" where
  "head_room head \<longleftrightarrow> (case head of None \<Rightarrow> True | Some t \<Rightarrow> log2_num_buckets t < 31)"

lemma HASH_TO_BKT_mod:
  assumes "k \<le> 32"
  shows "HASH_TO_BKT hv (2 ^ k) = unat hv mod 2 ^ k"
proof -
  have "(of_nat (2 ^ k) - 1 :: u32) = mask k" by (simp add: mask_eq_exp_minus_1)
  then have "hv AND (of_nat (2 ^ k) - 1) = take_bit k hv" by (simp only: take_bit_eq_mask)
  moreover have "unat (take_bit k hv) = take_bit k (unat hv)" by (rule unsigned_take_bit_eq)
  moreover have "take_bit k (unat hv) = unat hv mod 2 ^ k" by (rule take_bit_eq_mod)
  ultimately show ?thesis by (simp only: HASH_TO_BKT_def)
qed

lemma HASH_TO_BKT_less: "k \<le> 32 \<Longrightarrow> HASH_TO_BKT hv (2 ^ k) < 2 ^ k"
  by (simp add: HASH_TO_BKT_mod)

lemma hash_invD:
  assumes "hash_inv t"
  shows "num_buckets t = 2 ^ log2_num_buckets t" "log2_num_buckets t < 32" "length (buckets t) = num_buckets t"
    "distinct (app_order t)" "dom (handles t) = set (app_order t)" "num_items t = length (app_order t)"
    "inj_on (key_of t) (set (app_order t))"
    "handles t a = Some x \<Longrightarrow> hashv x = HASH_JEN (hh_key x)"
    "i < num_buckets t \<Longrightarrow> chain_ok (\<lambda>a. HASH_TO_BKT (hash_of t a) (num_buckets t)) (set (app_order t)) i (buckets t ! i)"
  using assms by (auto simp: hash_inv_def)

lemma hash_invI:
  assumes "num_buckets t = 2 ^ log2_num_buckets t" "log2_num_buckets t < 32" "length (buckets t) = num_buckets t"
    "distinct (app_order t)" "dom (handles t) = set (app_order t)" "num_items t = length (app_order t)"
    "inj_on (key_of t) (set (app_order t))"
    "\<And>a x. handles t a = Some x \<Longrightarrow> hashv x = HASH_JEN (hh_key x)"
    "\<And>i. i < num_buckets t \<Longrightarrow>
      chain_ok (\<lambda>a. HASH_TO_BKT (hash_of t a) (num_buckets t)) (set (app_order t)) i (buckets t ! i)"
  shows "hash_inv t"
  using assms unfolding hash_inv_def by blast

lemma bkt_less: "hash_inv t \<Longrightarrow> HASH_TO_BKT hv (num_buckets t) < num_buckets t"
  using HASH_TO_BKT_less [of "log2_num_buckets t" hv] hash_invD(1,2) [of t] by simp

lemma hash_of_key: "hash_inv t \<Longrightarrow> key_of t a = Some k \<Longrightarrow> hash_of t a = HASH_JEN k"
  using hash_invD(8) [of t a] by (auto simp: key_of_def hash_of_def)

section \<open>Lookup\<close>

lemma HASH_FIND_iff:
  assumes "head_inv head"
  shows "HASH_FIND head key = Some a \<longleftrightarrow> a \<in> set (HASH_ITER head) \<and> elem_key head a = Some key"
proof (cases head)
  case None
  then show ?thesis by (simp add: HASH_FIND_def HASH_ITER_def)
next
  case (Some t)
  have inv: "hash_inv t" using assms Some by (simp add: head_inv_def)
  let ?i = "HASH_TO_BKT (HASH_JEN key) (num_buckets t)"
  let ?c = "hh_head (buckets t ! ?i)"
  have c: "set ?c = {a \<in> set (app_order t). HASH_TO_BKT (hash_of t a) (num_buckets t) = ?i}"
    using hash_invD(9) [OF inv bkt_less [OF inv]] by (simp add: chain_ok_def)
  have mem: "a \<in> set ?c \<longleftrightarrow> a \<in> set (app_order t)" if "key_of t a = Some key" for a
    using c hash_of_key [OF inv that] by simp
  have uniq: "a = b" if "a \<in> set (app_order t)" "b \<in> set (app_order t)" "key_of t a = Some key" "key_of t b = Some key" for a b
    using inj_onD [OF hash_invD(7) [OF inv]] that by simp
  have "find (\<lambda>a. key_of t a = Some key) ?c = Some a \<longleftrightarrow> a \<in> set (app_order t) \<and> key_of t a = Some key"
  proof
    assume "find (\<lambda>a. key_of t a = Some key) ?c = Some a"
    then show "a \<in> set (app_order t) \<and> key_of t a = Some key" using c by (auto simp: find_Some_iff)
  next
    assume a: "a \<in> set (app_order t) \<and> key_of t a = Some key"
    then have "find (\<lambda>a. key_of t a = Some key) ?c \<noteq> None" using mem by (auto simp: find_None_iff)
    then obtain b where b: "find (\<lambda>a. key_of t a = Some key) ?c = Some b" by blast
    then have "b \<in> set (app_order t)" "key_of t b = Some key" using c by (auto simp: find_Some_iff)
    then show "find (\<lambda>a. key_of t a = Some key) ?c = Some a" using uniq a b by blast
  qed
  then show ?thesis by (simp add: Some HASH_FIND_def HASH_FIND_IN_BKT_def HASH_ITER_def elem_key_def)
qed

section \<open>Doubling the buckets\<close>

lemma expand_fold:
  assumes "\<forall>a \<in> set xs. bkt a < n" "distinct xs"
  shows "length (fst (fold (expand_one ideal bkt) xs (replicate n empty_bucket, 0))) = n \<and>
    (\<forall>i < n. chain_ok bkt (set xs) i (fst (fold (expand_one ideal bkt) xs (replicate n empty_bucket, 0)) ! i))"
  using assms
proof (induction xs rule: rev_induct)
  case Nil
  then show ?case by (simp add: chain_ok_def empty_bucket_def)
next
  case (snoc x xs)
  obtain bs m where f: "fold (expand_one ideal bkt) xs (replicate n empty_bucket, 0) = (bs, m)" by fastforce
  have IH: "length bs = n" "\<And>i. i < n \<Longrightarrow> chain_ok bkt (set xs) i (bs ! i)" using snoc f by auto
  have x: "bkt x < n" "x \<notin> set xs" using snoc.prems by auto
  have "chain_ok bkt (insert x (set xs)) i (fst (expand_one ideal bkt x (bs, m)) ! i)" if "i < n" for i
  proof (cases "i = bkt x")
    case True
    then show ?thesis using IH(1) IH(2) [OF x(1)] x
      by (auto simp: expand_one_def chain_ok_def Let_def)
  next
    case False
    then show ?thesis using IH(2) [OF that] by (auto simp: expand_one_def chain_ok_def Let_def)
  qed
  moreover have "length (fst (expand_one ideal bkt x (bs, m))) = n" using IH(1) by (simp add: expand_one_def Let_def)
  ultimately show ?case by (simp add: f)
qed

lemma distinct_concat_by:
  "(\<forall>i < length xss. distinct (xss ! i) \<and> (\<forall>a \<in> set (xss ! i). f a = k + i)) \<Longrightarrow>
   distinct (concat xss) \<and> (\<forall>a \<in> set (concat xss). k \<le> f a)"
proof (induction xss arbitrary: k)
  case (Cons xs xss)
  have "distinct xs" "\<forall>a \<in> set xs. f a = k" using Cons.prems by force+
  moreover have "\<forall>i < length xss. distinct (xss ! i) \<and> (\<forall>a \<in> set (xss ! i). f a = Suc k + i)"
    using Cons.prems by force
  from Cons.IH [OF this] have "distinct (concat xss)" "\<forall>a \<in> set (concat xss). Suc k \<le> f a" by auto
  ultimately show ?case by fastforce
qed simp

lemma chains_all:
  assumes "hash_inv t"
  shows "distinct (concat (map hh_head (buckets t)))" "set (concat (map hh_head (buckets t))) = set (app_order t)"
proof -
  let ?f = "\<lambda>a. HASH_TO_BKT (hash_of t a) (num_buckets t)"
  have c: "chain_ok ?f (set (app_order t)) i (buckets t ! i)" if "i < length (buckets t)" for i
    using hash_invD(9) [OF assms, of i] hash_invD(3) [OF assms] that by simp
  have "\<forall>i < length (map hh_head (buckets t)). distinct (map hh_head (buckets t) ! i) \<and>
      (\<forall>a \<in> set (map hh_head (buckets t) ! i). ?f a = 0 + i)"
    using c by (simp add: chain_ok_def)
  from distinct_concat_by [OF this] show "distinct (concat (map hh_head (buckets t)))" ..
  show "set (concat (map hh_head (buckets t))) = set (app_order t)"
  proof (intro equalityI subsetI)
    fix a assume "a \<in> set (app_order t)"
    moreover define i where "i = ?f a"
    moreover have i: "i < length (buckets t)" using bkt_less [OF assms] hash_invD(3) [OF assms] by (simp add: i_def)
    ultimately have "a \<in> set (hh_head (buckets t ! i))" using c [OF i] by (simp add: chain_ok_def)
    then show "a \<in> set (concat (map hh_head (buckets t)))" using i by auto
  next
    fix a assume "a \<in> set (concat (map hh_head (buckets t)))"
    then obtain b where "b \<in> set (buckets t)" "a \<in> set (hh_head b)" by auto
    then obtain i where "i < length (buckets t)" "a \<in> set (hh_head (buckets t ! i))" by (auto simp: in_set_conv_nth)
    then show "a \<in> set (app_order t)" using c [of i] by (simp add: chain_ok_def)
  qed
qed

lemma expand_ok:
  assumes inv: "hash_inv t" and room: "log2_num_buckets t < 31"
  obtains t' where "HASH_EXPAND_BUCKETS t = Some t'" "hash_inv t'" "app_order t' = app_order t" "handles t' = handles t"
proof -
  let ?n = "2 * num_buckets t" let ?bkt = "\<lambda>a. HASH_TO_BKT (hash_of t a) ?n"
  have n: "?n = 2 ^ Suc (log2_num_buckets t)" using hash_invD(1) [OF inv] by simp
  have lt: "?n < 2 ^ 32" unfolding n by (rule power_strict_increasing) (use room in auto)
  let ?xs = "concat (map hh_head (buckets t))"
  define ideal where "ideal = num_items t div 2 ^ (log2_num_buckets t + 1) + (if num_items t mod ?n = 0 then 0 else 1)"
  obtain bs m where f: "fold (expand_one ideal ?bkt) ?xs (replicate ?n empty_bucket, 0) = (bs, m)" by fastforce
  have "\<forall>a \<in> set ?xs. ?bkt a < ?n"
    unfolding n using HASH_TO_BKT_less [of "Suc (log2_num_buckets t)"] room by simp
  from expand_fold [OF this chains_all(1) [OF inv], of ideal]
  have bs: "length bs = ?n" "\<And>i. i < ?n \<Longrightarrow> chain_ok ?bkt (set (app_order t)) i (bs ! i)"
    unfolding chains_all(2) [OF inv] by (simp_all add: f)
  define ineff where "ineff = (if m > num_items t div 2 then ineff_expands t + 1 else 0)"
  define t' where "t' = t\<lparr>ideal_chain_maxlen := ideal, nonideal_items := m, num_buckets := ?n,
       log2_num_buckets := log2_num_buckets t + 1, buckets := bs, ineff_expands := ineff,
       noexpand := noexpand t \<or> ineff > 1\<rparr>"
  have "HASH_EXPAND_BUCKETS t = Some t'"
    using lt f by (simp add: HASH_EXPAND_BUCKETS_def Let_def ideal_def t'_def ineff_def)
  moreover have "hash_of t' = hash_of t" "key_of t' = key_of t" by (simp_all add: hash_of_def key_of_def t'_def fun_eq_iff)
  then have "hash_inv t'" using inv bs n room by (simp add: hash_inv_def t'_def)
  ultimately show ?thesis using that by (simp add: t'_def)
qed

section \<open>Adding and deleting\<close>

lemma add_bucket_inv:
  assumes inv: "hash_inv t" and new: "add \<notin> set (app_order t)" "\<forall>a \<in> set (app_order t). key_of t a \<noteq> Some key"
    and i: "i = HASH_TO_BKT (HASH_JEN key) (num_buckets t)" and b: "b = buckets t ! i"
  shows "hash_inv (t\<lparr>app_order := app_order t @ [add], num_items := Suc (num_items t),
    handles := (handles t)(add \<mapsto> \<lparr>hh_key = key, hashv = HASH_JEN key\<rparr>),
    buckets := (buckets t)[i := b\<lparr>bkt_count := Suc (bkt_count b), hh_head := add # hh_head b\<rparr>]\<rparr>)" (is "hash_inv ?t")
proof -
  have h: "hash_of ?t = (hash_of t)(add := HASH_JEN key)" by (auto simp: hash_of_def fun_eq_iff)
  have k: "key_of ?t = (key_of t)(add := Some key)" by (auto simp: key_of_def fun_eq_iff)
  show ?thesis
  proof (rule hash_invI)
    show "inj_on (key_of ?t) (set (app_order ?t))"
      unfolding k using hash_invD(7) [OF inv] new by (auto simp: inj_on_def)
    show "chain_ok (\<lambda>a. HASH_TO_BKT (hash_of ?t a) (num_buckets ?t)) (set (app_order ?t)) j (buckets ?t ! j)"
      if "j < num_buckets ?t" for j
      using hash_invD(9) [OF inv, of j] hash_invD(3) [OF inv] new(1) that i b unfolding h
      by (cases "j = i") (auto simp: chain_ok_def)
    show "hashv x = HASH_JEN (hh_key x)" if "handles ?t a = Some x" for a x
      using hash_invD(8) [OF inv, of a x] that by (auto split: if_splits)
  qed (use hash_invD(1-6) [OF inv] new(1) in auto)
qed

lemma make_table_inv: "hash_inv HASH_MAKE_TABLE"
  by (simp add: hash_inv_def HASH_MAKE_TABLE_def chain_ok_def empty_bucket_def)

lemma HASH_ADD_ok:
  assumes "head_inv head" "head_room head" "add \<notin> set (HASH_ITER head)" "HASH_FIND head key = None"
  shows "\<exists>head'. HASH_ADD_KEYPTR head key add = Some head' \<and> head_inv head' \<and>
    HASH_ITER head' = HASH_ITER head @ [add] \<and> elem_key head' = (elem_key head)(add \<mapsto> key)"
proof -
  define t where "t = (case head of None \<Rightarrow> HASH_MAKE_TABLE | Some t \<Rightarrow> t)"
  have t: "hash_inv t" "log2_num_buckets t < 31" "HASH_ITER head = app_order t" "elem_key head = key_of t"
    using assms(1,2) make_table_inv
    by (auto simp: t_def head_inv_def head_room_def HASH_ITER_def elem_key_def HASH_MAKE_TABLE_def key_of_def fun_eq_iff
        split: option.splits)
  have new: "add \<notin> set (app_order t)" "\<forall>a \<in> set (app_order t). key_of t a \<noteq> Some key"
    using assms(3,4) HASH_FIND_iff [OF assms(1), of key] t(3,4) by auto
  define i where "i = HASH_TO_BKT (HASH_JEN key) (num_buckets t)"
  define b where "b = buckets t ! i"
  define t1 where "t1 = t\<lparr>app_order := app_order t @ [add], num_items := Suc (num_items t),
    handles := (handles t)(add \<mapsto> \<lparr>hh_key = key, hashv = HASH_JEN key\<rparr>),
    buckets := (buckets t)[i := b\<lparr>bkt_count := Suc (bkt_count b), hh_head := add # hh_head b\<rparr>]\<rparr>"
  have inv: "hash_inv t1" unfolding t1_def by (rule add_bucket_inv [OF t(1) new i_def b_def])
  have k: "key_of t1 = (key_of t)(add \<mapsto> key)" by (auto simp: key_of_def t1_def fun_eq_iff)
  obtain t2 where t2: "HASH_EXPAND_BUCKETS t1 = Some t2" "hash_inv t2" "app_order t2 = app_order t1" "handles t2 = handles t1"
    using expand_ok [OF inv] t(2) by (auto simp: t1_def)
  have k2: "key_of t2 = key_of t1" using t2(4) by (simp add: key_of_def fun_eq_iff)
  have o: "app_order t1 = app_order t @ [add]" by (simp add: t1_def)
  have "HASH_ADD_KEYPTR head key add = Some (Some t1) \<or> HASH_ADD_KEYPTR head key add = Some (Some t2)"
    using t2(1) by (auto simp: HASH_ADD_KEYPTR_def HASH_ADD_TO_BKT_def Let_def t_def [symmetric] i_def [symmetric]
        b_def [symmetric] t1_def [symmetric])
  then show ?thesis
    using inv t2(2,3) k k2 o t(3,4) by (auto simp: head_inv_def HASH_ITER_def elem_key_def fun_eq_iff)
qed

lemma HASH_DELETE_ok:
  assumes "head_inv head" "a \<in> set (HASH_ITER head)"
  shows "\<exists>head'. HASH_DELETE head a = Some head' \<and> head_inv head' \<and> head_room head' = (head' = None \<or> head_room head) \<and>
    HASH_ITER head' = remove1 a (HASH_ITER head) \<and> elem_key head' = (elem_key head)(a := None)"
proof -
  obtain t where t: "head = Some t" "hash_inv t" "a \<in> set (app_order t)"
    using assms by (auto simp: head_inv_def HASH_ITER_def split: option.splits)
  obtain x where x: "handles t a = Some x" using t(3) hash_invD(5) [OF t(2)] by auto
  show ?thesis
  proof (cases "app_order t = [a]")
    case True
    then have "elem_key head = [a \<mapsto> hh_key x]"
      using hash_invD(5) [OF t(2)] x t(1) by (auto simp: elem_key_def key_of_def fun_eq_iff dom_def)
    then show ?thesis using True t(1) x
      by (auto simp: HASH_DELETE_def HASH_ITER_def elem_key_def head_inv_def head_room_def fun_eq_iff)
  next
    case False
    define i where "i = HASH_TO_BKT (hashv x) (num_buckets t)"
    define b where "b = buckets t ! i"
    let ?t = "t\<lparr>app_order := remove1 a (app_order t), handles := (handles t)(a := None),
      buckets := (buckets t)[i := HASH_DEL_IN_BKT b a], num_items := num_items t - 1\<rparr>"
    have d: "HASH_DELETE head a = Some (Some ?t)"
      using False x by (simp add: t(1) HASH_DELETE_def Let_def i_def b_def)
    have s: "set (remove1 a (app_order t)) = set (app_order t) - {a}" using hash_invD(4) [OF t(2)] by simp
    have h: "hash_of ?t c = hash_of t c" if "c \<noteq> a" for c using that by (simp add: hash_of_def)
    have k: "key_of ?t = (key_of t)(a := None)" by (auto simp: key_of_def fun_eq_iff)
    have ia: "i = HASH_TO_BKT (hash_of t a) (num_buckets t)" using x by (simp add: i_def hash_of_def)
    have j1: "inj_on (key_of ?t) (set (app_order ?t))"
      unfolding k using hash_invD(7) [OF t(2)] s by (auto simp: inj_on_def)
    have j2: "chain_ok (\<lambda>c. HASH_TO_BKT (hash_of ?t c) (num_buckets t)) (set (app_order t) - {a}) j (buckets ?t ! j)"
      if j: "j < num_buckets t" for j
    proof -
      have c: "chain_ok (\<lambda>c. HASH_TO_BKT (hash_of t c) (num_buckets t)) (set (app_order t)) j (buckets t ! j)"
        by (rule hash_invD(9) [OF t(2) j])
      have eq: "{c \<in> set (app_order t) - {a}. HASH_TO_BKT (hash_of ?t c) (num_buckets t) = j} =
          {c \<in> set (app_order t). HASH_TO_BKT (hash_of t c) (num_buckets t) = j} - {a}" using h by auto
      show ?thesis
      proof (cases "j = i")
        case True
        then have "a \<in> set (hh_head (buckets t ! j))" using c t(3) ia by (simp add: chain_ok_def)
        then show ?thesis using c True j hash_invD(3) [OF t(2)]
          unfolding chain_ok_def eq by (simp add: b_def HASH_DEL_IN_BKT_def length_remove1)
      next
        case False
        then show ?thesis using c ia unfolding chain_ok_def eq by auto
      qed
    qed
    have "hash_inv ?t"
    proof (rule hash_invI [OF _ _ _ _ _ _ j1])
      show "hashv y = HASH_JEN (hh_key y)" if "handles ?t c = Some y" for c y
        using hash_invD(8) [OF t(2), of c y] that by (auto split: if_splits)
      show "chain_ok (\<lambda>c. HASH_TO_BKT (hash_of ?t c) (num_buckets ?t)) (set (app_order ?t)) j (buckets ?t ! j)"
        if "j < num_buckets ?t" for j using j2 [of j] that s by simp
      show "num_items ?t = length (app_order ?t)" using hash_invD(6) [OF t(2)] t(3) by (simp add: length_remove1)
    qed (use hash_invD(1-5) [OF t(2)] s in auto)
    moreover obtain xs ys where "app_order t = xs @ a # ys" "a \<notin> set xs" using split_list_first [OF t(3)] by blast
    then have "remove1 a (app_order t) \<noteq> []" using False by (auto simp: remove1_append)
    ultimately show ?thesis using d t(1) k
      by (auto simp: head_inv_def head_room_def HASH_ITER_def elem_key_def fun_eq_iff)
  qed
qed

section \<open>The interface\<close>

text \<open>
  What the clients rely on: a table of elements with pairwise distinct keys, visited in the order of insertion.
\<close>

locale keyed_table =
  fixes find :: "'t \<Rightarrow> 'k \<Rightarrow> 'e option"
    and add :: "'t \<Rightarrow> 'k \<Rightarrow> 'e \<Rightarrow> 't option"
    and del :: "'t \<Rightarrow> 'e \<Rightarrow> 't option"
    and iter :: "'t \<Rightarrow> 'e list"
    and key :: "'t \<Rightarrow> 'e \<Rightarrow> 'k option"
    and inv :: "'t \<Rightarrow> bool"
    and room :: "'t \<Rightarrow> bool"
  assumes find_iff: "inv t \<Longrightarrow> find t k = Some e \<longleftrightarrow> e \<in> set (iter t) \<and> key t e = Some k"
    and add_law: "inv t \<Longrightarrow> room t \<Longrightarrow> e \<notin> set (iter t) \<Longrightarrow> find t k = None \<Longrightarrow>
      \<exists>t'. add t k e = Some t' \<and> inv t' \<and> iter t' = iter t @ [e] \<and> key t' = (key t)(e \<mapsto> k)"
    and del_law: "inv t \<Longrightarrow> e \<in> set (iter t) \<Longrightarrow>
      \<exists>t'. del t e = Some t' \<and> inv t' \<and> (room t \<longrightarrow> room t') \<and> iter t' = remove1 e (iter t) \<and> key t' = (key t)(e := None)"
    and distinct_iter: "inv t \<Longrightarrow> distinct (iter t)"
begin

lemma find_none: "inv t \<Longrightarrow> find t k = None \<longleftrightarrow> (\<forall>e \<in> set (iter t). key t e \<noteq> Some k)"
  using find_iff [of t k] by (metis not_Some_eq)

lemma find_unique: "inv t \<Longrightarrow> find t k = Some e \<Longrightarrow> d \<in> set (iter t) \<Longrightarrow> key t d = Some k \<Longrightarrow> d = e"
  using find_iff [of t k] by (metis option.inject)

text \<open>Looking up any key after an insertion and after a deletion.\<close>

lemma find_add:
  assumes "inv t" "room t" "e \<notin> set (iter t)" "find t k = None"
  obtains t' where "add t k e = Some t'" "inv t'" "iter t' = iter t @ [e]" "key t' = (key t)(e \<mapsto> k)"
    "\<And>l. find t' l = (if l = k then Some e else find t l)"
proof -
  obtain t' where t': "add t k e = Some t'" "inv t'" "iter t' = iter t @ [e]" "key t' = (key t)(e \<mapsto> k)"
    using add_law [OF assms] by blast
  have "find t' l = (if l = k then Some e else find t l)" for l
  proof (cases "l = k")
    case True
    then show ?thesis using find_iff [OF t'(2), of k e] t'(3,4) by simp
  next
    case False
    have "find t' l = Some d \<longleftrightarrow> find t l = Some d" for d
      using find_iff [OF t'(2), of l d] find_iff [OF assms(1), of l d] t'(3,4) assms(3) False by auto
    then show ?thesis using False by (metis not_None_eq)
  qed
  then show ?thesis using that t' by blast
qed

lemma find_del:
  assumes "inv t" "e \<in> set (iter t)"
  obtains t' where "del t e = Some t'" "inv t'" "iter t' = remove1 e (iter t)" "key t' = (key t)(e := None)"
    "room t \<longrightarrow> room t'" "\<And>l. find t' l = (if find t l = Some e then None else find t l)"
proof -
  obtain t' where t': "del t e = Some t'" "inv t'" "iter t' = remove1 e (iter t)" "key t' = (key t)(e := None)"
    "room t \<longrightarrow> room t'"
    using del_law [OF assms] by blast
  have "find t' l = (if find t l = Some e then None else find t l)" for l
  proof -
    have "find t' l = Some d \<longleftrightarrow> find t l = Some d \<and> d \<noteq> e" for d
      using find_iff [OF t'(2), of l d] find_iff [OF assms(1), of l d] t'(3,4) distinct_iter [OF assms(1)] by auto
    then show ?thesis by (metis not_None_eq option.inject)
  qed
  then show ?thesis using that t' by blast
qed

end

lemma iter_distinct: "head_inv head \<Longrightarrow> distinct (HASH_ITER head)"
  by (auto simp: head_inv_def HASH_ITER_def hash_inv_def split: option.splits)

interpretation uh: keyed_table HASH_FIND HASH_ADD_KEYPTR HASH_DELETE HASH_ITER elem_key head_inv head_room
proof unfold_locales
  fix t e assume "head_inv t" "e \<in> set (HASH_ITER t)"
  from HASH_DELETE_ok [OF this]
  show "\<exists>t'. HASH_DELETE t e = Some t' \<and> head_inv t' \<and> (head_room t \<longrightarrow> head_room t') \<and> HASH_ITER t' = remove1 e (HASH_ITER t) \<and>
      elem_key t' = (elem_key t)(e := None)" by blast
qed (rule HASH_FIND_iff HASH_ADD_ok iter_distinct; assumption)+

text \<open>
  C4. Adding an element with a new key to the hash table, doubling the buckets if their capacity is reached,
  keeps the invariant of the table, appends the element to the iteration, and changes the result of the lookup
  for its key only.
\<close>

theorem HASH_ADD_FIND:
  assumes "head_inv head" "head_room head" "add \<notin> set (HASH_ITER head)" "HASH_FIND head key = None"
  shows "\<exists>head'. HASH_ADD_KEYPTR head key add = Some head' \<and> head_inv head' \<and> HASH_ITER head' = HASH_ITER head @ [add] \<and>
    (\<forall>l. HASH_FIND head' l = (if l = key then Some add else HASH_FIND head l))"
proof -
  obtain head' where "HASH_ADD_KEYPTR head key add = Some head'" "head_inv head'" "HASH_ITER head' = HASH_ITER head @ [add]"
    "\<And>l. HASH_FIND head' l = (if l = key then Some add else HASH_FIND head l)"
    using assms by (rule uh.find_add) blast
  then show ?thesis by blast
qed

theorem HASH_ADD_FIND_witness:
  "\<exists>head'. HASH_ADD_KEYPTR None [1, 2, 3] 7 = Some head' \<and> HASH_ITER head' = [7] \<and> HASH_FIND head' [1, 2, 3] = Some 7"
proof -
  have "\<exists>head'. HASH_ADD_KEYPTR None [1, 2, 3] 7 = Some head' \<and> head_inv head' \<and> HASH_ITER head' = HASH_ITER None @ [7] \<and>
    (\<forall>l. HASH_FIND head' l = (if l = [1, 2, 3] then Some 7 else HASH_FIND None l))"
    by (rule HASH_ADD_FIND) (simp_all add: head_inv_def head_room_def HASH_ITER_def HASH_FIND_def)
  then show ?thesis by (auto simp: HASH_ITER_def)
qed



end
