(* ===== verification/Cnx_Table.thy ===== *)
theory Cnx_Table
  imports Uthash Error_Context
begin

text \<open>
  The connection table \<open>modules/protocol/ipv4/cnx.c\<close>: a hash table of connections, looked up by the addresses
  and ports of a packet in both directions.

  The state holds the table, its elements and the error context; \<open>malloc\<close> hands out fresh addresses and fails
  when the budget is used up.  The function pointer \<open>cnx_release\<close> of the table is the client's: the calls to
  it are recorded in \<open>released\<close>.  The Lua objects of a connection and the debugging log are left out, and the
  operations are modelled as they run under the mutex of the table.
\<close>

section \<open>Definitions\<close>

record cnx_key =
  srcip :: u32
  dstip :: u32
  srcport :: u16
  dstport :: u16

record cnx_stats =
  packets :: nat
  bytes :: nat

datatype cnx_dir = CNX_DIR_IN | CNX_DIR_OUT

record cnx =
  cnx_key :: cnx_key
  stats :: "cnx_dir \<Rightarrow> cnx_stats"
  dropped :: bool
  cnx_id :: u32

record cnx_table =
  cnx_head :: hash_head
  cnx_release_set :: bool
  table_id :: u32
  elems :: "addr \<rightharpoonup> cnx"
  cnx_fresh :: addr
  cnx_budget :: nat
  cnx_errs :: error_state
  released :: "(addr \<times> bool) list"

text \<open>The bytes of a key in memory, without padding.\<close>

definition key_bytes :: "cnx_key \<Rightarrow> u8 list" where
  "key_bytes k = le_bytes 4 (unat (srcip k)) @ le_bytes 4 (unat (dstip k)) @
     le_bytes 2 (unat (srcport k)) @ le_bytes 2 (unat (dstport k))"

text \<open>The two \<open>EXCHANGE\<close> of \<open>cnx_find\<close>.\<close>

definition exchange :: "cnx_key \<Rightarrow> cnx_key" where
  "exchange k = \<lparr>srcip = dstip k, dstip = srcip k, srcport = dstport k, dstport = srcport k\<rparr>"

definition cnx_table_new :: "bool \<Rightarrow> nat \<Rightarrow> error_state \<Rightarrow> cnx_table option \<times> error_state" where
  "cnx_table_new release_set budget e =
     (if budget = 0 then (None, error ''memory error'' e)
      else (Some \<lparr>cnx_head = None, cnx_release_set = release_set, table_id = 0, elems = Map.empty, cnx_fresh = 1,
        cnx_budget = budget - 1, cnx_errs = e, released = []\<rparr>, e))"

definition cnx_insert :: "cnx_table \<Rightarrow> addr \<Rightarrow> cnx_table option" where
  "cnx_insert table elem = do {
     c \<leftarrow> elems table elem;
     head \<leftarrow> HASH_ADD_KEYPTR (cnx_head table) (key_bytes (cnx_key c)) elem;
     Some (table\<lparr>cnx_head := head\<rparr>)
   }"

text \<open>The element found, the direction (if one is found), and whether it is dropped.\<close>

definition cnx_find :: "cnx_table \<Rightarrow> cnx_key \<Rightarrow> ((addr \<times> cnx_dir) option \<times> bool) option" where
  "cnx_find table key = (
     case HASH_FIND (cnx_head table) (key_bytes key) of
       Some ptr \<Rightarrow> do { c \<leftarrow> elems table ptr; Some (Some (ptr, CNX_DIR_IN), dropped c) }
     | None \<Rightarrow>
        (case HASH_FIND (cnx_head table) (key_bytes (exchange key)) of
           Some ptr \<Rightarrow> do { c \<leftarrow> elems table ptr; Some (Some (ptr, CNX_DIR_OUT), dropped c) }
         | None \<Rightarrow> Some (None, False)))"

definition cnx_remove :: "cnx_table \<Rightarrow> addr \<Rightarrow> cnx_table option" where
  "cnx_remove table elem = do {
     head \<leftarrow> HASH_DELETE (cnx_head table) elem;
     Some (table\<lparr>cnx_head := head\<rparr>)
   }"

definition cnx_release :: "cnx_table \<Rightarrow> addr \<Rightarrow> bool \<Rightarrow> cnx_table option" where
  "cnx_release table elem freemem = do {
     c \<leftarrow> elems table elem;
     let table = (if cnx_release_set table then table\<lparr>released := released table @ [(elem, freemem)]\<rparr> else table);
     Some (if freemem then table\<lparr>elems := (elems table)(elem := None)\<rparr> else table)
   }"

fun release_all :: "addr list \<Rightarrow> cnx_table \<Rightarrow> cnx_table option" where
  "release_all [] table = Some table"
| "release_all (elem # es) table = do {
     table \<leftarrow> cnx_remove table elem;
     table \<leftarrow> cnx_release table elem True;
     release_all es table
   }"

definition cnx_table_release :: "cnx_table \<Rightarrow> cnx_table option" where
  "cnx_table_release table = release_all (HASH_ITER (cnx_head table)) table"

definition cnx_error :: "cnx_table \<Rightarrow> string \<Rightarrow> cnx_table" where
  "cnx_error table msg = table\<lparr>cnx_errs := error msg (cnx_errs table)\<rparr>"

definition cnx_malloc :: "cnx_table \<Rightarrow> addr \<times> cnx_table" where
  "cnx_malloc table = (if cnx_budget table = 0 then (NULL, table)
     else (cnx_fresh table, table\<lparr>cnx_fresh := cnx_fresh table + 1, cnx_budget := cnx_budget table - 1\<rparr>))"

definition cnx_new :: "cnx_table \<Rightarrow> cnx_key \<Rightarrow> (addr \<times> cnx_table) option" where
  "cnx_new table key = do {
     (found, drp) \<leftarrow> cnx_find table key;
     (ok, table) \<leftarrow> (case found of
         Some (elem, _) \<Rightarrow>
           (if drp then do {
              table \<leftarrow> cnx_remove table elem;
              table \<leftarrow> cnx_release table elem True;
              Some (True, table)
            } else Some (False, cnx_error table ''cnx already exists''))
       | None \<Rightarrow> Some (True, table));
     if \<not> ok then Some (NULL, table)
     else do {
       let (elem, table) = cnx_malloc table;
       if elem = NULL then Some (NULL, cnx_error table ''memory error'')
       else do {
         let i = table_id table + 1;
         let c = \<lparr>cnx_key = key, stats = (\<lambda>_. \<lparr>packets = 0, bytes = 0\<rparr>), dropped = False, cnx_id = i\<rparr>;
         table \<leftarrow> cnx_insert (table\<lparr>table_id := i, elems := (elems table)(elem \<mapsto> c)\<rparr>) elem;
         Some (elem, table)
       }
     }
   }"

definition cnx_get_byid :: "cnx_table \<Rightarrow> u32 \<Rightarrow> addr option" where
  "cnx_get_byid table i =
     find (\<lambda>ptr. map_option cnx_id (elems table ptr) = Some i) (HASH_ITER (cnx_head table))"

text \<open>The connection, the direction and whether the connection is dropped.\<close>

definition cnx_get :: "cnx_table \<Rightarrow> cnx_key \<Rightarrow> (addr \<times> cnx_dir \<times> bool) option" where
  "cnx_get table key = do {
     (found, drp) \<leftarrow> cnx_find table key;
     Some (case found of
         Some (elem, dir) \<Rightarrow> (if drp then NULL else elem, dir, drp)
       | None \<Rightarrow> (NULL, CNX_DIR_IN, False))
   }"

text \<open>The callback gets its data, a connection and its index, and tells whether to go on.\<close>

fun foreach_loop :: "(addr \<rightharpoonup> cnx) \<Rightarrow> bool \<Rightarrow> ('d \<Rightarrow> cnx \<Rightarrow> nat \<Rightarrow> bool \<times> 'd) \<Rightarrow> addr list \<Rightarrow> nat \<Rightarrow> 'd \<Rightarrow> (bool \<times> 'd) option" where
  "foreach_loop es all cb [] index d = Some (True, d)"
| "foreach_loop es all cb (ptr # ps) index d = do {
     c \<leftarrow> es ptr;
     if all \<or> \<not> dropped c then
       (case cb d c index of
          (False, d) \<Rightarrow> Some (False, d)
        | (True, d) \<Rightarrow> foreach_loop es all cb ps (index + 1) d)
     else foreach_loop es all cb ps index d
   }"

definition cnx_foreach :: "cnx_table \<Rightarrow> bool \<Rightarrow> ('d \<Rightarrow> cnx \<Rightarrow> nat \<Rightarrow> bool \<times> 'd) \<Rightarrow> 'd \<Rightarrow> (bool \<times> 'd) option" where
  "cnx_foreach table include_dropped cb d =
     foreach_loop (elems table) include_dropped cb (HASH_ITER (cnx_head table)) 0 d"

definition cnx_close :: "cnx_table \<Rightarrow> addr \<Rightarrow> cnx_table option" where
  "cnx_close table elem = do {
     table \<leftarrow> cnx_remove table elem;
     cnx_release table elem True
   }"

definition cnx_drop :: "cnx_table \<Rightarrow> addr \<Rightarrow> cnx_table option" where
  "cnx_drop table elem = do {
     table \<leftarrow> cnx_release table elem False;
     c \<leftarrow> elems table elem;
     Some (table\<lparr>elems := (elems table)(elem \<mapsto> c\<lparr>dropped := True\<rparr>)\<rparr>)
   }"

definition cnx_update_stat :: "cnx_table \<Rightarrow> addr \<Rightarrow> cnx_dir \<Rightarrow> nat \<Rightarrow> cnx_table option" where
  "cnx_update_stat table elem dir sz = do {
     c \<leftarrow> elems table elem;
     let s = stats c dir;
     let s = \<lparr>packets = to_u64 (packets s + 1), bytes = to_u64 (bytes s + sz)\<rparr>;
     Some (table\<lparr>elems := (elems table)(elem \<mapsto> c\<lparr>stats := (stats c)(dir := s)\<rparr>)\<rparr>)
   }"

section \<open>Keys\<close>

lemma le_bytes_inj:
  assumes "le_bytes n x = le_bytes n y" "x < 256 ^ n" "y < 256 ^ n"
  shows "x = y"
  using arg_cong [OF assms(1), of le_nat] assms(2,3) by (simp add: le_nat_le_bytes)

lemma key_bytes_inj [simp]: "key_bytes k = key_bytes l \<longleftrightarrow> k = l"
proof
  assume e: "key_bytes k = key_bytes l"
  have b4: "unat (a :: u32) < 256 ^ 4" for a using unsigned_less [of a, where ?'a = nat] by simp
  have b2: "unat (a :: u16) < 256 ^ 2" for a using unsigned_less [of a, where ?'a = nat] by simp
  have "le_bytes 4 (unat (srcip k)) = le_bytes 4 (unat (srcip l))" "le_bytes 4 (unat (dstip k)) = le_bytes 4 (unat (dstip l))"
    "le_bytes 2 (unat (srcport k)) = le_bytes 2 (unat (srcport l))" "le_bytes 2 (unat (dstport k)) = le_bytes 2 (unat (dstport l))"
    using e by (simp_all add: key_bytes_def del: le_bytes.simps)
  then have "unat (srcip k) = unat (srcip l)" "unat (dstip k) = unat (dstip l)"
    "unat (srcport k) = unat (srcport l)" "unat (dstport k) = unat (dstport l)"
    using le_bytes_inj b4 b2 by blast+
  then show "k = l" by (intro cnx_key.equality) (simp_all add: word_unat_eq_iff)
qed simp

lemma exchange_exchange [simp]: "exchange (exchange k) = k"
  by (simp add: exchange_def)

lemma exchange_inj [simp]: "exchange k = exchange l \<longleftrightarrow> k = l"
proof
  assume e: "exchange k = exchange l"
  have "exchange (exchange k) = exchange (exchange l)" by (simp only: e)
  then show "k = l" by simp
qed simp

section \<open>The invariant\<close>

text \<open>
  The elements of the hash table are the allocated ones, filed under their keys, and two connections never have
  the same endpoints, in either direction.
\<close>

definition table_ok :: "cnx_table \<Rightarrow> bool" where
  "table_ok s \<longleftrightarrow> head_inv (cnx_head s) \<and> dom (elems s) = set (HASH_ITER (cnx_head s)) \<and> 0 < cnx_fresh s \<and>
     (\<forall>a c. elems s a = Some c \<longrightarrow>
        elem_key (cnx_head s) a = Some (key_bytes (cnx_key c)) \<and> 0 < a \<and> a < cnx_fresh s) \<and>
     (\<forall>a b c d. elems s a = Some c \<longrightarrow> elems s b = Some d \<longrightarrow> cnx_key d = exchange (cnx_key c) \<longrightarrow> a = b)"

lemma table_okD:
  assumes "table_ok s"
  shows "head_inv (cnx_head s)" "dom (elems s) = set (HASH_ITER (cnx_head s))" "0 < cnx_fresh s"
    "elems s a = Some c \<Longrightarrow> elem_key (cnx_head s) a = Some (key_bytes (cnx_key c)) \<and> 0 < a \<and> a < cnx_fresh s"
    "elems s a = Some c \<Longrightarrow> elems s b = Some d \<Longrightarrow> cnx_key d = exchange (cnx_key c) \<Longrightarrow> a = b"
  using assms unfolding table_ok_def by blast+

lemma find_key:
  assumes "table_ok s"
  shows "HASH_FIND (cnx_head s) (key_bytes k) = Some a \<longleftrightarrow> (\<exists>c. elems s a = Some c \<and> cnx_key c = k)"
proof -
  have "a \<in> set (HASH_ITER (cnx_head s)) \<longleftrightarrow> (\<exists>c. elems s a = Some c)"
    using table_okD(2) [OF assms] by (metis domIff not_None_eq)
  then show ?thesis
    using uh.find_iff [OF table_okD(1) [OF assms], of "key_bytes k" a] table_okD(4) [OF assms, of a] by auto
qed

lemma find_key_none:
  assumes "table_ok s"
  shows "HASH_FIND (cnx_head s) (key_bytes k) = None \<longleftrightarrow> (\<forall>a c. elems s a = Some c \<longrightarrow> cnx_key c \<noteq> k)"
  using find_key [OF assms, of k] by (metis not_None_eq)

text \<open>A lookup depends only on the connections with these endpoints.\<close>

lemma find_local:
  assumes "table_ok s" "table_ok s'"
    and "\<And>a c. cnx_key c = k \<or> cnx_key c = exchange k \<Longrightarrow> elems s' a = Some c \<longleftrightarrow> elems s a = Some c"
  shows "cnx_find s' k = cnx_find s k"
proof -
  have same: "HASH_FIND (cnx_head s') (key_bytes l) = HASH_FIND (cnx_head s) (key_bytes l)" if "l = k \<or> l = exchange k" for l
  proof -
    have "HASH_FIND (cnx_head s') (key_bytes l) = Some a \<longleftrightarrow> HASH_FIND (cnx_head s) (key_bytes l) = Some a" for a
      using find_key [OF assms(1), of l a] find_key [OF assms(2), of l a] assms(3) that by blast
    then show ?thesis by (metis not_None_eq)
  qed
  have el: "elems s' a = elems s a" if "HASH_FIND (cnx_head s) (key_bytes l) = Some a" "l = k \<or> l = exchange k" for a l
    using find_key [OF assms(1), of l a] assms(3) that by metis
  show ?thesis
    using same el by (auto simp: cnx_find_def split: option.splits)
qed

lemma find_in: "table_ok s \<Longrightarrow> elems s a = Some c \<Longrightarrow> cnx_find s (cnx_key c) = Some (Some (a, CNX_DIR_IN), dropped c)"
  using find_key [of s "cnx_key c" a] by (auto simp: cnx_find_def)

lemma find_out:
  assumes "table_ok s" "elems s a = Some c" "exchange (cnx_key c) \<noteq> cnx_key c"
  shows "cnx_find s (exchange (cnx_key c)) = Some (Some (a, CNX_DIR_OUT), dropped c)"
proof -
  have "HASH_FIND (cnx_head s) (key_bytes (exchange (cnx_key c))) = None"
    unfolding find_key_none [OF assms(1)] using table_okD(5) [OF assms(1,2)] assms(2,3) by fastforce
  then show ?thesis using find_key [OF assms(1), of "cnx_key c" a] assms(2) by (auto simp: cnx_find_def)
qed

lemma find_nothing:
  assumes "table_ok s" "\<And>a c. elems s a = Some c \<Longrightarrow> cnx_key c \<noteq> k \<and> cnx_key c \<noteq> exchange k"
  shows "cnx_find s k = Some (None, False)"
proof -
  have "HASH_FIND (cnx_head s) (key_bytes k) = None" "HASH_FIND (cnx_head s) (key_bytes (exchange k)) = None"
    using find_key_none [OF assms(1)] assms(2) by blast+
  then show ?thesis by (simp add: cnx_find_def)
qed

text \<open>Every connection with these endpoints is the one found.\<close>

lemma find_only:
  assumes "table_ok s" "cnx_find s k = Some (Some (a, dir), d)"
  shows "\<exists>c. elems s a = Some c \<and> d = dropped c \<and> (cnx_key c = k \<or> cnx_key c = exchange k) \<and>
    (\<forall>b e. elems s b = Some e \<longrightarrow> cnx_key e = k \<or> cnx_key e = exchange k \<longrightarrow> b = a)"
proof -
  obtain c where c: "elems s a = Some c" "d = dropped c" "cnx_key c = k \<or> cnx_key c = exchange k"
    using assms(2) find_key [OF assms(1)] by (auto simp: cnx_find_def bind_Some_iff split: option.splits)
  have uniq: "b = a" if "elems s b = Some e" "cnx_key e = cnx_key c" for b e
    using find_key [OF assms(1), of "cnx_key c"] that c(1) by (metis option.inject)
  have "b = a" if "elems s b = Some e" "cnx_key e = k \<or> cnx_key e = exchange k" for b e
    using uniq [OF that(1)] table_okD(5) [OF assms(1) c(1) that(1)] c(3) that(2) by auto
  then show ?thesis using c by blast
qed

section \<open>The operations\<close>

definition logged :: "cnx_table \<Rightarrow> (addr \<times> bool) list \<Rightarrow> (addr \<times> bool) list" where
  "logged s calls = released s @ (if cnx_release_set s then calls else [])"

lemma remove_release_ok:
  assumes ok: "table_ok s" and a: "elems s a = Some c"
  obtains s1 s' where "cnx_remove s a = Some s1" "cnx_release s1 a True = Some s'" "table_ok s'"
    "elems s' = (elems s)(a := None)" "HASH_ITER (cnx_head s') = remove1 a (HASH_ITER (cnx_head s))"
    "head_room (cnx_head s) \<longrightarrow> head_room (cnx_head s')" "cnx_budget s' = cnx_budget s" "cnx_errs s' = cnx_errs s"
    "released s' = logged s [(a, True)]" "cnx_release_set s' = cnx_release_set s" "cnx_fresh s' = cnx_fresh s"
proof -
  have "a \<in> set (HASH_ITER (cnx_head s))" using table_okD(2) [OF ok] a by blast
  then obtain t where t: "HASH_DELETE (cnx_head s) a = Some t" "head_inv t" "HASH_ITER t = remove1 a (HASH_ITER (cnx_head s))"
    "elem_key t = (elem_key (cnx_head s))(a := None)" "head_room (cnx_head s) \<longrightarrow> head_room t"
    using uh.find_del [OF table_okD(1) [OF ok]] by metis
  let ?s1 = "s\<lparr>cnx_head := t\<rparr>"
  let ?s' = "?s1\<lparr>released := logged s [(a, True)], elems := (elems s)(a := None)\<rparr>"
  have r: "cnx_release ?s1 a True = Some ?s'" using a by (simp add: cnx_release_def logged_def)
  have "set (HASH_ITER t) = set (HASH_ITER (cnx_head s)) - {a}"
    using t(3) uh.distinct_iter [OF table_okD(1) [OF ok]] by simp
  then have "table_ok ?s'"
    using ok t(2,4) unfolding table_ok_def by (auto split: if_splits)
  then show ?thesis using that [OF _ r] t(1,3,5) by (simp add: cnx_remove_def)
qed

text \<open>Inserting a fresh connection whose endpoints are not in the table.\<close>

lemma insert_ok:
  assumes ok: "table_ok s" and room: "head_room (cnx_head s)" "0 < cnx_budget s"
    and new: "\<And>a c. elems s a = Some c \<Longrightarrow> cnx_key c \<noteq> k \<and> cnx_key c \<noteq> exchange k"
    and c: "cnx_key c = k" and e: "e = cnx_fresh s"
  obtains s' where "cnx_insert (s\<lparr>cnx_fresh := e + 1, cnx_budget := cnx_budget s - 1, table_id := i,
      elems := (elems s)(e \<mapsto> c)\<rparr>) e = Some s'"
    "table_ok s'" "elems s' = (elems s)(e \<mapsto> c)" "released s' = released s" "cnx_errs s' = cnx_errs s"
proof -
  have fresh: "elems s e = None" using table_okD(4) [OF ok, of e] e by (cases "elems s e") auto
  then have "e \<notin> set (HASH_ITER (cnx_head s))" using table_okD(2) [OF ok] by blast
  moreover have "HASH_FIND (cnx_head s) (key_bytes k) = None" using find_key_none [OF ok] new by blast
  ultimately obtain t where t: "HASH_ADD_KEYPTR (cnx_head s) (key_bytes k) e = Some t" "head_inv t"
    "HASH_ITER t = HASH_ITER (cnx_head s) @ [e]" "elem_key t = (elem_key (cnx_head s))(e \<mapsto> key_bytes k)"
    using uh.find_add [OF table_okD(1) [OF ok] room(1)] by metis
  let ?s = "s\<lparr>cnx_fresh := e + 1, cnx_budget := cnx_budget s - 1, table_id := i, elems := (elems s)(e \<mapsto> c), cnx_head := t\<rparr>"
  have "cnx_insert (s\<lparr>cnx_fresh := e + 1, cnx_budget := cnx_budget s - 1, table_id := i,
      elems := (elems s)(e \<mapsto> c)\<rparr>) e = Some ?s"
    using t(1) c by (simp add: cnx_insert_def)
  moreover have "table_ok ?s"
    unfolding table_ok_def
  proof (intro conjI allI impI)
    show "dom (elems ?s) = set (HASH_ITER (cnx_head ?s))" using table_okD(2) [OF ok] t(3) by auto
  next
    fix a d assume "elems ?s a = Some d"
    then show "elem_key (cnx_head ?s) a = Some (key_bytes (cnx_key d))" "0 < a" "a < cnx_fresh ?s"
      using table_okD(4) [OF ok, of a d] table_okD(3) [OF ok] t(4) c e by (auto split: if_splits)
  next
    fix a b x y assume x: "elems ?s a = Some x" "elems ?s b = Some y" "cnx_key y = exchange (cnx_key x)"
    have ae: "a = e" if "b = e"
      using that x(1) new [of a x] arg_cong [OF x(3), of exchange] x(2) c by (cases "a = e") simp_all
    have be: "b = e" if "a = e"
      using that x new [of b y] c by (cases "b = e") simp_all
    show "a = b"
    proof (cases "a = e \<or> b = e")
      case True
      then show ?thesis using ae be by blast
    next
      case False
      then have "elems s a = Some x" "elems s b = Some y" using x(1,2) by simp_all
      then show ?thesis using x(3) by (rule table_okD(5) [OF ok])
    qed
  qed (use t(2) in auto)
  ultimately show ?thesis by (rule that) simp_all
qed

text \<open>
  A new connection: the connections with the same endpoints, if there are any, are dropped ones, and are
  released.
\<close>

definition same_ends :: "cnx_key \<Rightarrow> cnx_key \<Rightarrow> bool" where
  "same_ends k l \<longleftrightarrow> l = k \<or> l = exchange k"

lemma same_ends_exchange [simp]: "same_ends (exchange k) l = same_ends k l" "same_ends k (exchange l) = same_ends k l"
  using exchange_exchange [of l] by (auto simp: same_ends_def)

lemma same_ends_refl [simp]: "same_ends k k"
  by (simp add: same_ends_def)

lemma find_ends:
  assumes "table_ok s" "elems s a = Some c" "same_ends k (cnx_key c)"
  obtains dir where "cnx_find s k = Some (Some (a, dir), dropped c)"
proof (cases "cnx_key c = k")
  case True
  then show ?thesis using that find_in [OF assms(1,2)] by simp
next
  case False
  then have k: "k = exchange (cnx_key c)" using assms(3) by (simp add: same_ends_def)
  then have "exchange (cnx_key c) \<noteq> cnx_key c" using False by simp
  from find_out [OF assms(1,2) this] show ?thesis using that k by simp
qed

lemma clear_old_ok:
  assumes ok: "table_ok s" and room: "head_room (cnx_head s)"
    and old: "\<And>a c. elems s a = Some c \<Longrightarrow> same_ends k (cnx_key c) \<Longrightarrow> dropped c"
  obtains found drp s1 where "cnx_find s k = Some (found, drp)"
    "(case found of
         Some (elem, _) \<Rightarrow>
           (if drp then do {
              table \<leftarrow> cnx_remove s elem;
              table \<leftarrow> cnx_release table elem True;
              Some (True, table)
            } else Some (False, cnx_error s ''cnx already exists''))
       | None \<Rightarrow> Some (True, s)) = Some (True, s1)"
    "table_ok s1" "head_room (cnx_head s1)" "cnx_budget s1 = cnx_budget s" "cnx_errs s1 = cnx_errs s"
    "cnx_fresh s1 = cnx_fresh s" "\<forall>a d. elems s1 a = Some d \<longleftrightarrow> elems s a = Some d \<and> \<not> same_ends k (cnx_key d)"
proof (cases "\<exists>a c. elems s a = Some c \<and> same_ends k (cnx_key c)")
  case False
  then have "cnx_find s k = Some (None, False)" by (intro find_nothing [OF ok]) (auto simp: same_ends_def)
  then show ?thesis by (rule that [of None False s]) (use ok room False in auto)
next
  case True
  then obtain a c where a: "elems s a = Some c" "same_ends k (cnx_key c)" by blast
  obtain dir where f: "cnx_find s k = Some (Some (a, dir), dropped c)" using ok a by (rule find_ends)
  have only: "b = a" if "elems s b = Some d" "same_ends k (cnx_key d)" for b d
    using find_only [OF ok f] that by (auto simp: same_ends_def)
  obtain s1 s' where r: "cnx_remove s a = Some s1" "cnx_release s1 a True = Some s'" "table_ok s'"
    "elems s' = (elems s)(a := None)" "head_room (cnx_head s) \<longrightarrow> head_room (cnx_head s')"
    "cnx_budget s' = cnx_budget s" "cnx_errs s' = cnx_errs s" "cnx_fresh s' = cnx_fresh s"
    using ok a(1) by (rule remove_release_ok)
  have el: "elems s' b = Some d \<longleftrightarrow> elems s b = Some d \<and> \<not> same_ends k (cnx_key d)" for b d
  proof (cases "b = a")
    case True
    then show ?thesis using r(4) a by auto
  next
    case False
    then show ?thesis using r(4) only [of b d] by auto
  qed
  show ?thesis by (rule that [OF f, of s']) (use r(1-3,5-8) old [OF a] room el in simp_all)
qed

lemma cnx_new_ok:
  assumes ok: "table_ok s" and room: "head_room (cnx_head s)" "0 < cnx_budget s"
    and old: "\<And>a c. elems s a = Some c \<Longrightarrow> same_ends k (cnx_key c) \<Longrightarrow> dropped c"
  obtains e s' c where "cnx_new s k = Some (e, s')" "table_ok s'" "e \<noteq> NULL" "elems s e = None"
    "elems s' e = Some c" "cnx_key c = k" "\<not> dropped c" "cnx_errs s' = cnx_errs s"
    "\<forall>a d. a \<noteq> e \<longrightarrow> (elems s' a = Some d \<longleftrightarrow> elems s a = Some d \<and> \<not> same_ends k (cnx_key d))"
proof -
  obtain found drp s1 where 1: "cnx_find s k = Some (found, drp)"
    "(case found of
         Some (elem, _) \<Rightarrow>
           (if drp then do {
              table \<leftarrow> cnx_remove s elem;
              table \<leftarrow> cnx_release table elem True;
              Some (True, table)
            } else Some (False, cnx_error s ''cnx already exists''))
       | None \<Rightarrow> Some (True, s)) = Some (True, s1)"
    "table_ok s1" "head_room (cnx_head s1)" "cnx_budget s1 = cnx_budget s" "cnx_errs s1 = cnx_errs s"
    "cnx_fresh s1 = cnx_fresh s" "\<forall>a d. elems s1 a = Some d \<longleftrightarrow> elems s a = Some d \<and> \<not> same_ends k (cnx_key d)"
    using ok room(1) old by (rule clear_old_ok)
  define e where "e = cnx_fresh s1"
  define c where "c = \<lparr>cnx_key = k, stats = (\<lambda>_. \<lparr>packets = 0, bytes = 0\<rparr>), dropped = False, cnx_id = table_id s1 + 1\<rparr>"
  have b: "0 < cnx_budget s1" using room(2) 1(5) by simp
  have new: "cnx_key d \<noteq> k \<and> cnx_key d \<noteq> exchange k" if "elems s1 a = Some d" for a d
    using that 1(8) by (auto simp: same_ends_def)
  have ck: "cnx_key c = k" by (simp add: c_def)
  obtain s' where s': "cnx_insert (s1\<lparr>cnx_fresh := e + 1, cnx_budget := cnx_budget s1 - 1, table_id := table_id s1 + 1,
      elems := (elems s1)(e \<mapsto> c)\<rparr>) e = Some s'"
    "table_ok s'" "elems s' = (elems s1)(e \<mapsto> c)" "released s' = released s1" "cnx_errs s' = cnx_errs s1"
    using 1(3,4) b new ck e_def by (rule insert_ok)
  have e0: "e \<noteq> NULL" using table_okD(3) [OF 1(3)] by (simp add: e_def)
  have "cnx_new s k = Some (e, s')"
    unfolding cnx_new_def 1(1) bind.bind_lunit prod.case 1(2)
    using s'(1) b e0 by (simp add: cnx_malloc_def e_def [symmetric] c_def [symmetric])
  moreover have "elems s e = None" using table_okD(4) [OF ok, of e] 1(7) e_def by (cases "elems s e") auto
  moreover have "\<not> dropped c" by (simp add: c_def)
  ultimately show ?thesis by (intro that [of e s' c]) (use s'(2,3,5) e0 ck 1(6,8) in simp_all)
qed

lemma cnx_new_table_ok:
  assumes "cnx_table_new release_set budget e = (Some s, e')"
  shows "table_ok s" "head_room (cnx_head s)" "elems s = Map.empty" "cnx_budget s = budget - 1"
    "cnx_release_set s = release_set" "released s = []"
  using assms
  by (auto simp: cnx_table_new_def table_ok_def head_inv_def head_room_def HASH_ITER_def split: if_splits)

lemma cnx_drop_ok:
  assumes ok: "table_ok s" and a: "elems s a = Some c"
  obtains s' where "cnx_drop s a = Some s'" "table_ok s'" "elems s' = (elems s)(a \<mapsto> c\<lparr>dropped := True\<rparr>)"
    "cnx_head s' = cnx_head s" "released s' = logged s [(a, False)]" "cnx_budget s' = cnx_budget s"
proof -
  let ?s = "s\<lparr>released := logged s [(a, False)], elems := (elems s)(a \<mapsto> c\<lparr>dropped := True\<rparr>)\<rparr>"
  have d: "cnx_drop s a = Some ?s" using a by (simp add: cnx_drop_def cnx_release_def logged_def)
  have key: "\<exists>e. elems s b = Some e \<and> cnx_key e = cnx_key d" if "elems ?s b = Some d" for b d
    using that a by (auto split: if_splits)
  have "table_ok ?s"
    unfolding table_ok_def
  proof (intro conjI allI impI)
    show "dom (elems ?s) = set (HASH_ITER (cnx_head ?s))" using table_okD(2) [OF ok] a by auto
  next
    fix b d assume "elems ?s b = Some d"
    from key [OF this] obtain e where "elems s b = Some e" "cnx_key e = cnx_key d" by blast
    then show "elem_key (cnx_head ?s) b = Some (key_bytes (cnx_key d))" "0 < b" "b < cnx_fresh ?s"
      using table_okD(4) [OF ok, of b e] by simp_all
  next
    fix p q x y assume "elems ?s p = Some x" "elems ?s q = Some y" and k: "cnx_key y = exchange (cnx_key x)"
    then obtain x' y' where "elems s p = Some x'" "cnx_key x' = cnx_key x" "elems s q = Some y'" "cnx_key y' = cnx_key y"
      using key by metis
    then show "p = q" using table_okD(5) [OF ok, of p x' q y'] k by simp
  qed (use table_okD(1,3) [OF ok] in simp_all)
  then show ?thesis using d by (intro that [of ?s]) simp_all
qed

lemma release_all_ok:
  "table_ok s \<Longrightarrow> HASH_ITER (cnx_head s) = es \<Longrightarrow>
   \<exists>s'. release_all es s = Some s' \<and> table_ok s' \<and> HASH_ITER (cnx_head s') = [] \<and> released s' = logged s (map (\<lambda>a. (a, True)) es)"
proof (induction es arbitrary: s)
  case Nil
  then show ?case by (simp add: logged_def)
next
  case (Cons a es)
  have "a \<in> dom (elems s)" using table_okD(2) [OF Cons.prems(1)] Cons.prems(2) by simp
  then obtain c where a: "elems s a = Some c" by blast
  obtain s1 s' where r: "cnx_remove s a = Some s1" "cnx_release s1 a True = Some s'" "table_ok s'"
    "HASH_ITER (cnx_head s') = remove1 a (HASH_ITER (cnx_head s))"
    "released s' = logged s [(a, True)]" "cnx_release_set s' = cnx_release_set s"
    using Cons.prems(1) a by (rule remove_release_ok)
  have "HASH_ITER (cnx_head s') = es" using r(4) Cons.prems(2) by simp
  from Cons.IH [OF r(3) this] show ?case using r(1,2,5,6) by (auto simp: logged_def)
qed

lemma sample_table:
  obtains s where "table_ok s" "head_room (cnx_head s)" "0 < cnx_budget s" "elems s = Map.empty" "cnx_release_set s"
    "released s = []"
proof -
  obtain s where "cnx_table_new True 3 error_init = (Some s, error_init)" by (simp add: cnx_table_new_def)
  from cnx_new_table_ok [OF this] show ?thesis using that by simp
qed

definition sample_key :: cnx_key where
  "sample_key = \<lparr>srcip = 1, dstip = 2, srcport = 3, dstport = 4\<rparr>"

lemma sample_cnx:
  obtains s a c where "table_ok s" "elems s a = Some c" "cnx_key c = sample_key" "\<not> dropped c" "a \<noteq> NULL"
proof -
  obtain t where t: "table_ok t" "head_room (cnx_head t)" "0 < cnx_budget t" "elems t = Map.empty"
    by (rule sample_table)
  have old: "dropped c" if "elems t a = Some c" "same_ends sample_key (cnx_key c)" for a c using that t(4) by simp
  obtain e s c where "table_ok s" "e \<noteq> NULL" "elems s e = Some c" "cnx_key c = sample_key" "\<not> dropped c"
    using t(1-3) old by (rule cnx_new_ok)
  then show ?thesis using that by blast
qed

section \<open>Properties\<close>

text \<open>
  C5. Opening a connection between endpoints that have no live connection succeeds, also when it replaces a
  dropped one: afterwards it is found by packets of both directions, each with its own direction, and every lookup
  for other endpoints has the same result as before.
\<close>

theorem cnx_new_get:
  assumes "table_ok s" "head_room (cnx_head s)" "0 < cnx_budget s"
    and "\<forall>a c. elems s a = Some c \<longrightarrow> same_ends k (cnx_key c) \<longrightarrow> dropped c"
  shows "\<exists>e s'. cnx_new s k = Some (e, s') \<and> table_ok s' \<and> e \<noteq> NULL \<and> elems s e = None \<and>
    cnx_get s' k = Some (e, CNX_DIR_IN, False) \<and>
    cnx_get s' (exchange k) = Some (e, if exchange k = k then CNX_DIR_IN else CNX_DIR_OUT, False) \<and>
    (\<forall>l. \<not> same_ends k l \<longrightarrow> cnx_get s' l = cnx_get s l)"
proof -
  have old: "dropped c" if "elems s a = Some c" "same_ends k (cnx_key c)" for a c using assms(4) that by blast
  obtain e s' c where n: "cnx_new s k = Some (e, s')" "table_ok s'" "e \<noteq> NULL" "elems s e = None"
    "elems s' e = Some c" "cnx_key c = k" "\<not> dropped c"
    "\<forall>a d. a \<noteq> e \<longrightarrow> (elems s' a = Some d \<longleftrightarrow> elems s a = Some d \<and> \<not> same_ends k (cnx_key d))"
    using assms(1-3) old by (rule cnx_new_ok)
  have g: "cnx_get s' k = Some (e, CNX_DIR_IN, False)"
    using find_in [OF n(2,5)] n(6,7) by (simp add: cnx_get_def)
  moreover have "cnx_get s' (exchange k) = Some (e, if exchange k = k then CNX_DIR_IN else CNX_DIR_OUT, False)"
    using g find_out [OF n(2,5)] n(6,7) by (cases "exchange k = k") (simp_all add: cnx_get_def)
  moreover have "cnx_get s' l = cnx_get s l" if l: "\<not> same_ends k l" for l
  proof -
    have "cnx_find s' l = cnx_find s l"
    proof (rule find_local [OF assms(1) n(2)])
      fix a and d :: cnx assume d: "cnx_key d = l \<or> cnx_key d = exchange l"
      then have "\<not> same_ends k (cnx_key d)" using l by auto
      then show "elems s' a = Some d \<longleftrightarrow> elems s a = Some d" using n(4-6,8) by (cases "a = e") auto
    qed
    then show ?thesis by (simp add: cnx_get_def)
  qed
  ultimately show ?thesis using n(1-4) by blast
qed

theorem cnx_new_get_witness:
  "\<exists>s e s'. cnx_new s sample_key = Some (e, s') \<and> cnx_get s' sample_key = Some (e, CNX_DIR_IN, False) \<and>
    cnx_get s' (exchange sample_key) = Some (e, CNX_DIR_OUT, False)"
proof -
  obtain t where t: "table_ok t" "head_room (cnx_head t)" "0 < cnx_budget t" "elems t = Map.empty"
    by (rule sample_table)
  have "exchange sample_key \<noteq> sample_key" by (simp add: sample_key_def exchange_def)
  moreover have "\<exists>e s'. cnx_new t sample_key = Some (e, s') \<and> table_ok s' \<and> e \<noteq> NULL \<and> elems t e = None \<and>
    cnx_get s' sample_key = Some (e, CNX_DIR_IN, False) \<and>
    cnx_get s' (exchange sample_key) = Some (e, if exchange sample_key = sample_key then CNX_DIR_IN else CNX_DIR_OUT, False) \<and>
    (\<forall>l. \<not> same_ends sample_key l \<longrightarrow> cnx_get s' l = cnx_get t l)"
    by (rule cnx_new_get [OF t(1-3)]) (simp add: t(4))
  ultimately show ?thesis by auto
qed

text \<open>
  C31. Opening a connection between endpoints that have a live connection, in either direction, is refused with an
  error and changes nothing else.
\<close>

theorem cnx_new_exists:
  assumes "table_ok s" "elems s a = Some c" "same_ends k (cnx_key c)" "\<not> dropped c"
  shows "cnx_new s k = Some (NULL, s\<lparr>cnx_errs := error ''cnx already exists'' (cnx_errs s)\<rparr>)"
proof -
  obtain dir where "cnx_find s k = Some (Some (a, dir), dropped c)" using assms(1-3) by (rule find_ends)
  then show ?thesis using assms(4) by (simp add: cnx_new_def cnx_error_def)
qed

theorem cnx_new_exists_witness:
  "\<exists>s. cnx_new s (exchange sample_key) = Some (NULL, s\<lparr>cnx_errs := error ''cnx already exists'' (cnx_errs s)\<rparr>)"
proof -
  obtain s a c where s: "table_ok s" "elems s a = Some c" "cnx_key c = sample_key" "\<not> dropped c" by (rule sample_cnx)
  have "cnx_new s (exchange sample_key) = Some (NULL, s\<lparr>cnx_errs := error ''cnx already exists'' (cnx_errs s)\<rparr>)"
    by (rule cnx_new_exists [OF s(1,2) _ s(4)]) (simp add: s(3))
  then show ?thesis by blast
qed



text \<open>
  C33. A dropped connection stays in the table: packets of both directions are told that it is dropped and get no
  connection; other lookups are unchanged and the client's release function is called without freeing the element.
\<close>

theorem cnx_drop_get:
  assumes "table_ok s" "elems s a = Some c"
  shows "\<exists>s'. cnx_drop s a = Some s' \<and> table_ok s' \<and>
    released s' = released s @ (if cnx_release_set s then [(a, False)] else []) \<and>
    (\<forall>l. same_ends (cnx_key c) l \<longrightarrow> (\<exists>dir. cnx_get s' l = Some (NULL, dir, True))) \<and>
    (\<forall>l. \<not> same_ends (cnx_key c) l \<longrightarrow> cnx_get s' l = cnx_get s l)"
proof -
  let ?d = "c\<lparr>dropped := True\<rparr>"
  obtain s' where s': "cnx_drop s a = Some s'" "table_ok s'" "elems s' = (elems s)(a \<mapsto> ?d)"
    "released s' = logged s [(a, False)]"
    using assms by (rule cnx_drop_ok)
  have "\<exists>dir. cnx_get s' l = Some (NULL, dir, True)" if "same_ends (cnx_key c) l" for l
  proof -
    have "elems s' a = Some ?d" using s'(3) by simp
    moreover have "same_ends l (cnx_key ?d)" using that by (auto simp: same_ends_def)
    ultimately obtain dir where "cnx_find s' l = Some (Some (a, dir), dropped ?d)" by (rule find_ends [OF s'(2)])
    then show ?thesis by (simp add: cnx_get_def)
  qed
  moreover have "cnx_get s' l = cnx_get s l" if l: "\<not> same_ends (cnx_key c) l" for l
  proof -
    have "cnx_find s' l = cnx_find s l"
    proof (rule find_local [OF assms(1) s'(2)])
      fix b and d :: cnx assume "cnx_key d = l \<or> cnx_key d = exchange l"
      then have "same_ends (cnx_key d) l" by (auto simp: same_ends_def)
      then have "cnx_key d \<noteq> cnx_key c" using l by metis
      then show "elems s' b = Some d \<longleftrightarrow> elems s b = Some d" using s'(3) assms(2) by (cases "b = a") auto
    qed
    then show ?thesis by (simp add: cnx_get_def)
  qed
  ultimately show ?thesis using s' by (auto simp: logged_def)
qed

theorem cnx_drop_get_witness:
  "\<exists>s a s' dir. cnx_drop s a = Some s' \<and> cnx_get s' (exchange sample_key) = Some (NULL, dir, True)"
proof -
  obtain s a c where s: "table_ok s" "elems s a = Some c" "cnx_key c = sample_key" by (rule sample_cnx)
  from cnx_drop_get [OF s(1,2)] obtain s' where "cnx_drop s a = Some s'"
    "\<forall>l. same_ends (cnx_key c) l \<longrightarrow> (\<exists>dir. cnx_get s' l = Some (NULL, dir, True))" by blast
  moreover have "same_ends (cnx_key c) (exchange sample_key)" by (simp add: s(3))
  ultimately show ?thesis by blast
qed

end
