(* ===== verification/Spec2Isabelle.thy ===== *)
theory Spec2Isabelle
  imports VBuffer_Number Timer Inet_Checksum Cnx_Table
begin

text \<open>
  A verification development for Haka, a tool that captures packets, dissects them and runs rules on them.

  \<^bold>\<open>The program.\<close>  The library \<open>lib/haka\<close> holds the containers, the per-thread error context, the virtual
  buffers in which packets and streams are stored, time and timers.  The protocol modules (\<open>modules/protocol\<close>)
  dissect packets stored in virtual buffers and keep the fragments and the connections in hash tables
  (\<open>external/uthash\<close>).  The executables load the modules, capture packets and run the rules, which are Lua programs.

  \<^bold>\<open>The model.\<close>  C pointers are natural numbers, 0 is the null pointer, and objects are stored in maps from
  addresses.  Every operation that follows pointers is written in the option monad: \<open>None\<close> stands for a run of
  the C code that does not complete normally (a null, dangling or out of range access, a failed assertion, undefined
  arithmetic, or a loop that never ends).  The errors that the program reports are ordinary results.  The theories,
  in the order of their dependencies:

  \<^item> \<open>Haka_Prelude\<close>: the types shared by all theories, \<open>assert_that\<close>, the truncations of sizes to 32 and 64 bits, and
    lemmas on lists and maps.
  \<^item> \<open>Error_Context\<close>: \<open>lib/haka/error.c\<close>.  The first error of a thread is kept until it is cleared.
  \<^item> \<open>List2\<close>: \<open>container/list2\<close>, the circular doubly linked list with a sentinel.  The abstraction \<open>seq\<close> relates
    the links to a list; insertion, erasure, splicing and swapping refine the list operations and leave all other links
    unchanged.
  \<^item> \<open>VBuffer_Data\<close>, \<open>VBuffer_Chunk\<close>, \<open>VBuffer_Buffer\<close>: \<open>vbuffer_data.c\<close> and the first part of \<open>vbuffer.c\<close>.  A heap
    (\<open>vheap\<close>) holds the links, the chunks, the reference-counted data blocks, the error context and an allocation budget,
    which makes \<open>malloc\<close> fail when it is used up.  The invariant \<open>heap_ok\<close> says that the counts are the numbers of
    references; \<open>vbuf h b cs\<close> says that the buffer with the end chunk \<open>b\<close> has the chunks \<open>cs\<close>; \<open>content\<close> is its bytes.
    \<open>frame_off\<close> states what an operation leaves unchanged.
  \<^item> \<open>VBuffer_Iterator\<close>, \<open>VBuffer_Sub\<close>, \<open>VBuffer_Edit\<close>, \<open>VBuffer_Number\<close>: the rest of \<open>vbuffer.c\<close>.  \<open>itr h b cs it p\<close> says
    that an iterator stands at position \<open>p\<close>, \<open>range_at h b cs data p q\<close> that a sub-buffer is the bytes from \<open>p\<close> to \<open>q\<close>.
    The loops over the chunks are partial functions; the lemmas show that they return, with the stated result.
    \<open>rewritten\<close> says that two heaps differ in the bytes of some chunks only.
  \<^item> \<open>Inet_Checksum\<close>: the checksum of \<open>modules/protocol/ipv4/ipv4.c\<close>, equal to the one of RFC 1071 (\<open>rfc1071\<close>) for every
    alignment and every cut of the data into pieces.  The bound of 65000 bytes keeps the sums, whose type is \<open>int\<close>,
    below their maximum: a sum is at most 16842495 plus 32768 for each byte.
  \<^item> \<open>Uthash\<close>: the hash table.  The locale \<open>keyed_table\<close> is the interface its clients rely on; it is interpreted on the
    model of the macros.  The number of buckets is less than \<open>2 ^ 31\<close> before an insertion (\<open>head_room\<close>), so that it can be
    doubled.
  \<^item> \<open>Cnx_Table\<close>: \<open>modules/protocol/ipv4/cnx.c\<close>, the table of connections, a client of \<open>Uthash\<close> through the locale
    \<open>keyed_table\<close>.  The invariant \<open>table_ok\<close> says that the elements are filed under their keys and that no two connections
    have the same endpoints, in either direction.
  \<^item> \<open>Time\<close>, \<open>Timer\<close>: \<open>time.c\<close> and \<open>timer.c\<close>.  \<open>time_value\<close> is the number of nanoseconds of a time stamp.  The invariant
    \<open>realm_inv\<close> says that the timers of a realm are sorted by their trigger time; a check fires exactly the due ones.

  \<^bold>\<open>Not modelled.\<close>  The streams of virtual buffers and what is built on them (the reassembly of IPv4 fragments and of TCP
  streams), the state machines, the vector and bitfield containers, and the dissection of packets.  Code whose effect is on the operating system or on the Lua interpreter: the capture modules, the
  command line tools, the loading of modules, the Lua bindings and the Lua debugger, the output of logs and alerts,
  the search engine of the regular expression module.  Threads: the operations are modelled as they run under
  the locks that protect them.
\<close>

end
